(* ===== verification/Prelude.thy ===== *)
theory Prelude
  imports Main "HOL-Library.Word"
begin

text \<open>
  Shared vocabulary of the development: \<open>size_t\<close> arithmetic of an LP64 platform with the
  wrap-around modulo \<open>2 ^ 64\<close> written out, the alignment macros of
  \<^verbatim>\<open>immutable_cache_sma.h\<close>, and the generic list facts the components use. The collections
  \<open>size_t_simps\<close> (arithmetic that does not wrap) and \<open>layout_simps\<close> (the constant
  sizes of the shared-memory layout) are passed to the simplifier by name.
\<close>

named_theorems size_t_simps "size_t operations that do not wrap around"
named_theorems layout_simps "constant sizes of the shared-memory layout"

type_synonym size_t = nat

subsection \<open>size_t\<close>

definition SIZE_MAX :: size_t where
  "SIZE_MAX = 2 ^ 64 - 1"

definition size_add :: "size_t \<Rightarrow> size_t \<Rightarrow> size_t" where
  "size_add a b = (a + b) mod 2 ^ 64"

definition size_sub :: "size_t \<Rightarrow> size_t \<Rightarrow> size_t" where
  "size_sub a b = (a + (2 ^ 64 - b mod 2 ^ 64)) mod 2 ^ 64"

definition size_mul :: "size_t \<Rightarrow> size_t \<Rightarrow> size_t" where
  "size_mul a b = (a * b) mod 2 ^ 64"

text \<open>\<^verbatim>\<open>ALIGNSIZE\<close> and \<^verbatim>\<open>ALIGNWORD\<close>, with the 8 bytes of
  \<^verbatim>\<open>immutable_cache_word_t\<close> (a union of a pointer, a long and a double).\<close>

definition ALIGNSIZE :: "size_t \<Rightarrow> size_t \<Rightarrow> size_t" where
  "ALIGNSIZE x sz = size_mul sz (size_add 1 (size_sub x 1 div sz))"

definition ALIGNWORD :: "size_t \<Rightarrow> size_t" where
  "ALIGNWORD x = ALIGNSIZE x 8"

lemma size_add_exact [size_t_simps]: "a + b < 2 ^ 64 \<Longrightarrow> size_add a b = a + b"
  by (simp add: size_add_def)

lemma size_mul_exact [size_t_simps]: "a * b < 2 ^ 64 \<Longrightarrow> size_mul a b = a * b"
  by (simp add: size_mul_def)

lemma size_sub_exact [size_t_simps]:
  assumes "b \<le> a" "a < 2 ^ 64"
  shows "size_sub a b = a - b"
proof -
  have "size_sub a b = (2 ^ 64 + (a - b)) mod 2 ^ 64"
    using assms by (simp add: size_sub_def add.commute)
  also have "\<dots> = a - b"
    using assms by (simp only: mod_add_self1) simp
  finally show ?thesis .
qed

lemma size_add_less [simp]: "size_add a b < 18446744073709551616"
  by (simp add: size_add_def)

lemma size_sub_less [simp]: "size_sub a b < 18446744073709551616"
  by (simp add: size_sub_def)

lemma size_mul_less [simp]: "size_mul a b < 18446744073709551616"
  by (simp add: size_mul_def)

subsection \<open>Word alignment\<close>

lemma ALIGNWORD_exact:
  assumes "0 < x" "x + 7 < 2 ^ 64"
  shows "ALIGNWORD x = 8 * ((x + 7) div 8)"
proof -
  have 1: "size_sub x (Suc 0) = x - 1"
    using assms size_sub_exact [of 1 x] by simp
  have "1 + (x - 1) div 8 = (x + 7) div 8"
    using assms by (simp add: div_add_self2 [symmetric])
  moreover have "8 * ((x + 7) div 8) < 2 ^ 64"
    using assms by (rule_tac le_less_trans [of _ "x + 7"]) auto
  moreover have "1 + (x - 1) div 8 < 2 ^ 64"
    using assms by linarith
  ultimately show ?thesis
    by (simp add: ALIGNWORD_def ALIGNSIZE_def 1 size_t_simps)
qed

lemma ALIGNWORD_bounds:
  assumes "0 < x" "x + 7 < 2 ^ 64"
  shows "x \<le> ALIGNWORD x" "ALIGNWORD x < x + 8" "8 dvd ALIGNWORD x"
proof -
  have *: "ALIGNWORD x = 8 * ((x + 7) div 8)"
    by (rule ALIGNWORD_exact [OF assms])
  show "x \<le> ALIGNWORD x" "ALIGNWORD x < x + 8"
    unfolding * by presburger+
  show "8 dvd ALIGNWORD x"
    unfolding * by simp
qed

lemma ALIGNWORD_less [simp]: "ALIGNWORD x < 18446744073709551616"
  by (simp add: ALIGNWORD_def ALIGNSIZE_def)

text \<open>The padding of \<open>0\<close> wraps: \<open>(0 - 1) / 8 + 1\<close> is \<open>2 ^ 61\<close>, and eight times that is \<open>0\<close>.\<close>

lemma ALIGNWORD_0: "ALIGNWORD 0 = 0"
  by (simp add: ALIGNWORD_def ALIGNSIZE_def size_mul_def size_add_def size_sub_def)

subsection \<open>Runs that can crash\<close>

text \<open>The ways in which a call of the C code does not return: a failed \<^verbatim>\<open>assert\<close> or
  \<^verbatim>\<open>ZEND_ASSERT\<close>, a loop or recursion that never ends, a write to memory that is mapped
  read-only, an access outside an object, and \<^verbatim>\<open>zend_error_noreturn\<close>.\<close>

datatype crash = AssertFailed | Diverges | Segfault | BadAccess | CoreError string

definition ebind :: "'e + 'a \<Rightarrow> ('a \<Rightarrow> 'e + 'b) \<Rightarrow> 'e + 'b" where
  "ebind r f = (case r of Inl e \<Rightarrow> Inl e | Inr x \<Rightarrow> f x)"

lemma ebind_simps [simp]: "ebind (Inl e) f = Inl e" "ebind (Inr x) f = f x"
  by (simp_all add: ebind_def)

lemma ebind_Inr_iff: "ebind r f = Inr y \<longleftrightarrow> (\<exists>x. r = Inr x \<and> f x = Inr y)"
  by (cases r) auto

definition of_option :: "'e \<Rightarrow> 'a option \<Rightarrow> 'e + 'a" where
  "of_option e r = (case r of None \<Rightarrow> Inl e | Some x \<Rightarrow> Inr x)"

lemma of_option_simps [simp]: "of_option e None = Inl e" "of_option e (Some x) = Inr x"
  by (simp_all add: of_option_def)

subsection \<open>Lists\<close>

lemma distinct_map_fst_same:
  "distinct (map fst xs) \<Longrightarrow> (a, b) \<in> set xs \<Longrightarrow> (a, c) \<in> set xs \<Longrightarrow> b = c"
  by (metis eq_key_imp_eq_value)

lemma map_replace_notin [simp]: "b \<notin> set xs \<Longrightarrow> map (\<lambda>x. if x = b then c else x) xs = xs"
  by (induction xs) auto

lemma find_append_first: "\<forall>y \<in> set xs. \<not> P y \<Longrightarrow> P x \<Longrightarrow> List.find P (xs @ x # ys) = Some x"
  by (induction xs) auto

lemma sum_list_split_Cons: "sum_list (map f (xs @ y # ys)) = sum_list (map f xs) + (f y + sum_list (map f ys))"
  for f :: "'a \<Rightarrow> nat"
  by simp

end
