(* ===== verification/Locks.thy ===== *)
theory Locks
  imports Prelude
begin

text \<open>
  Locks and the process state around them: \<^verbatim>\<open>immutable_cache_lock.c\<close> in the build with
  native \<^verbatim>\<open>pthread\<close> read/write locks, \<^verbatim>\<open>HANDLE_BLOCK_INTERRUPTIONS\<close>, and the
  process-shared mutex of \<^verbatim>\<open>immutable_cache_mutex.c\<close>.

  The view is the one of a single process: \<open>held_r\<close> and \<open>held_w\<close> count how often this
  process holds each lock, \<open>blocked\<close> is the nesting depth of blocked interruptions. Whether
  a \<^verbatim>\<open>pthread\<close> call succeeds is up to the system: \<open>lock_rc\<close> lists the results of the
  coming acquisitions (an empty list: all of them succeed), so a theorem about every state is a
  theorem about every pattern of failures.
\<close>

subsection \<open>State\<close>

text \<open>A lock of the header of segment \<open>i\<close>: the general one or one of the fine-grained ones.\<close>

datatype immutable_cache_lock_t = SmaLock nat | FineLock nat nat

record os =
  blocked :: int
  held_r :: "immutable_cache_lock_t \<Rightarrow> int"
  held_w :: "immutable_cache_lock_t \<Rightarrow> int"
  lock_rc :: "int list"
  warnings :: "string list"
  protect_memory :: bool
  entry_level :: nat
  writable :: "nat \<Rightarrow> bool"

definition HANDLE_BLOCK_INTERRUPTIONS :: "'a os_scheme \<Rightarrow> 'a os_scheme" where
  "HANDLE_BLOCK_INTERRUPTIONS s = s\<lparr>blocked := blocked s + 1\<rparr>"

definition HANDLE_UNBLOCK_INTERRUPTIONS :: "'a os_scheme \<Rightarrow> 'a os_scheme" where
  "HANDLE_UNBLOCK_INTERRUPTIONS s = s\<lparr>blocked := blocked s - 1\<rparr>"

text \<open>A warning of \<^verbatim>\<open>immutable_cache_warning\<close>, without its format arguments.\<close>

definition immutable_cache_warning :: "string \<Rightarrow> 'a os_scheme \<Rightarrow> 'a os_scheme" where
  "immutable_cache_warning msg s = s\<lparr>warnings := warnings s @ [msg]\<rparr>"

subsection \<open>Acquiring and releasing\<close>

text \<open>The result of the next \<^verbatim>\<open>pthread\<close> acquisition.\<close>

definition next_rc :: "'a os_scheme \<Rightarrow> int \<times> 'a os_scheme" where
  "next_rc s = (case lock_rc s of [] \<Rightarrow> (0, s) | r # rs \<Rightarrow> (r, s\<lparr>lock_rc := rs\<rparr>))"

definition immutable_cache_lock_rlock_impl ::
  "immutable_cache_lock_t \<Rightarrow> 'a os_scheme \<Rightarrow> bool \<times> 'a os_scheme" where
  "immutable_cache_lock_rlock_impl l s =
     (let (r, s) = next_rc s
      in if r = 0 then (True, s\<lparr>held_r := (held_r s)(l := held_r s l + 1)\<rparr>) else (False, s))"

definition immutable_cache_lock_wlock_impl ::
  "immutable_cache_lock_t \<Rightarrow> 'a os_scheme \<Rightarrow> bool \<times> 'a os_scheme" where
  "immutable_cache_lock_wlock_impl l s =
     (let (r, s) = next_rc s
      in if r = 0 then (True, s\<lparr>held_w := (held_w s)(l := held_w s l + 1)\<rparr>) else (False, s))"

definition immutable_cache_lock_wlock ::
  "immutable_cache_lock_t \<Rightarrow> 'a os_scheme \<Rightarrow> bool \<times> 'a os_scheme" where
  "immutable_cache_lock_wlock l s =
     (let s = HANDLE_BLOCK_INTERRUPTIONS s;
          (ok, s) = immutable_cache_lock_wlock_impl l s
      in if ok then (True, s)
         else (False, immutable_cache_warning ''Failed to acquire write lock'' (HANDLE_UNBLOCK_INTERRUPTIONS s)))"

definition immutable_cache_lock_rlock ::
  "immutable_cache_lock_t \<Rightarrow> 'a os_scheme \<Rightarrow> bool \<times> 'a os_scheme" where
  "immutable_cache_lock_rlock l s =
     (let s = HANDLE_BLOCK_INTERRUPTIONS s;
          (ok, s) = immutable_cache_lock_rlock_impl l s
      in if ok then (True, s)
         else (False, immutable_cache_warning ''Failed to acquire read lock'' (HANDLE_UNBLOCK_INTERRUPTIONS s)))"

definition immutable_cache_lock_wunlock :: "immutable_cache_lock_t \<Rightarrow> 'a os_scheme \<Rightarrow> 'a os_scheme" where
  "immutable_cache_lock_wunlock l s = s\<lparr>held_w := (held_w s)(l := held_w s l - 1)\<rparr>"

definition immutable_cache_lock_runlock :: "immutable_cache_lock_t \<Rightarrow> 'a os_scheme \<Rightarrow> 'a os_scheme" where
  "immutable_cache_lock_runlock l s = s\<lparr>held_r := (held_r s)(l := held_r s l - 1)\<rparr>"

text \<open>The macros, which also restore the interruptions.\<close>

definition WUNLOCK :: "immutable_cache_lock_t \<Rightarrow> 'a os_scheme \<Rightarrow> 'a os_scheme" where
  "WUNLOCK l s = HANDLE_UNBLOCK_INTERRUPTIONS (immutable_cache_lock_wunlock l s)"

definition RUNLOCK :: "immutable_cache_lock_t \<Rightarrow> 'a os_scheme \<Rightarrow> 'a os_scheme" where
  "RUNLOCK l s = HANDLE_UNBLOCK_INTERRUPTIONS (immutable_cache_lock_runlock l s)"

subsection \<open>Lock attributes of the process\<close>

text \<open>\<^verbatim>\<open>immutable_cache_lock_init\<close> and \<^verbatim>\<open>immutable_cache_lock_cleanup\<close>: the flag
  \<^verbatim>\<open>immutable_cache_lock_ready\<close>, given the results of the two \<^verbatim>\<open>pthread\<close> calls.\<close>

definition immutable_cache_lock_init :: "int \<Rightarrow> int \<Rightarrow> bool \<Rightarrow> bool \<times> bool" where
  "immutable_cache_lock_init rc_init rc_pshared ready =
     (if ready then (True, ready)
      else (let ready = True
            in if rc_init \<noteq> 0 then (False, ready)
               else if rc_pshared \<noteq> 0 then (False, ready)
               else (True, ready)))"

definition immutable_cache_lock_cleanup :: "bool \<Rightarrow> bool" where
  "immutable_cache_lock_cleanup ready = (if \<not> ready then ready else False)"

subsection \<open>Laws\<close>

text \<open>Two states that agree on everything a caller of a balanced operation may rely on.\<close>

definition same_os :: "'a os_scheme \<Rightarrow> 'b os_scheme \<Rightarrow> bool" where
  "same_os s s' \<longleftrightarrow> blocked s' = blocked s \<and> held_r s' = held_r s \<and> held_w s' = held_w s \<and>
     protect_memory s' = protect_memory s \<and> entry_level s' = entry_level s \<and> writable s' = writable s \<and>
     (lock_rc s = [] \<longrightarrow> lock_rc s' = [])"

lemma same_os_refl [simp]: "same_os s s"
  by (simp add: same_os_def)

lemma same_os_trans: "same_os s t \<Longrightarrow> same_os t u \<Longrightarrow> same_os s u"
  by (simp add: same_os_def)

lemmas lock_defs =
  HANDLE_BLOCK_INTERRUPTIONS_def HANDLE_UNBLOCK_INTERRUPTIONS_def immutable_cache_warning_def next_rc_def
  immutable_cache_lock_rlock_impl_def immutable_cache_lock_wlock_impl_def immutable_cache_lock_wlock_def
  immutable_cache_lock_rlock_def immutable_cache_lock_wunlock_def immutable_cache_lock_runlock_def
  WUNLOCK_def RUNLOCK_def

text \<open>A failed acquisition leaves the process as it was, a successful one is undone by the matching
  macro; neither touches what the state is extended with.\<close>

lemma wlock_cases:
  obtains (fail) s' where "immutable_cache_lock_wlock l s = (False, s')" "same_os s s'" "os.more s' = os.more s" "lock_rc s \<noteq> []"
  | (ok) s' where "immutable_cache_lock_wlock l s = (True, s')" "blocked s' = blocked s + 1"
      "held_w s' = (held_w s)(l := held_w s l + 1)" "held_r s' = held_r s" "writable s' = writable s"
      "protect_memory s' = protect_memory s" "entry_level s' = entry_level s" "os.more s' = os.more s"
      "lock_rc s = [] \<longrightarrow> lock_rc s' = []"
  by (cases "fst (next_rc s) = 0")
    (auto simp: lock_defs same_os_def Let_def fun_eq_iff split: list.splits prod.splits if_splits)

lemma rlock_cases:
  obtains (fail) s' where "immutable_cache_lock_rlock l s = (False, s')" "same_os s s'" "os.more s' = os.more s" "lock_rc s \<noteq> []"
  | (ok) s' where "immutable_cache_lock_rlock l s = (True, s')" "blocked s' = blocked s + 1"
      "held_r s' = (held_r s)(l := held_r s l + 1)" "held_w s' = held_w s" "writable s' = writable s"
      "protect_memory s' = protect_memory s" "entry_level s' = entry_level s" "os.more s' = os.more s"
      "lock_rc s = [] \<longrightarrow> lock_rc s' = []"
  by (cases "fst (next_rc s) = 0")
    (auto simp: lock_defs same_os_def Let_def fun_eq_iff split: list.splits prod.splits if_splits)

lemma WUNLOCK_sel [simp]:
  "blocked (WUNLOCK l s) = blocked s - 1" "held_w (WUNLOCK l s) = (held_w s)(l := held_w s l - 1)"
  "held_r (WUNLOCK l s) = held_r s" "writable (WUNLOCK l s) = writable s"
  "protect_memory (WUNLOCK l s) = protect_memory s" "entry_level (WUNLOCK l s) = entry_level s"
  "os.more (WUNLOCK l s) = os.more s" "lock_rc (WUNLOCK l s) = lock_rc s"
  by (simp_all add: lock_defs)

lemma RUNLOCK_sel [simp]:
  "blocked (RUNLOCK l s) = blocked s - 1" "held_r (RUNLOCK l s) = (held_r s)(l := held_r s l - 1)"
  "held_w (RUNLOCK l s) = held_w s" "writable (RUNLOCK l s) = writable s"
  "protect_memory (RUNLOCK l s) = protect_memory s" "entry_level (RUNLOCK l s) = entry_level s"
  "os.more (RUNLOCK l s) = os.more s" "lock_rc (RUNLOCK l s) = lock_rc s"
  by (simp_all add: lock_defs)

end
