(* ===== verification/Sma_Block.thy ===== *)
theory Sma_Block
  imports Prelude
begin

text \<open>
  The block level of the shared-memory allocator, \<^verbatim>\<open>immutable_cache_sma.c\<close>: block headers,
  the free list, \<^verbatim>\<open>find_block\<close>, \<^verbatim>\<open>sma_allocate\<close>, \<^verbatim>\<open>sma_deallocate\<close> and the
  formatting of one segment in \<^verbatim>\<open>immutable_cache_sma_init\<close>.

  A segment is read as block headers: \<open>blk h off\<close> is the \<^verbatim>\<open>block_t\<close> at byte offset
  \<open>off\<close> (\<^verbatim>\<open>BLOCKAT(off)\<close>), so a pointer of the C code is its offset and \<^verbatim>\<open>NULL\<close>
  and "no next free block" are the offset \<open>0\<close>. The loops follow pointers and are
  \<open>partial_function (option)\<close>: \<open>None\<close> is a loop that never ends. A failed
  \<^verbatim>\<open>assert\<close> of \<^verbatim>\<open>sma_deallocate\<close> is \<open>None\<close> as well. The canaries of the debug build
  (\<^verbatim>\<open>IMMUTABLE_CACHE_SMA_CANARIES\<close>) are left out: they only check.

  The invariant \<open>seg_wf h bs fl\<close> relates the headers to the abstract view of a segment: the
  list \<open>bs\<close> of its blocks in address order (offset, size, free?) and the list \<open>fl\<close> of
  the free offsets in free-list order. It is split by the header fields it reads:
  \<open>tiles\<close> (sizes, and \<^verbatim>\<open>fnext = 0\<close> exactly on allocated blocks), \<open>prevs\<close>
  (\<^verbatim>\<open>prev_size\<close>), \<open>dll\<close> (the doubly linked free list). Each has its own frame lemma.
\<close>

subsection \<open>Data\<close>

record block_t =
  bsize :: size_t
  prev_size :: size_t
  fnext :: size_t
  fprev :: size_t

text \<open>A segment: the two counters of \<^verbatim>\<open>sma_header_t\<close> and the block headers behind it.\<close>

record shm_segment =
  segsize :: size_t
  avail :: size_t
  blk :: "nat \<Rightarrow> block_t"

text \<open>\<^verbatim>\<open>sma_header_t\<close> is 17 padded locks of 64 bytes and two \<open>size_t\<close>;
  \<^verbatim>\<open>block_t\<close> is four \<open>size_t\<close>.\<close>

definition IMMUTABLE_CACHE_CACHE_FINE_GRAINED_LOCK_COUNT :: nat where
  "IMMUTABLE_CACHE_CACHE_FINE_GRAINED_LOCK_COUNT = 16"

definition sizeof_sma_header_t :: size_t where
  "sizeof_sma_header_t = 64 + 64 * IMMUTABLE_CACHE_CACHE_FINE_GRAINED_LOCK_COUNT + 8 + 8"

definition sizeof_block_t :: size_t where
  "sizeof_block_t = 32"

definition MINBLOCKSIZE :: size_t where
  "MINBLOCKSIZE = size_add (ALIGNWORD 1) (ALIGNWORD sizeof_block_t)"

definition BEST_FIT_LIMIT :: nat where
  "BEST_FIT_LIMIT = 3"

text \<open>Offset of the sentinel that heads the free list.\<close>

definition FIRST :: size_t where
  "FIRST = ALIGNWORD sizeof_sma_header_t"

definition NEXT_SBLOCK :: "(nat \<Rightarrow> block_t) \<Rightarrow> nat \<Rightarrow> nat" where
  "NEXT_SBLOCK m b = b + bsize (m b)"

definition PREV_SBLOCK :: "(nat \<Rightarrow> block_t) \<Rightarrow> nat \<Rightarrow> nat" where
  "PREV_SBLOCK m b = (if prev_size (m b) \<noteq> 0 then b - prev_size (m b) else 0)"

text \<open>Assignments to the fields of the header at offset \<open>b\<close>.\<close>

definition set_size :: "nat \<Rightarrow> size_t \<Rightarrow> (nat \<Rightarrow> block_t) \<Rightarrow> nat \<Rightarrow> block_t" where
  "set_size b v m = m(b := (m b)\<lparr>bsize := v\<rparr>)"

definition set_prev_size :: "nat \<Rightarrow> size_t \<Rightarrow> (nat \<Rightarrow> block_t) \<Rightarrow> nat \<Rightarrow> block_t" where
  "set_prev_size b v m = m(b := (m b)\<lparr>prev_size := v\<rparr>)"

definition set_fnext :: "nat \<Rightarrow> size_t \<Rightarrow> (nat \<Rightarrow> block_t) \<Rightarrow> nat \<Rightarrow> block_t" where
  "set_fnext b v m = m(b := (m b)\<lparr>fnext := v\<rparr>)"

definition set_fprev :: "nat \<Rightarrow> size_t \<Rightarrow> (nat \<Rightarrow> block_t) \<Rightarrow> nat \<Rightarrow> block_t" where
  "set_fprev b v m = m(b := (m b)\<lparr>fprev := v\<rparr>)"

subsection \<open>find\_block\<close>

text \<open>The first loop: follow \<^verbatim>\<open>fnext\<close> to the first block that fits.\<close>

partial_function (option) find_first_fit ::
  "(nat \<Rightarrow> block_t) \<Rightarrow> size_t \<Rightarrow> nat \<Rightarrow> nat option option" where
  "find_first_fit m realsize prv =
     (if fnext (m prv) = 0 then Some None
      else (let cur = fnext (m prv)
            in if bsize (m cur) \<ge> realsize then Some (Some cur)
               else find_first_fit m realsize cur))"

text \<open>The second loop: look at the next \<open>n\<close> blocks for a smaller one that also fits.\<close>

fun find_better_fit :: "(nat \<Rightarrow> block_t) \<Rightarrow> size_t \<Rightarrow> nat \<Rightarrow> nat \<Rightarrow> nat \<Rightarrow> nat" where
  "find_better_fit m realsize 0 prv found = found"
| "find_better_fit m realsize (Suc n) prv found =
     (if fnext (m prv) = 0 then found
      else (let cur = fnext (m prv)
            in find_better_fit m realsize n cur
                 (if bsize (m cur) \<ge> realsize \<and> bsize (m cur) < bsize (m found) then cur else found)))"

definition find_block :: "shm_segment \<Rightarrow> size_t \<Rightarrow> nat option option" where
  "find_block header realsize =
     (case find_first_fit (blk header) realsize FIRST of
        None \<Rightarrow> None
      | Some None \<Rightarrow> Some None
      | Some (Some cur) \<Rightarrow> Some (Some (find_better_fit (blk header) realsize BEST_FIT_LIMIT cur cur)))"

subsection \<open>sma\_allocate\<close>

text \<open>The two ways to take a block off the free list: unlink it, or cut it in two.\<close>

definition unlink_block :: "nat \<Rightarrow> (nat \<Rightarrow> block_t) \<Rightarrow> nat \<Rightarrow> block_t" where
  "unlink_block cur m =
     (let prv = fprev (m cur);
          m = set_fnext prv (fnext (m cur)) m;
          m = set_fprev (fnext (m cur)) prv m
      in set_prev_size (NEXT_SBLOCK m cur) 0 m)"

definition split_block :: "nat \<Rightarrow> size_t \<Rightarrow> (nat \<Rightarrow> block_t) \<Rightarrow> nat \<Rightarrow> block_t" where
  "split_block cur realsize m =
     (let oldsize = bsize (m cur);
          m = set_size cur realsize m;
          nxt = NEXT_SBLOCK m cur;
          m = set_prev_size nxt 0 m;
          m = set_size nxt (size_sub oldsize realsize) m;
          m = set_prev_size (NEXT_SBLOCK m nxt) (bsize (m nxt)) m;
          m = set_fnext nxt (fnext (m cur)) m;
          m = set_fprev nxt (fprev (m cur)) m;
          m = set_fprev (fnext (m nxt)) nxt m
      in set_fnext (fprev (m nxt)) nxt m)"

text \<open>The result is the returned offset (\<open>SIZE_MAX\<close>: no block), the value behind
  \<^verbatim>\<open>allocated\<close> and the segment.\<close>

definition sma_allocate ::
  "shm_segment \<Rightarrow> size_t \<Rightarrow> size_t \<Rightarrow> size_t \<Rightarrow> (size_t \<times> size_t \<times> shm_segment) option" where
  "sma_allocate header n fragment allocated =
     (let block_size = ALIGNWORD sizeof_block_t;
          realsize = ALIGNWORD (size_add n block_size)
      in if avail header < realsize then Some (SIZE_MAX, allocated, header)
         else case find_block header realsize of
            None \<Rightarrow> None
          | Some None \<Rightarrow> Some (SIZE_MAX, allocated, header)
          | Some (Some cur) \<Rightarrow>
              (let m = blk header;
                   csize = bsize (m cur);
                   (m, allocated) =
                     (if csize = realsize \<or>
                         (csize > realsize \<and> csize < size_add realsize (size_add MINBLOCKSIZE fragment))
                      then (unlink_block cur m, size_sub csize block_size)
                      else (split_block cur realsize m, size_sub realsize block_size));
                   m = set_fnext cur 0 m
               in Some (size_add cur block_size, allocated,
                        header\<lparr>avail := size_sub (avail header) (bsize (m cur)), blk := m\<rparr>)))"

subsection \<open>sma\_deallocate\<close>

text \<open>Remove a free block from the free list.\<close>

definition remove_free :: "nat \<Rightarrow> (nat \<Rightarrow> block_t) \<Rightarrow> nat \<Rightarrow> block_t" where
  "remove_free b m =
     (let m = set_fprev (fnext (m b)) (fprev (m b)) m
      in set_fnext (fprev (m b)) (fnext (m b)) m)"

text \<open>Combine with a free predecessor; the result is the block that now starts the region.\<close>

definition merge_prev :: "nat \<Rightarrow> (nat \<Rightarrow> block_t) \<Rightarrow> nat \<times> (nat \<Rightarrow> block_t)" where
  "merge_prev cur m =
     (if prev_size (m cur) \<noteq> 0
      then (let prv = PREV_SBLOCK m cur;
                m = remove_free prv m
            in (prv, set_size prv (size_add (bsize (m prv)) (bsize (m cur))) m))
      else (cur, m))"

text \<open>Combine with a free successor; \<open>None\<close> is the failed assertion.\<close>

definition merge_next :: "nat \<Rightarrow> (nat \<Rightarrow> block_t) \<Rightarrow> (nat \<Rightarrow> block_t) option" where
  "merge_next cur m =
     (let nxt = NEXT_SBLOCK m cur
      in if fnext (m nxt) \<noteq> 0
         then if prev_size (m (NEXT_SBLOCK m nxt)) = bsize (m nxt)
              then (let m = remove_free nxt m
                    in Some (set_size cur (size_add (bsize (m cur)) (bsize (m nxt))) m))
              else None
         else Some m)"

text \<open>Insert a block at the head of the free list.\<close>

definition insert_free :: "nat \<Rightarrow> (nat \<Rightarrow> block_t) \<Rightarrow> nat \<Rightarrow> block_t" where
  "insert_free cur m =
     (let m = set_prev_size (NEXT_SBLOCK m cur) (bsize (m cur)) m;
          prv = FIRST;
          m = set_fnext cur (fnext (m prv)) m;
          m = set_fnext prv cur m;
          m = set_fprev cur prv m
      in set_fprev (fnext (m cur)) cur m)"

definition sma_deallocate :: "shm_segment \<Rightarrow> size_t \<Rightarrow> (size_t \<times> shm_segment) option" where
  "sma_deallocate header offset =
     (if offset \<ge> ALIGNWORD sizeof_block_t
      then (let cur = offset - ALIGNWORD sizeof_block_t;
                m = blk header;
                n = bsize (m cur);
                header = header\<lparr>avail := size_add (avail header) n\<rparr>;
                (cur, m) = merge_prev cur m
            in case merge_next cur m of
                 None \<Rightarrow> None
               | Some m \<Rightarrow> Some (n, header\<lparr>blk := insert_free cur m\<rparr>))
      else None)"

subsection \<open>Formatting a segment\<close>

definition sma_init_segment :: "size_t \<Rightarrow> (nat \<Rightarrow> block_t) \<Rightarrow> shm_segment" where
  "sma_init_segment segment_size m =
     (let block_size = ALIGNWORD sizeof_block_t;
          av = size_sub (size_sub (size_sub segment_size (ALIGNWORD sizeof_sma_header_t)) block_size) block_size;
          first = ALIGNWORD sizeof_sma_header_t;
          m = set_size first 0 m;
          m = set_fnext first (size_add (ALIGNWORD sizeof_sma_header_t) block_size) m;
          m = set_fprev first 0 m;
          m = set_prev_size first 0 m;
          empty = fnext (m first);
          m = set_size empty (size_sub av block_size) m;
          m = set_fnext empty (size_add empty (bsize (m empty))) m;
          m = set_fprev empty (ALIGNWORD sizeof_sma_header_t) m;
          m = set_prev_size empty 0 m;
          last = fnext (m empty);
          m = set_size last 0 m;
          m = set_fnext last 0 m;
          m = set_fprev last empty m;
          m = set_prev_size last (bsize (m empty)) m
      in \<lparr>segsize = segment_size, avail = av, blk = m\<rparr>)"

subsection \<open>The free blocks reported by immutable\_cache\_sma\_info\<close>

text \<open>The links (size, offset) of one segment, collected while the block after the current one
  is not the last of the list.\<close>

partial_function (option) sma_info_links ::
  "(nat \<Rightarrow> block_t) \<Rightarrow> nat \<Rightarrow> (size_t \<times> size_t) list \<Rightarrow> (size_t \<times> size_t) list option" where
  "sma_info_links m prv acc =
     (if fnext (m (fnext (m prv))) \<noteq> 0
      then sma_info_links m (fnext (m prv)) (acc @ [(bsize (m (fnext (m prv))), fnext (m prv))])
      else Some acc)"

end
