(* ===== verification/Sma_Inv.thy ===== *)
theory Sma_Inv
  imports Sma_Block
begin

text \<open>
  The invariant of a formatted segment and its preservation by the block operations of
  \<open>Sma_Block\<close>. The results are stated as a refinement: \<open>seg_wf h bs fl\<close> relates the
  headers of segment \<open>h\<close> to the block list \<open>bs\<close> and the free list \<open>fl\<close>, and each
  operation of the C code corresponds to an edit of these two lists.
\<close>

subsection \<open>Layout constants and field updates\<close>

lemma FIRST_eq [layout_simps]: "FIRST = 1104"
  by (simp add: FIRST_def sizeof_sma_header_t_def IMMUTABLE_CACHE_CACHE_FINE_GRAINED_LOCK_COUNT_def
      ALIGNWORD_exact)

lemma ALIGNWORD_block_t [layout_simps]: "ALIGNWORD sizeof_block_t = 32"
  by (simp add: sizeof_block_t_def ALIGNWORD_exact)

lemma ALIGNWORD_sma_header_t [layout_simps]: "ALIGNWORD sizeof_sma_header_t = 1104"
  using FIRST_eq by (simp add: FIRST_def)

lemma MINBLOCKSIZE_eq [layout_simps]: "MINBLOCKSIZE = 40"
  by (simp add: MINBLOCKSIZE_def ALIGNWORD_block_t size_add_def ALIGNWORD_exact)

lemma set_size_sel [simp]:
  "bsize (set_size b v m x) = (if x = b then v else bsize (m x))"
  "prev_size (set_size b v m x) = prev_size (m x)"
  "fnext (set_size b v m x) = fnext (m x)"
  "fprev (set_size b v m x) = fprev (m x)"
  by (simp_all add: set_size_def)

lemma set_prev_size_sel [simp]:
  "bsize (set_prev_size b v m x) = bsize (m x)"
  "prev_size (set_prev_size b v m x) = (if x = b then v else prev_size (m x))"
  "fnext (set_prev_size b v m x) = fnext (m x)"
  "fprev (set_prev_size b v m x) = fprev (m x)"
  by (simp_all add: set_prev_size_def)

lemma set_fnext_sel [simp]:
  "bsize (set_fnext b v m x) = bsize (m x)"
  "prev_size (set_fnext b v m x) = prev_size (m x)"
  "fnext (set_fnext b v m x) = (if x = b then v else fnext (m x))"
  "fprev (set_fnext b v m x) = fprev (m x)"
  by (simp_all add: set_fnext_def)

lemma set_fprev_sel [simp]:
  "bsize (set_fprev b v m x) = bsize (m x)"
  "prev_size (set_fprev b v m x) = prev_size (m x)"
  "fnext (set_fprev b v m x) = fnext (m x)"
  "fprev (set_fprev b v m x) = (if x = b then v else fprev (m x))"
  by (simp_all add: set_fprev_def)

lemmas field_sel = set_size_sel set_prev_size_sel set_fnext_sel set_fprev_sel

subsection \<open>The invariant\<close>

text \<open>A block of the abstract view: offset, size, free?\<close>

type_synonym ablk = "nat \<times> nat \<times> bool"

text \<open>The blocks cover the offsets from \<open>a\<close> up to \<open>e\<close> without gaps; block headers are
  aligned, and \<^verbatim>\<open>fnext\<close> is \<open>0\<close> exactly on the allocated ones.\<close>

fun tiles :: "(nat \<Rightarrow> block_t) \<Rightarrow> nat \<Rightarrow> ablk list \<Rightarrow> nat \<Rightarrow> bool" where
  "tiles m a [] e \<longleftrightarrow> a = e"
| "tiles m a ((b, s, f) # bs) e \<longleftrightarrow>
     b = a \<and> 8 dvd b \<and> 32 \<le> s \<and> bsize (m b) = s \<and> (fnext (m b) = 0) = (\<not> f) \<and> tiles m (a + s) bs e"

text \<open>\<^verbatim>\<open>prev_size\<close> of a block is the size of the block before it when that one is free and
  \<open>0\<close> otherwise; two free blocks are never neighbours. \<open>p\<close> is the value for the first
  block, \<open>e\<close> the block after the last.\<close>

fun prevs :: "(nat \<Rightarrow> block_t) \<Rightarrow> nat \<Rightarrow> ablk list \<Rightarrow> nat \<Rightarrow> bool" where
  "prevs m p [] e \<longleftrightarrow> prev_size (m e) = p"
| "prevs m p ((b, s, f) # bs) e \<longleftrightarrow>
     prev_size (m b) = p \<and> (p = 0 \<or> \<not> f) \<and> prevs m (if f then s else 0) bs e"

text \<open>The free list: a doubly linked list from \<open>p\<close> over \<open>xs\<close> to \<open>e\<close>.\<close>

fun dll :: "(nat \<Rightarrow> block_t) \<Rightarrow> nat \<Rightarrow> nat list \<Rightarrow> nat \<Rightarrow> bool" where
  "dll m p [] e \<longleftrightarrow> fnext (m p) = e \<and> fprev (m e) = p"
| "dll m p (x # xs) e \<longleftrightarrow> fnext (m p) = x \<and> fprev (m x) = p \<and> dll m x xs e"

fun free_size :: "ablk \<Rightarrow> nat" where
  "free_size (b, s, f) = (if f then s else 0)"

definition free_total :: "ablk list \<Rightarrow> nat" where
  "free_total bs = sum_list (map free_size bs)"

definition free_offsets :: "ablk list \<Rightarrow> nat set" where
  "free_offsets bs = {b. \<exists>s. (b, s, True) \<in> set bs}"

definition LAST :: "shm_segment \<Rightarrow> nat" where
  "LAST h = segsize h - 64"

text \<open>\<^verbatim>\<open>avail\<close> counts one block header more than the free blocks hold: the segment is
  formatted with three block headers but charged for two.\<close>

definition seg_wf :: "shm_segment \<Rightarrow> ablk list \<Rightarrow> nat list \<Rightarrow> bool" where
  "seg_wf h bs fl \<longleftrightarrow>
     tiles (blk h) (FIRST + 32) bs (LAST h) \<and> prevs (blk h) 0 bs (LAST h) \<and>
     dll (blk h) FIRST fl (LAST h) \<and> fnext (blk h (LAST h)) = 0 \<and> bsize (blk h (LAST h)) = 0 \<and>
     distinct fl \<and> set fl = free_offsets bs \<and>
     avail h = free_total bs + 32 \<and> 1232 \<le> segsize h \<and> segsize h < 2 ^ 63"

subsection \<open>tiles\<close>

lemma tiles_le: "tiles m a bs e \<Longrightarrow> a \<le> e"
  by (induction m a bs e rule: tiles.induct) auto

lemma tiles_append:
  "tiles m a (xs @ ys) e \<longleftrightarrow> (\<exists>c. tiles m a xs c \<and> tiles m c ys e)"
  by (induction m a xs e rule: tiles.induct) auto

lemma tiles_in:
  "tiles m a bs e \<Longrightarrow> (b, s, f) \<in> set bs \<Longrightarrow> a \<le> b \<and> b + s \<le> e \<and> 32 \<le> s \<and> 8 dvd b \<and> bsize (m b) = s"
proof (induction m a bs e rule: tiles.induct)
  case (2 m a b' s' f' bs e)
  then show ?case using tiles_le [of m "a + s'" bs e] by fastforce
qed simp

lemma tiles_split:
  "tiles m a (xs @ (b, s, f) # ys) e \<longleftrightarrow>
     tiles m a xs b \<and> 8 dvd b \<and> 32 \<le> s \<and> bsize (m b) = s \<and> (fnext (m b) = 0) = (\<not> f) \<and> tiles m (b + s) ys e"
  by (auto simp: tiles_append)

lemma tiles_frame:
  assumes "\<And>b. b \<in> fst ` set bs \<Longrightarrow>
    bsize (m' b) = bsize (m b) \<and> (fnext (m' b) = 0) = (fnext (m b) = 0)"
  shows "tiles m' a bs e = tiles m a bs e"
  using assms by (induction m a bs e rule: tiles.induct) auto

lemma tiles_frame_except:
  assumes "\<And>x. x \<notin> A \<Longrightarrow> bsize (m' x) = bsize (m x) \<and> (fnext (m' x) = 0) = (fnext (m x) = 0)"
    and "A \<inter> fst ` set bs = {}"
  shows "tiles m' a bs e = tiles m a bs e"
proof (rule tiles_frame)
  fix b assume "b \<in> fst ` set bs"
  then have "b \<notin> A" using assms(2) by blast
  then show "bsize (m' b) = bsize (m b) \<and> (fnext (m' b) = 0) = (fnext (m b) = 0)" by (rule assms(1))
qed

lemma tiles_distinct: "tiles m a bs e \<Longrightarrow> distinct (map fst bs)"
proof (induction m a bs e rule: tiles.induct)
  case (2 m a b s f bs e)
  then show ?case using tiles_in [of m "a + s" bs e] by fastforce
qed simp

lemma tiles_total_le: "tiles m a bs e \<Longrightarrow> a + free_total bs \<le> e"
  by (induction m a bs e rule: tiles.induct) (auto simp: free_total_def)

subsection \<open>prevs\<close>

definition last_free :: "nat \<Rightarrow> ablk list \<Rightarrow> nat" where
  "last_free p xs = (if xs = [] then p else free_size (last xs))"

lemma last_free_simps [simp]:
  "last_free p [] = p"
  "last_free p (x # xs) = last_free (free_size x) xs"
  "last_free p (xs @ [x]) = free_size x"
  by (simp_all add: last_free_def)

lemma prevs_split:
  "prevs m p (xs @ (b, s, f) # ys) e \<longleftrightarrow>
     prevs m p xs b \<and> (last_free p xs = 0 \<or> \<not> f) \<and> prevs m (if f then s else 0) ys e"
  by (induction m p xs e rule: prevs.induct) auto

lemma prevs_last: "prevs m p xs e \<Longrightarrow> prev_size (m e) = last_free p xs"
  by (induction m p xs e rule: prevs.induct) auto

lemma prevs_frame:
  assumes "\<And>b. b \<in> fst ` set bs \<Longrightarrow> prev_size (m' b) = prev_size (m b)"
    and "prev_size (m' e) = prev_size (m e)"
  shows "prevs m' p bs e = prevs m p bs e"
  using assms by (induction m p bs e rule: prevs.induct) auto

lemma prevs_frame_except:
  assumes "\<And>x. x \<notin> A \<Longrightarrow> prev_size (m' x) = prev_size (m x)" and "A \<inter> insert e (fst ` set bs) = {}"
  shows "prevs m' p bs e = prevs m p bs e"
  using assms by (intro prevs_frame; blast)

text \<open>Changing only the value in front of the first block, which starts at \<open>c\<close>.\<close>

lemma prevs_head:
  assumes "tiles m c ys e" "prevs m p ys e" "q = 0 \<or> ys = [] \<or> \<not> snd (snd (hd ys))"
    and "prev_size (m' c) = q"
    and "\<And>x. x \<noteq> c \<Longrightarrow> x \<in> insert e (fst ` set ys) \<Longrightarrow> prev_size (m' x) = prev_size (m x)"
  shows "prevs m' q ys e"
proof (cases ys)
  case Nil
  with assms show ?thesis by simp
next
  case (Cons y ys')
  obtain b s f where y: "y = (b, s, f)" by (cases y)
  have t: "b = c" "32 \<le> s" "tiles m (c + s) ys' e"
    using assms(1) Cons y by auto
  then have "c < e" "\<And>x. x \<in> fst ` set ys' \<Longrightarrow> c < x"
    using tiles_le [OF t(3)] tiles_in [OF t(3)] by fastforce+
  then have "prevs m' (if f then s else 0) ys' e = prevs m (if f then s else 0) ys' e"
    using Cons by (intro prevs_frame assms(5)) auto
  with assms t Cons y show ?thesis by auto
qed

subsection \<open>dll\<close>

lemma dll_frame:
  assumes "\<And>x. x \<in> set (p # xs) \<Longrightarrow> fnext (m' x) = fnext (m x)"
    and "\<And>x. x \<in> set (xs @ [e]) \<Longrightarrow> fprev (m' x) = fprev (m x)"
  shows "dll m' p xs e = dll m p xs e"
  using assms by (induction m p xs e rule: dll.induct) auto

lemma dll_split: "dll m p (xs @ x # ys) e \<longleftrightarrow> dll m p xs x \<and> dll m x ys e"
  by (induction m p xs e rule: dll.induct) auto

lemma dll_last: "dll m p xs e \<Longrightarrow> fprev (m e) = last (p # xs)"
  by (induction m p xs e rule: dll.induct) auto

lemma dll_first: "dll m p xs e \<Longrightarrow> fnext (m p) = hd (xs @ [e])"
  by (cases xs) auto

lemma dll_neighbours:
  assumes "dll m p (xs @ x # ys) e"
  shows "fprev (m x) \<in> set (p # xs)" "fnext (m x) \<in> set (ys @ [e])"
proof -
  have d: "dll m p xs x" "dll m x ys e"
    using assms by (simp_all add: dll_split)
  show "fprev (m x) \<in> set (p # xs)"
    unfolding dll_last [OF d(1)] by (rule last_in_set) simp
  show "fnext (m x) \<in> set (ys @ [e])"
    unfolding dll_first [OF d(2)] by (rule hd_in_set) simp
qed

lemma dll_fnext_nz:
  assumes "dll m p xs e" "0 \<notin> set (xs @ [e])" "x \<in> set (p # xs)"
  shows "fnext (m x) \<noteq> 0"
  using assms by (induction m p xs e rule: dll.induct) auto

text \<open>The two assignments that take \<open>x\<close> out of the list.\<close>

lemma dll_bypass:
  assumes "dll m p (xs @ x # ys) e" "distinct (p # xs @ x # ys @ [e])"
    and "\<And>z. z \<noteq> x \<Longrightarrow> fnext (m' z) = (if z = fprev (m x) then fnext (m x) else fnext (m z))"
    and "\<And>z. z \<noteq> x \<Longrightarrow> fprev (m' z) = (if z = fnext (m x) then fprev (m x) else fprev (m z))"
  shows "dll m' p (xs @ ys) e"
  using assms(1,2)
proof (induction xs arbitrary: p)
  case Nil
  then have p: "fprev (m x) = p" "fnext (m p) = x" "dll m x ys e" by auto
  show ?case
  proof (cases ys)
    case Nil
    with p assms(3,4) Nil.prems show ?thesis by simp
  next
    case (Cons y ys')
    have "dll m' y ys' e = dll m y ys' e"
      using Nil.prems p Cons by (intro dll_frame; subst assms(3,4)) auto
    with p Cons assms(3,4) Nil.prems show ?thesis by simp
  qed
next
  case (Cons a xs)
  from Cons.prems have "dll m a (xs @ x # ys) e" "distinct (a # xs @ x # ys @ [e])" by auto
  then have IH: "dll m' a (xs @ ys) e" by (rule Cons.IH)
  have "fprev (m x) = last (a # xs)" "fnext (m x) = hd (ys @ [e])"
    using Cons.prems dll_last [of m a xs x] dll_first [of m x ys e] by (auto simp: dll_split)
  moreover have "hd (ys @ [e]) \<in> set (ys @ [e])" "last (a # xs) \<in> set (a # xs)"
    by (cases ys) auto
  ultimately have "fprev (m x) \<noteq> p" "fnext (m x) \<noteq> a"
    using Cons.prems(2) by (auto split: if_splits)
  with Cons.prems IH show ?case by (simp add: assms(3,4))
qed

text \<open>The four assignments that put \<open>n\<close> in the place of \<open>x\<close>.\<close>

lemma dll_replace:
  assumes "dll m p (xs @ x # ys) e" "distinct (p # xs @ x # ys @ [e])" "n \<notin> set (p # xs @ x # ys @ [e])"
    and "\<And>z. z \<noteq> x \<Longrightarrow>
      fnext (m' z) = (if z = fprev (m x) then n else if z = n then fnext (m x) else fnext (m z))"
    and "\<And>z. z \<noteq> x \<Longrightarrow>
      fprev (m' z) = (if z = fnext (m x) then n else if z = n then fprev (m x) else fprev (m z))"
  shows "dll m' p (xs @ n # ys) e"
  using assms(1-3)
proof (induction xs arbitrary: p)
  case Nil
  then have p: "fprev (m x) = p" "fnext (m p) = x" "dll m x ys e" by auto
  show ?case
  proof (cases ys)
    case Nil
    with p assms(4,5) Nil.prems show ?thesis by simp
  next
    case (Cons y ys')
    have "dll m' y ys' e = dll m y ys' e"
      using Nil.prems p Cons by (intro dll_frame; subst assms(4,5)) auto
    with p Cons Nil.prems show ?thesis by (auto simp: assms(4,5) eq_commute [of x])
  qed
next
  case (Cons a xs)
  from Cons.prems have "dll m a (xs @ x # ys) e" "distinct (a # xs @ x # ys @ [e])"
    "n \<notin> set (a # xs @ x # ys @ [e])" by auto
  then have IH: "dll m' a (xs @ n # ys) e" by (rule Cons.IH)
  have "fprev (m x) = last (a # xs)" "fnext (m x) = hd (ys @ [e])"
    using Cons.prems dll_last [of m a xs x] dll_first [of m x ys e] by (auto simp: dll_split)
  moreover have "hd (ys @ [e]) \<in> set (ys @ [e])" "last (a # xs) \<in> set (a # xs)"
    by (cases ys) auto
  ultimately have "fprev (m x) \<noteq> p" "fnext (m x) \<noteq> a"
    using Cons.prems(2) by (auto split: if_splits)
  with Cons.prems IH show ?case by (auto simp: assms(4,5))
qed

subsection \<open>Consequences of the invariant\<close>

lemma seg_wf_bounds:
  assumes "seg_wf h bs fl" "(b, s, f) \<in> set bs"
  shows "1136 \<le> b" "b + s \<le> LAST h" "32 \<le> s" "8 dvd b" "bsize (blk h b) = s" "(fnext (blk h b) = 0) = (\<not> f)"
proof -
  have "tiles (blk h) (FIRST + 32) bs (LAST h)"
    using assms by (simp add: seg_wf_def)
  moreover obtain xs ys where "bs = xs @ (b, s, f) # ys"
    using assms(2) by (auto dest: split_list)
  ultimately show "1136 \<le> b" "b + s \<le> LAST h" "32 \<le> s" "8 dvd b" "bsize (blk h b) = s"
    "(fnext (blk h b) = 0) = (\<not> f)"
    using tiles_le [of "blk h" _ xs b] tiles_le [of "blk h" "b + s" ys "LAST h"]
    by (auto simp: tiles_split layout_simps)
qed

lemma seg_wf_LAST:
  assumes "seg_wf h bs fl"
  shows "1168 \<le> LAST h" "LAST h + 64 = segsize h" "segsize h < 9223372036854775808"
  using assms by (auto simp: seg_wf_def LAST_def)

lemma seg_wf_fl:
  assumes "seg_wf h bs fl"
  shows "b \<in> set fl \<longleftrightarrow> (b, bsize (blk h b), True) \<in> set bs"
  using assms seg_wf_bounds [OF assms] by (auto simp: seg_wf_def free_offsets_def)

lemma seg_wf_fl_bounds:
  assumes "seg_wf h bs fl" "b \<in> set fl"
  shows "1136 \<le> b" "b < LAST h" "fnext (blk h b) \<noteq> 0"
proof -
  have "(b, bsize (blk h b), True) \<in> set bs"
    using assms seg_wf_fl by simp
  from seg_wf_bounds [OF assms(1) this] show "1136 \<le> b" "b < LAST h" "fnext (blk h b) \<noteq> 0" by auto
qed

lemma seg_wf_distinct:
  assumes "seg_wf h bs fl"
  shows "distinct (FIRST # fl @ [LAST h])"
proof -
  have "FIRST \<notin> set fl" "LAST h \<notin> set fl"
    using seg_wf_fl_bounds [OF assms, of FIRST] seg_wf_fl_bounds [OF assms, of "LAST h"]
    by (auto simp: layout_simps)
  moreover have "distinct fl" "FIRST \<noteq> LAST h"
    using assms seg_wf_LAST [OF assms] by (auto simp: seg_wf_def layout_simps)
  ultimately show ?thesis by simp
qed

lemma seg_wf_fnext_nz:
  assumes "seg_wf h bs fl" "b \<in> insert FIRST (set fl)"
  shows "fnext (blk h b) \<noteq> 0"
proof (cases "b \<in> set fl")
  case True
  then show ?thesis by (rule seg_wf_fl_bounds(3) [OF assms(1)])
next
  case False
  have "fnext (blk h FIRST) = hd (fl @ [LAST h])"
    using assms(1) by (auto simp: seg_wf_def dest: dll_first)
  moreover have "hd (fl @ [LAST h]) \<in> insert (LAST h) (set fl)"
    by (cases fl) auto
  moreover have "0 < x" if "x \<in> insert (LAST h) (set fl)" for x
    using that seg_wf_fl_bounds(1) [OF assms(1), of x] seg_wf_LAST [OF assms(1)] by auto
  ultimately show ?thesis
    using False assms(2) by auto
qed

text \<open>The neighbours of a free block in the free list.\<close>

lemma seg_wf_links:
  assumes "seg_wf h bs fl" "b \<in> set fl"
  shows "fprev (blk h b) \<in> insert FIRST (set fl) - {b}"
    and "fnext (blk h b) \<in> insert (LAST h) (set fl) - {b}"
    and "fprev (blk h b) \<noteq> fnext (blk h b)"
proof -
  from assms(2) obtain f1 f2 where fl: "fl = f1 @ b # f2" by (auto dest: split_list)
  have "dll (blk h) FIRST f1 b" "dll (blk h) b f2 (LAST h)"
    using assms(1) by (auto simp: seg_wf_def fl dll_split)
  then have "fprev (blk h b) = last (FIRST # f1)" "fnext (blk h b) = hd (f2 @ [LAST h])"
    using dll_last dll_first by blast+
  moreover have "hd (f2 @ [LAST h]) \<in> set (f2 @ [LAST h])" by (cases f2) auto
  moreover have "last (FIRST # f1) \<in> set (FIRST # f1)" by (rule last_in_set) simp
  ultimately have "fprev (blk h b) \<in> set (FIRST # f1)" "fnext (blk h b) \<in> set (f2 @ [LAST h])"
    by simp_all
  moreover have "distinct ((FIRST # f1) @ b # (f2 @ [LAST h]))"
    using seg_wf_distinct [OF assms(1)] by (simp add: fl)
  ultimately show "fprev (blk h b) \<in> insert FIRST (set fl) - {b}"
    "fnext (blk h b) \<in> insert (LAST h) (set fl) - {b}" "fprev (blk h b) \<noteq> fnext (blk h b)"
    by (auto simp: fl)
qed

subsection \<open>find\_block\<close>

lemma find_first_fit_dll:
  assumes "dll m p xs e" "0 < r" "fnext (m e) = 0" "bsize (m e) = 0" "0 \<notin> set (xs @ [e])"
  shows "find_first_fit m r p = Some (List.find (\<lambda>x. r \<le> bsize (m x)) xs)"
  using assms(1,5)
proof (induction xs arbitrary: p)
  case Nil
  then have p: "fnext (m p) = e" by auto
  have e: "find_first_fit m r e = Some None"
    using assms(3) by (subst find_first_fit.simps) simp
  show ?case
    using p e assms(2,4) Nil.prems by (subst find_first_fit.simps) simp
next
  case (Cons x xs)
  then have IH: "find_first_fit m r x = Some (List.find (\<lambda>x. r \<le> bsize (m x)) xs)" by simp
  show ?case
    using Cons.prems IH by (subst find_first_fit.simps) simp
qed

lemma find_better_fit_dll:
  assumes "dll m p xs e" "0 < r" "fnext (m e) = 0" "bsize (m e) = 0" "0 \<notin> set (xs @ [e])"
    and "r \<le> bsize (m found)" "res = find_better_fit m r n p found"
  shows "res \<in> insert found (set (take n xs))" and "r \<le> bsize (m res)" and "bsize (m res) \<le> bsize (m found)"
    and "\<forall>y \<in> set (take n xs). r \<le> bsize (m y) \<longrightarrow> bsize (m res) \<le> bsize (m y)"
proof -
  have "res \<in> insert found (set (take n xs)) \<and> r \<le> bsize (m res) \<and> bsize (m res) \<le> bsize (m found) \<and>
    (\<forall>y \<in> set (take n xs). r \<le> bsize (m y) \<longrightarrow> bsize (m res) \<le> bsize (m y))"
    using assms(1,5-7)
  proof (induction n arbitrary: p xs found)
    case (Suc n)
    show ?case
    proof (cases xs)
      case Nil
      have "find_better_fit m r n e found = found"
        using assms(3) by (cases n) simp_all
      with Nil Suc.prems assms(2,4) show ?thesis by simp
    next
      case (Cons x xs')
      let ?f = "if r \<le> bsize (m x) \<and> bsize (m x) < bsize (m found) then x else found"
      have "res \<in> insert ?f (set (take n xs')) \<and> r \<le> bsize (m res) \<and> bsize (m res) \<le> bsize (m ?f) \<and>
        (\<forall>y \<in> set (take n xs'). r \<le> bsize (m y) \<longrightarrow> bsize (m res) \<le> bsize (m y))"
        using Suc.prems Cons by (intro Suc.IH [of x]) auto
      with Cons show ?thesis by (auto split: if_splits)
    qed
  qed simp
  then show "res \<in> insert found (set (take n xs))" "r \<le> bsize (m res)" "bsize (m res) \<le> bsize (m found)"
    "\<forall>y \<in> set (take n xs). r \<le> bsize (m y) \<longrightarrow> bsize (m res) \<le> bsize (m y)" by auto
qed

end
