(* ===== verification/Sma_Alloc.thy ===== *)
theory Sma_Alloc
  imports Sma_Inv
begin

text \<open>
  Correctness of \<open>sma_allocate\<close> and of the formatting of a segment with respect to the
  invariant of \<open>Sma_Inv\<close>: which block is chosen, what the block list and the free list
  become, and when no block is returned.
\<close>

subsection \<open>Taking a whole block\<close>

lemma unlink_block_sel:
  assumes "fprev (m b) \<noteq> b"
  shows "bsize (set_fnext b 0 (unlink_block b m) x) = bsize (m x)"
    and "prev_size (set_fnext b 0 (unlink_block b m) x) = (if x = b + bsize (m b) then 0 else prev_size (m x))"
    and "fnext (set_fnext b 0 (unlink_block b m) x) =
      (if x = b then 0 else if x = fprev (m b) then fnext (m b) else fnext (m x))"
    and "fprev (set_fnext b 0 (unlink_block b m) x) = (if x = fnext (m b) then fprev (m b) else fprev (m x))"
  using assms by (simp_all add: unlink_block_def NEXT_SBLOCK_def Let_def)

lemma free_total_Nil [simp]: "free_total [] = 0"
  by (simp add: free_total_def)

lemma free_total_append [simp]: "free_total (xs @ ys) = free_total xs + free_total ys"
  by (simp add: free_total_def)

lemma free_total_Cons [simp]: "free_total ((b, s, f) # ys) = (if f then s else 0) + free_total ys"
  by (simp add: free_total_def)

lemma free_offsets_simps [simp]:
  "free_offsets [] = {}"
  "free_offsets (xs @ ys) = free_offsets xs \<union> free_offsets ys"
  "free_offsets ((b, s, f) # ys) = (if f then insert b (free_offsets ys) else free_offsets ys)"
  by (auto simp: free_offsets_def)

lemma free_offsets_subset: "free_offsets bs \<subseteq> fst ` set bs"
  by (force simp: free_offsets_def)

text \<open>Facts about the three parts around a block that the preservation proofs share.\<close>

lemma seg_wf_around:
  assumes "seg_wf h (xs @ (b, s, f) # ys) fl"
  shows "tiles (blk h) 1136 xs b" "tiles (blk h) (b + s) ys (LAST h)"
    and "prevs (blk h) 0 xs b" "prevs (blk h) (if f then s else 0) ys (LAST h)" "last_free 0 xs = 0 \<or> \<not> f"
    and "\<And>x. x \<in> fst ` set xs \<Longrightarrow> x < b" "\<And>x. x \<in> fst ` set ys \<Longrightarrow> b + s \<le> x \<and> x < LAST h"
    and "b \<notin> free_offsets xs" "b \<notin> free_offsets ys"
proof -
  let ?m = "blk h"
  have t: "tiles ?m 1136 xs b" "tiles ?m (b + s) ys (LAST h)" "32 \<le> s"
    using assms by (auto simp: seg_wf_def tiles_split layout_simps)
  then show "tiles ?m 1136 xs b" "tiles ?m (b + s) ys (LAST h)" by auto
  show "prevs ?m 0 xs b" "prevs ?m (if f then s else 0) ys (LAST h)" "last_free 0 xs = 0 \<or> \<not> f"
    using assms by (auto simp: seg_wf_def prevs_split)
  show lo: "x < b" if "x \<in> fst ` set xs" for x
    using that tiles_in [OF t(1)] by fastforce
  show hi: "b + s \<le> x \<and> x < LAST h" if "x \<in> fst ` set ys" for x
    using that tiles_in [OF t(2)] by fastforce
  show "b \<notin> free_offsets xs" "b \<notin> free_offsets ys"
    using lo [of b] hi [of b] t(3) free_offsets_subset by fastforce+
qed

text \<open>The operations replace \<^verbatim>\<open>avail\<close> and the headers and leave the size of the segment.\<close>

lemma LAST_upd [simp]: "LAST (h\<lparr>avail := av, blk := m\<rparr>) = LAST h"
  by (simp add: LAST_def)

lemma seg_wf_updI:
  assumes "seg_wf h bs' fl'" "tiles m 1136 bs (LAST h)" "prevs m 0 bs (LAST h)" "dll m FIRST fl (LAST h)"
    and "fnext (m (LAST h)) = 0" "bsize (m (LAST h)) = 0"
    and "distinct fl" "set fl = free_offsets bs" "av = free_total bs + 32"
  shows "seg_wf (h\<lparr>avail := av, blk := m\<rparr>) bs fl"
  using assms by (simp add: seg_wf_def layout_simps)

lemma seg_wf_unlink:
  assumes wf: "seg_wf h (xs @ (b, s, True) # ys) fl"
    and m': "m' = set_fnext b 0 (unlink_block b (blk h))" and av: "av = avail h - s"
  shows "seg_wf (h\<lparr>avail := av, blk := m'\<rparr>) (xs @ (b, s, False) # ys) (remove1 b fl)"
proof -
  let ?m = "blk h" and ?L = "LAST h"
  note around = seg_wf_around [OF wf]
  have b: "b \<in> set fl"
    using wf by (simp add: seg_wf_def)
  note links = seg_wf_links [OF wf b]
  have bs: "bsize (?m b) = s" "32 \<le> s" "8 dvd b" "fnext (?m b) \<noteq> 0" "b + s \<le> ?L"
    using seg_wf_bounds [OF wf, of b s True] by auto
  note sel = unlink_block_sel [of ?m b, folded m', unfolded bs(1)]
  have sel': "bsize (m' x) = bsize (?m x)" "prev_size (m' x) = (if x = b + s then 0 else prev_size (?m x))"
    "fnext (m' x) = (if x = b then 0 else if x = fprev (?m b) then fnext (?m b) else fnext (?m x))"
    "fprev (m' x) = (if x = fnext (?m b) then fprev (?m b) else fprev (?m x))" for x
    using sel links(1) by auto
  have fn: "x \<noteq> b \<Longrightarrow> (fnext (m' x) = 0) = (fnext (?m x) = 0)" for x
    using links(1) seg_wf_fnext_nz [OF wf, of "fprev (?m b)"] bs(4) by (auto simp: sel')
  have off: "{b, b + s} \<inter> fst ` set xs = {}" "{b} \<inter> fst ` set ys = {}" "b \<noteq> b + s"
    using around(6) [of b] around(6) [of "b + s"] around(7) [of b] bs(2) by auto
  have fr: "x \<notin> {b} \<Longrightarrow> bsize (m' x) = bsize (?m x) \<and> (fnext (m' x) = 0) = (fnext (?m x) = 0)" for x
    using fn sel'(1) by simp
  have "tiles m' 1136 xs b" "tiles m' (b + s) ys ?L"
    using around(1,2) off tiles_frame_except [of "{b}" m' ?m, OF fr] by auto
  then have T: "tiles m' 1136 (xs @ (b, s, False) # ys) ?L"
    using bs by (simp add: tiles_split sel')
  have "prevs m' 0 xs b"
    using around(3) off prevs_frame_except [of "{b + s}" m' ?m b xs 0] by (auto simp: sel'(2))
  moreover have "prevs m' 0 ys ?L"
    by (rule prevs_head [of ?m "b + s" ys ?L s]) (use around(2,4) in \<open>simp_all add: sel'(2)\<close>)
  ultimately have P: "prevs m' 0 (xs @ (b, s, False) # ys) ?L"
    by (simp add: prevs_split)
  obtain f1 f2 where fl: "fl = f1 @ b # f2" "b \<notin> set f1"
    using b by (metis split_list_first)
  have D: "dll m' FIRST (f1 @ f2) ?L"
    using wf seg_wf_distinct [OF wf] by (intro dll_bypass [of ?m FIRST f1 b f2 ?L]) (auto simp: seg_wf_def fl sel')
  have fl': "remove1 b fl = f1 @ f2"
    using fl by (simp add: remove1_append)
  have S: "set (f1 @ f2) = free_offsets (xs @ (b, s, False) # ys)"
    using wf around(8,9) fl by (auto simp: seg_wf_def)
  have "fnext (m' ?L) = 0" "bsize (m' ?L) = 0" "distinct (f1 @ f2)"
    using wf links(1) seg_wf_distinct [OF wf] by (auto simp: sel' seg_wf_def fl)
  moreover have "av = free_total (xs @ (b, s, False) # ys) + 32"
    using wf by (simp add: seg_wf_def av)
  ultimately show ?thesis
    unfolding fl' using T P D S by (intro seg_wf_updI [OF wf]) auto
qed

subsection \<open>Cutting a block in two\<close>

lemma split_block_sel:
  assumes "bsize (m b) = s" "0 < r" "r < s" "s < 2 ^ 63" "fprev (m b) \<notin> {b, b + r}" "fnext (m b) \<noteq> b + r"
  shows "bsize (set_fnext b 0 (split_block b r m) x) =
      (if x = b then r else if x = b + r then s - r else bsize (m x))"
    and "prev_size (set_fnext b 0 (split_block b r m) x) =
      (if x = b + s then s - r else if x = b + r then 0 else prev_size (m x))"
    and "fnext (set_fnext b 0 (split_block b r m) x) =
      (if x = b then 0 else if x = fprev (m b) then b + r else if x = b + r then fnext (m b) else fnext (m x))"
    and "fprev (set_fnext b 0 (split_block b r m) x) =
      (if x = fnext (m b) then b + r else if x = b + r then fprev (m b) else fprev (m x))"
proof -
  have "size_sub s r = s - r"
    using assms by (intro size_sub_exact) auto
  then show "bsize (set_fnext b 0 (split_block b r m) x) =
      (if x = b then r else if x = b + r then s - r else bsize (m x))"
    "prev_size (set_fnext b 0 (split_block b r m) x) =
      (if x = b + s then s - r else if x = b + r then 0 else prev_size (m x))"
    "fnext (set_fnext b 0 (split_block b r m) x) =
      (if x = b then 0 else if x = fprev (m b) then b + r else if x = b + r then fnext (m b) else fnext (m x))"
    "fprev (set_fnext b 0 (split_block b r m) x) =
      (if x = fnext (m b) then b + r else if x = b + r then fprev (m b) else fprev (m x))"
    using assms by (simp_all add: split_block_def NEXT_SBLOCK_def Let_def)
qed

lemma seg_wf_split:
  assumes wf: "seg_wf h (xs @ (b, s, True) # ys) fl"
    and r: "32 \<le> r" "8 dvd r" "r + 32 \<le> s"
    and m': "m' = set_fnext b 0 (split_block b r (blk h))" and av: "av = avail h - r"
  shows "seg_wf (h\<lparr>avail := av, blk := m'\<rparr>) (xs @ (b, r, False) # (b + r, s - r, True) # ys)
    (map (\<lambda>x. if x = b then b + r else x) fl)"
proof -
  let ?m = "blk h" and ?L = "LAST h" and ?n = "b + r"
  note around = seg_wf_around [OF wf]
  have b: "b \<in> set fl"
    using wf by (simp add: seg_wf_def)
  note links = seg_wf_links [OF wf b]
  have bs: "bsize (?m b) = s" "8 dvd b" "fnext (?m b) \<noteq> 0" "b + s \<le> ?L" "1136 \<le> b" "s < 2 ^ 63"
    using seg_wf_bounds [OF wf, of b s True] seg_wf_LAST [OF wf] by auto
  have off: "{b, ?n, b + s} \<inter> fst ` set xs = {}" "{b, ?n} \<inter> fst ` set ys = {}"
    using around(6) [of b] around(6) [of ?n] around(6) [of "b + s"] around(7) [of b] around(7) [of ?n] r by (simp_all, blast+)
  have nfl: "?n \<notin> insert FIRST (insert ?L (set fl))"
  proof -
    have "?n \<noteq> FIRST" "?n \<noteq> ?L"
      using bs r by (auto simp: layout_simps)
    moreover have "?n \<notin> set fl"
      using wf free_offsets_subset [of xs] free_offsets_subset [of ys] off r by (auto simp: seg_wf_def)
    ultimately show ?thesis by simp
  qed
  have np: "fprev (?m b) \<notin> {b, ?n}" "fnext (?m b) \<noteq> ?n"
    using links nfl by auto
  have "0 < r" "r < s" using r by auto
  note sel = split_block_sel [of ?m b s r, OF bs(1) this bs(6) np, folded m']
  have fr: "x \<notin> {b, ?n} \<Longrightarrow> bsize (m' x) = bsize (?m x) \<and> (fnext (m' x) = 0) = (fnext (?m x) = 0)" for x
    using links(1) seg_wf_fnext_nz [OF wf, of "fprev (?m b)"] bs(5) by (auto simp: sel)
  have "tiles m' 1136 xs b" "tiles m' (b + s) ys ?L"
    using around(1,2) off tiles_frame_except [of "{b, ?n}" m' ?m, OF fr] by auto
  then have T: "tiles m' 1136 (xs @ (b, r, False) # (?n, s - r, True) # ys) ?L"
    using bs r np by (simp add: tiles_split sel)
  have "prevs m' 0 xs b"
    using around(3) off r prevs_frame_except [of "{?n, b + s}" m' ?m b xs 0] by (auto simp: sel(2))
  moreover have "prevs m' (s - r) ys ?L"
  proof (rule prevs_head [of ?m "b + s" ys ?L s])
    show "s - r = 0 \<or> ys = [] \<or> \<not> snd (snd (hd ys))"
      using around(4) r by (cases ys) auto
    show "prev_size (m' x) = prev_size (?m x)" if "x \<noteq> b + s" "x \<in> insert ?L (fst ` set ys)" for x
      using that off(2) nfl by (auto simp: sel(2))
  qed (use around(2,4) in \<open>simp_all add: sel(2)\<close>)
  ultimately have P: "prevs m' 0 (xs @ (b, r, False) # (?n, s - r, True) # ys) ?L"
    using r by (simp add: prevs_split sel(2))
  obtain f1 f2 where fl: "fl = f1 @ b # f2"
    using b by (auto dest: split_list)
  have D: "dll m' FIRST (f1 @ ?n # f2) ?L"
  proof (rule dll_replace [of ?m FIRST f1 b f2 ?L])
    show "dll ?m FIRST (f1 @ b # f2) ?L" using wf by (simp add: seg_wf_def fl)
    show "distinct (FIRST # f1 @ b # f2 @ [?L])" using seg_wf_distinct [OF wf] by (simp add: fl)
    show "?n \<notin> set (FIRST # f1 @ b # f2 @ [?L])" using nfl r by (simp add: fl)
  qed (simp_all add: sel(3,4))
  have fl': "map (\<lambda>x. if x = b then ?n else x) fl = f1 @ ?n # f2"
    using seg_wf_distinct [OF wf] by (simp add: fl)
  have S: "set (f1 @ ?n # f2) = free_offsets (xs @ (b, r, False) # (?n, s - r, True) # ys)"
    using wf around(8,9) seg_wf_distinct [OF wf] by (auto simp: seg_wf_def fl)
  have "?L \<noteq> b" "?L \<noteq> ?n"
    using bs(4) r by linarith+
  moreover have "?L \<noteq> fprev (?m b)"
    using links(1) seg_wf_distinct [OF wf] by auto
  moreover have "fnext (?m ?L) = 0" "bsize (?m ?L) = 0"
    using wf by (simp_all add: seg_wf_def)
  ultimately have "fnext (m' ?L) = 0" "bsize (m' ?L) = 0"
    by (simp_all add: sel)
  moreover have "distinct (f1 @ ?n # f2)"
    using nfl seg_wf_distinct [OF wf] by (simp add: fl)
  moreover have "av = free_total (xs @ (b, r, False) # (?n, s - r, True) # ys) + 32"
    using wf r by (simp add: seg_wf_def av)
  ultimately show ?thesis
    unfolding fl' using T P D S by (intro seg_wf_updI [OF wf])
qed

subsection \<open>Choosing a block\<close>

lemma find_block_None:
  assumes "seg_wf h bs fl" "0 < r" "\<forall>b \<in> set fl. bsize (blk h b) < r"
  shows "find_block h r = Some None"
proof -
  have "List.find (\<lambda>x. r \<le> bsize (blk h x)) fl = None"
    using assms(3) by (auto simp: find_None_iff not_le)
  moreover have "0 \<notin> set (fl @ [LAST h])"
    using seg_wf_fl_bounds(1) [OF assms(1), of 0] seg_wf_LAST [OF assms(1)] by auto
  ultimately show ?thesis
    using assms find_first_fit_dll [of "blk h" FIRST fl "LAST h" r] by (simp add: find_block_def seg_wf_def)
qed

text \<open>With a block that fits, the result is a smallest one among the first block that fits and
  the \<open>BEST_FIT_LIMIT\<close> blocks behind it.\<close>

lemma find_block_Some:
  assumes wf: "seg_wf h bs fl" and "0 < r" and ex: "\<exists>b \<in> set fl. r \<le> bsize (blk h b)"
  shows "\<exists>b. find_block h r = Some (Some b) \<and> b \<in> set fl \<and> r \<le> bsize (blk h b) \<and>
    (\<forall>y \<in> set (take (Suc BEST_FIT_LIMIT) (dropWhile (\<lambda>x. bsize (blk h x) < r) fl)).
       r \<le> bsize (blk h y) \<longrightarrow> bsize (blk h b) \<le> bsize (blk h y))"
proof -
  let ?m = "blk h" and ?P = "\<lambda>x. r \<le> bsize (blk h x)"
  have nz: "0 \<notin> set (fl @ [LAST h])"
    using seg_wf_fl_bounds(1) [OF wf, of 0] seg_wf_LAST [OF wf] by auto
  have dl: "dll ?m FIRST fl (LAST h)" "fnext (?m (LAST h)) = 0" "bsize (?m (LAST h)) = 0"
    using wf by (simp_all add: seg_wf_def)
  obtain f1 x f2 where fl: "fl = f1 @ x # f2" and x: "?P x" "\<forall>y \<in> set f1. \<not> ?P y"
    using split_list_first_prop [OF ex] by auto
  have "List.find ?P fl = Some x"
    unfolding fl using x by (intro find_append_first) auto
  then have ff: "find_first_fit ?m r FIRST = Some (Some x)"
    using find_first_fit_dll [OF dl(1) assms(2) dl(2,3) nz] by simp
  have "dll ?m x f2 (LAST h)" "0 \<notin> set (f2 @ [LAST h])"
    using dl(1) nz by (auto simp: fl dll_split)
  note bf = find_better_fit_dll [OF this(1) assms(2) dl(2,3) this(2) x(1) refl, of BEST_FIT_LIMIT]
  have "dropWhile (\<lambda>x. bsize (?m x) < r) fl = x # f2"
    using x by (auto simp: fl not_le dropWhile_append3 dropWhile_append2)
  with bf show ?thesis
    by (auto simp: find_block_def ff fl dest: in_set_takeD)
qed

subsection \<open>sma\_allocate\<close>

text \<open>The abstract effect of an allocation of \<open>r\<close> bytes (header included) on the chosen free
  block: it is taken whole when less than \<open>2 * MINBLOCKSIZE\<close> bytes would be left over.\<close>

definition carve :: "nat \<Rightarrow> nat \<Rightarrow> nat \<Rightarrow> ablk list" where
  "carve r b s = (if s < r + 80 then [(b, s, False)] else [(b, r, False), (b + r, s - r, True)])"

lemma free_le_avail: "seg_wf h bs fl \<Longrightarrow> (b, s, True) \<in> set bs \<Longrightarrow> s + 32 \<le> avail h"
  by (auto simp: seg_wf_def dest!: split_list)

lemma sma_allocate_fails:
  assumes "seg_wf h bs fl" "r = ALIGNWORD (size_add n 32)" "0 < r"
    and "\<forall>(b, s, f) \<in> set bs. f \<longrightarrow> s < r"
  shows "sma_allocate h n MINBLOCKSIZE a = Some (SIZE_MAX, a, h)"
proof -
  have "bsize (blk h b) < r" if "b \<in> set fl" for b
  proof -
    have "(b, bsize (blk h b), True) \<in> set bs"
      using that seg_wf_fl [OF assms(1)] by simp
    with assms(4) show ?thesis by auto
  qed
  then have "\<forall>b \<in> set fl. bsize (blk h b) < r" by blast
  then have "find_block h r = Some None"
    by (rule find_block_None [OF assms(1,3)])
  then show ?thesis
    using assms(2) by (simp add: sma_allocate_def layout_simps Let_def)
qed

lemma sma_allocate_succeeds:
  assumes wf: "seg_wf h bs fl" and n: "n < 2 ^ 64 - 40" and r: "r = ALIGNWORD (n + 32)"
    and ex: "(b0, s0, True) \<in> set bs" "r \<le> s0"
  shows "\<exists>xs b s ys h' fl'. bs = xs @ (b, s, True) # ys \<and> r \<le> s \<and>
    sma_allocate h n MINBLOCKSIZE a = Some (b + 32, (if s < r + 80 then s else r) - 32, h') \<and>
    seg_wf h' (xs @ carve r b s @ ys) fl' \<and> segsize h' = segsize h"
proof -
  have al: "r = ALIGNWORD (size_add n 32)" "n + 32 \<le> r" "8 dvd r"
    using n r ALIGNWORD_bounds [of "n + 32"] by (simp_all add: size_t_simps)
  have b0: "bsize (blk h b0) = s0"
    using seg_wf_bounds [OF wf ex(1)] by simp
  then have "\<exists>b \<in> set fl. r \<le> bsize (blk h b)"
    using seg_wf_fl [OF wf, of b0] ex by blast
  then obtain b where fb: "find_block h r = Some (Some b)" and b: "b \<in> set fl" "r \<le> bsize (blk h b)"
    using find_block_Some [OF wf, of r] al by auto
  define s where "s = bsize (blk h b)"
  obtain xs ys where bs: "bs = xs @ (b, s, True) # ys"
    using b(1) seg_wf_fl [OF wf] by (auto simp: s_def dest: split_list)
  have bd: "b + s \<le> LAST h" "LAST h < 2 ^ 63" "s + 32 \<le> avail h" "avail h < 2 ^ 64"
  proof -
    show "b + s \<le> LAST h" "LAST h < 2 ^ 63"
      using seg_wf_bounds [OF wf, of b s True] seg_wf_LAST [OF wf] by (auto simp: bs)
    show "s + 32 \<le> avail h"
      using free_le_avail [OF wf, of b s] by (simp add: bs)
    have "1136 + free_total bs \<le> LAST h"
      using wf by (auto simp: seg_wf_def layout_simps dest: tiles_total_le)
    then show "avail h < 2 ^ 64"
      using wf seg_wf_LAST [OF wf] by (simp add: seg_wf_def)
  qed
  have rs: "r \<le> s" "32 \<le> r"
    using b(2) al by (auto simp: s_def)
  have arith: "size_add b 32 = b + 32" "size_add r (size_add 40 40) = r + 80"
    "size_sub s 32 = s - 32" "size_sub r 32 = r - 32" "size_sub (avail h) s = avail h - s"
    "size_sub (avail h) r = avail h - r"
    using bd rs by (simp_all add: size_t_simps)
  note wf' = wf [unfolded bs]
  have bf: "(s = r \<or> r < s \<and> s < r + 80) = (s < r + 80)"
    using rs by auto
  have "fprev (blk h b) \<noteq> b"
    using seg_wf_links(1) [OF wf b(1)] by simp
  note un = unlink_block_sel(1) [of "blk h" b, OF this]
  have sp: "bsize (set_fnext b 0 (split_block b r (blk h)) b) = r"
    using rs by (simp add: split_block_def NEXT_SBLOCK_def Let_def)
  have eq: "sma_allocate h n MINBLOCKSIZE a =
     (if s < r + 80
      then Some (b + 32, s - 32,
             h\<lparr>avail := avail h - s, blk := set_fnext b 0 (unlink_block b (blk h))\<rparr>)
      else Some (b + 32, r - 32,
             h\<lparr>avail := avail h - r, blk := set_fnext b 0 (split_block b r (blk h))\<rparr>))"
  proof -
    have "\<not> avail h < r" using bd rs by simp
    then show ?thesis
      using fb arith un sp bf
      by (simp add: sma_allocate_def layout_simps Let_def al(1) [symmetric] s_def [symmetric] bf)
  qed
  show ?thesis
  proof (cases "s < r + 80")
    case True
    with eq seg_wf_unlink [OF wf' refl refl] b(2) show ?thesis
      by (intro exI [of _ xs] exI [of _ b] exI [of _ s] exI [of _ ys]) (auto simp: bs carve_def s_def)
  next
    case False
    have "32 \<le> r" "r + 32 \<le> s" using al False by auto
    with False eq seg_wf_split [OF wf' _ al(3) _ refl refl] show ?thesis
      by (intro exI [of _ xs] exI [of _ b] exI [of _ s] exI [of _ ys]) (auto simp: bs carve_def)
  qed
qed

subsection \<open>A formatted segment\<close>

lemma sma_init_segment_wf:
  assumes "1232 \<le> n" "n < 2 ^ 63"
  shows "seg_wf (sma_init_segment n m) [(1136, n - 1200, True)] [1136]"
proof -
  have a1: "size_sub n 1104 = n - 1104" using assms by (simp add: size_t_simps)
  have a2: "size_sub (n - 1104) 32 = n - 1136" using assms by (simp add: size_t_simps)
  have a3: "size_sub (n - 1136) 32 = n - 1168" using assms by (simp add: size_t_simps)
  have a4: "size_sub (n - 1168) 32 = n - 1200" using assms by (simp add: size_t_simps)
  have a5: "size_add 1104 32 = 1136" by (simp add: size_add_def)
  have a6: "size_add 1136 (n - 1200) = n - 64" using assms by (simp add: size_t_simps)
  have ne: "n - 64 \<noteq> 1104" "n - 64 \<noteq> 1136" using assms by auto
  show ?thesis
    using assms ne
    by (simp add: seg_wf_def sma_init_segment_def LAST_def Let_def layout_simps a1 a2 a3 a4 a5 a6
        free_total_def free_offsets_def)
qed

end
