(* ===== verification/Sma_Free.thy ===== *)
theory Sma_Free
  imports Sma_Alloc
begin

text \<open>
  Correctness of \<open>sma_deallocate\<close>: the block is combined with its free neighbours and
  becomes the head of the free list. Between the steps of the function the invariant of the
  segment does not hold; \<open>hole\<close> describes these states: the region at \<open>b\<close> is in no
  list, and everything before and after it is as the invariant says.
\<close>

definition hole :: "(nat \<Rightarrow> block_t) \<Rightarrow> ablk list \<Rightarrow> nat \<Rightarrow> nat \<Rightarrow> ablk list \<Rightarrow> nat list \<Rightarrow> nat \<Rightarrow> bool" where
  "hole m xs b s ys fl e \<longleftrightarrow>
     tiles m 1136 xs b \<and> 8 dvd b \<and> 32 \<le> s \<and> bsize (m b) = s \<and> tiles m (b + s) ys e \<and>
     prevs m 0 xs b \<and> (\<exists>p. prevs m p ys e) \<and> dll m FIRST fl e \<and> distinct fl \<and>
     set fl = free_offsets xs \<union> free_offsets ys \<and> fnext (m e) = 0 \<and> bsize (m e) = 0"

lemma tiles_free_offsets:
  assumes "tiles m a bs e" "x \<in> free_offsets bs"
  shows "a \<le> x" "x < e" "fnext (m x) \<noteq> 0"
proof -
  obtain s where "(x, s, True) \<in> set bs"
    using assms(2) by (auto simp: free_offsets_def)
  then obtain xs ys where "bs = xs @ (x, s, True) # ys"
    by (auto dest: split_list)
  with assms(1) show "a \<le> x" "x < e" "fnext (m x) \<noteq> 0"
    using tiles_le [of m a xs x] tiles_le [of m "x + s" ys e] by (auto simp: tiles_split)
qed

lemma hole_fl:
  assumes "hole m xs b s ys fl e"
  shows "x \<in> set fl \<Longrightarrow> 1136 \<le> x \<and> x < e \<and> (x < b \<or> b + s \<le> x)"
    and "distinct (FIRST # fl @ [e])" "0 \<notin> set (fl @ [e])" "b < e" "1136 \<le> b"
proof -
  have t: "tiles m 1136 xs b" "tiles m (b + s) ys e" "32 \<le> s" "set fl = free_offsets xs \<union> free_offsets ys"
    "distinct fl"
    using assms by (auto simp: hole_def)
  have be: "1136 \<le> b" "b + s \<le> e"
    using tiles_le [OF t(1)] tiles_le [OF t(2)] by auto
  then show "b < e" "1136 \<le> b" using t(3) by auto
  show in_fl: "1136 \<le> x \<and> x < e \<and> (x < b \<or> b + s \<le> x)" if "x \<in> set fl" for x
    using that t(4) tiles_free_offsets [OF t(1), of x] tiles_free_offsets [OF t(2), of x] be by auto
  show "distinct (FIRST # fl @ [e])" "0 \<notin> set (fl @ [e])"
    using in_fl [of FIRST] in_fl [of e] in_fl [of 0] t(5) be by (auto simp: layout_simps)
qed

subsection \<open>Taking a neighbour off the free list\<close>

lemma remove_free_sel:
  assumes "fnext (m b) \<noteq> b" "fprev (m b) \<noteq> b"
  shows "bsize (remove_free b m x) = bsize (m x)" "prev_size (remove_free b m x) = prev_size (m x)"
    and "fnext (remove_free b m x) = (if x = fprev (m b) then fnext (m b) else fnext (m x))"
    and "fprev (remove_free b m x) = (if x = fnext (m b) then fprev (m b) else fprev (m x))"
  using assms by (simp_all add: remove_free_def Let_def)

text \<open>Removing the free block \<open>p\<close> changes no size, no \<^verbatim>\<open>prev_size\<close> and not whether
  \<^verbatim>\<open>fnext\<close> is \<open>0\<close>.\<close>

lemma remove_free_dll:
  assumes "dll m FIRST fl e" "distinct (FIRST # fl @ [e])" "0 \<notin> set (fl @ [e])" "p \<in> set fl"
  shows "dll (remove_free p m) FIRST (remove1 p fl) e"
    and "bsize (remove_free p m x) = bsize (m x)" "prev_size (remove_free p m x) = prev_size (m x)"
    and "(fnext (remove_free p m x) = 0) = (fnext (m x) = 0)"
proof -
  obtain f1 f2 where fl: "fl = f1 @ p # f2" "p \<notin> set f1"
    using split_list_first [OF assms(4)] by blast
  note nb = dll_neighbours [OF assms(1) [unfolded fl(1)]]
  have "p \<notin> set (FIRST # f1)" "p \<notin> set (f2 @ [e])"
    using assms(2) by (auto simp: fl)
  with nb have ne: "fnext (m p) \<noteq> p" "fprev (m p) \<noteq> p" by auto
  note sel = remove_free_sel [of m p, OF ne]
  show "bsize (remove_free p m x) = bsize (m x)" "prev_size (remove_free p m x) = prev_size (m x)"
    by (simp_all add: sel)
  have "fprev (m p) \<in> set (FIRST # fl)" "p \<in> set (FIRST # fl)"
    using nb(1) by (auto simp: fl)
  from dll_fnext_nz [OF assms(1,3) this(1)] dll_fnext_nz [OF assms(1,3) this(2)]
  show "(fnext (remove_free p m x) = 0) = (fnext (m x) = 0)"
    by (simp add: sel)
  have "dll (remove_free p m) FIRST (f1 @ f2) e"
    using assms(1,2) by (intro dll_bypass [of m FIRST f1 p f2 e]) (simp_all add: fl sel)
  then show "dll (remove_free p m) FIRST (remove1 p fl) e"
    using fl by (simp add: remove1_append)
qed

subsection \<open>The three steps\<close>

lemma last_free_0:
  assumes "tiles m a xs b"
  shows "last_free 0 xs = 0 \<longleftrightarrow> \<not> (\<exists>xs' p ps. xs = xs' @ [(p, ps, True)])"
  using assms by (cases xs rule: rev_cases) (auto simp: tiles_append)

lemma merge_prev_none:
  assumes "hole m xs b s ys fl e" "last_free 0 xs = 0"
  shows "merge_prev b m = (b, m)"
  using assms prevs_last [of m 0 xs b] by (simp add: merge_prev_def hole_def)

lemma merge_prev_some:
  assumes h: "hole m (xs @ [(p, ps, True)]) b s ys fl e" and e: "e < 2 ^ 64"
  shows "\<exists>m'. merge_prev b m = (p, m') \<and> hole m' xs p (ps + s) ys (remove1 p fl) e \<and> last_free 0 xs = 0"
proof -
  note hd = hole_fl [OF h]
  have t: "tiles m 1136 xs p" "8 dvd p" "32 \<le> ps" "bsize (m p) = ps" "b = p + ps" "32 \<le> s" "bsize (m b) = s"
    "tiles m (b + s) ys e" "p \<in> set fl" "dll m FIRST fl e"
    and pv: "prevs m 0 xs p" "last_free 0 xs = 0" "prev_size (m b) = ps" "\<exists>q. prevs m q ys e"
    using h by (auto simp: hole_def tiles_append prevs_split)
  note rf = remove_free_dll [OF t(10) hd(2,3) t(9)]
  define m1 where "m1 = remove_free p m"
  define m' where "m' = set_size p (ps + s) m1"
  have "b + s \<le> e" using tiles_le [OF t(8)] .
  then have sz: "size_add ps s = ps + s"
    using e t(5) by (simp add: size_t_simps)
  have mp: "merge_prev b m = (p, m')"
    using t pv rf(2) by (simp add: merge_prev_def PREV_SBLOCK_def Let_def m'_def m1_def sz)
  have fr: "x \<notin> {p} \<Longrightarrow> bsize (m' x) = bsize (m x) \<and> (fnext (m' x) = 0) = (fnext (m x) = 0)" for x
    using rf by (simp add: m'_def m1_def)
  have off: "p \<notin> fst ` set xs" "p \<notin> fst ` set ys"
    using tiles_in [OF t(1)] tiles_in [OF t(8)] t(3,5) by fastforce+
  have "tiles m' 1136 xs p" "tiles m' (b + s) ys e"
    using t(1,8) off tiles_frame_except [of "{p}" m' m, OF fr] by auto
  moreover have "prevs m' 0 xs p" "\<exists>q. prevs m' q ys e"
    using pv(1,4) rf(3) prevs_frame_except [of "{}" m' m] by (simp_all add: m'_def m1_def)
  moreover have "dll m' FIRST (remove1 p fl) e"
    using rf(1) dll_frame [of FIRST "remove1 p fl" m' m1 e] by (simp add: m'_def m1_def)
  moreover have "set (remove1 p fl) = free_offsets xs \<union> free_offsets ys" "distinct (remove1 p fl)"
    using h off free_offsets_subset [of xs] free_offsets_subset [of ys] by (auto simp: hole_def)
  moreover have "fnext (m' e) = 0" "bsize (m' e) = 0"
    using h fr [of e] hd(1) [of p] t(9) by (auto simp: hole_def)
  ultimately show ?thesis
    using mp t pv(2) by (simp add: hole_def m'_def add.assoc)
qed

lemma merge_next_none:
  assumes "hole m xs b s ys fl e" "ys = [] \<or> \<not> snd (snd (hd ys))"
  shows "merge_next b m = Some m"
proof -
  have "fnext (m (b + s)) = 0"
    using assms by (cases ys) (auto simp: hole_def)
  then show ?thesis
    using assms(1) by (simp add: merge_next_def NEXT_SBLOCK_def hole_def)
qed

lemma merge_next_some:
  assumes h: "hole m xs b s ((q, qs, True) # ys) fl e" and e: "e < 2 ^ 64"
  shows "\<exists>m'. merge_next b m = Some m' \<and> hole m' xs b (s + qs) ys (remove1 q fl) e \<and>
    (ys = [] \<or> \<not> snd (snd (hd ys)))"
proof -
  note hd = hole_fl [OF h]
  have t: "tiles m 1136 xs b" "8 dvd b" "32 \<le> s" "bsize (m b) = s" "q = b + s" "32 \<le> qs" "bsize (m q) = qs"
    "tiles m (q + qs) ys e" "q \<in> set fl" "dll m FIRST fl e" "fnext (m q) \<noteq> 0"
    and pv: "prevs m 0 xs b" "prevs m qs ys e"
    using h by (auto simp: hole_def)
  note rf = remove_free_dll [OF t(10) hd(2,3) t(9)]
  define m1 where "m1 = remove_free q m"
  define m' where "m' = set_size b (s + qs) m1"
  have qe: "q + qs \<le> e" using tiles_le [OF t(8)] .
  then have sz: "size_add s qs = s + qs"
    using e t(5) by (simp add: size_t_simps)
  have "prev_size (m (q + qs)) = qs"
    using pv(2) t(8) by (cases ys) auto
  then have mn: "merge_next b m = Some m'"
    using t rf(2) by (simp add: merge_next_def NEXT_SBLOCK_def Let_def m'_def m1_def sz)
  have fr: "x \<notin> {b} \<Longrightarrow> bsize (m' x) = bsize (m x) \<and> (fnext (m' x) = 0) = (fnext (m x) = 0)" for x
    using rf by (simp add: m'_def m1_def)
  have off: "b \<notin> fst ` set xs" "b \<notin> fst ` set ys" "q \<notin> fst ` set xs" "q \<notin> fst ` set ys"
    using tiles_in [OF t(1)] tiles_in [OF t(8)] t(3,5,6) by fastforce+
  have "tiles m' 1136 xs b" "tiles m' (b + (s + qs)) ys e"
    using t(1,5,8) off tiles_frame_except [of "{b}" m' m, OF fr] by (auto simp: add.assoc)
  moreover have "prevs m' 0 xs b" "\<exists>q. prevs m' q ys e"
    using pv rf(3) prevs_frame_except [of "{}" m' m] by (auto simp: m'_def m1_def)
  moreover have "dll m' FIRST (remove1 q fl) e"
    using rf(1) dll_frame [of FIRST "remove1 q fl" m' m1 e] by (simp add: m'_def m1_def)
  moreover have "set (remove1 q fl) = free_offsets xs \<union> free_offsets ys" "distinct (remove1 q fl)"
    using h off free_offsets_subset [of xs] free_offsets_subset [of ys] by (auto simp: hole_def)
  moreover have "fnext (m' e) = 0" "bsize (m' e) = 0"
    using h fr [of e] hd(4) by (auto simp: hole_def)
  moreover have "ys = [] \<or> \<not> snd (snd (hd ys))"
    using pv(2) t(6) by (cases ys) auto
  ultimately show ?thesis
    using mn t by (simp add: hole_def m'_def)
qed

lemma insert_free_sel:
  assumes "bsize (m b) = s" "b \<noteq> FIRST" "fnext (m FIRST) \<noteq> b"
  shows "bsize (insert_free b m x) = bsize (m x)"
    and "prev_size (insert_free b m x) = (if x = b + s then s else prev_size (m x))"
    and "fnext (insert_free b m x) = (if x = FIRST then b else if x = b then fnext (m FIRST) else fnext (m x))"
    and "fprev (insert_free b m x) = (if x = fnext (m FIRST) then b else if x = b then FIRST else fprev (m x))"
  using assms by (auto simp: insert_free_def NEXT_SBLOCK_def Let_def)

lemma insert_free_wf:
  assumes h: "hole m xs b s ys fl (LAST sg)" and lf: "last_free 0 xs = 0"
    and hy: "ys = [] \<or> \<not> snd (snd (hd ys))"
    and wf: "seg_wf sg bs0 fl0" and av: "av = free_total (xs @ (b, s, True) # ys) + 32"
  shows "seg_wf (sg\<lparr>avail := av, blk := insert_free b m\<rparr>) (xs @ (b, s, True) # ys) (b # fl)"
proof -
  let ?L = "LAST sg" and ?m = "insert_free b m"
  note hf = hole_fl [OF h]
  have t: "tiles m 1136 xs b" "8 dvd b" "32 \<le> s" "bsize (m b) = s" "tiles m (b + s) ys ?L"
    "dll m FIRST fl ?L" "prevs m 0 xs b" "fnext (m ?L) = 0" "bsize (m ?L) = 0" "distinct fl"
    "set fl = free_offsets xs \<union> free_offsets ys"
    using h by (auto simp: hole_def)
  obtain p where p: "prevs m p ys ?L" using h by (auto simp: hole_def)
  have f: "fnext (m FIRST) \<in> set (fl @ [?L])"
    unfolding dll_first [OF t(6)] by (rule hd_in_set) simp
  have bfl: "b \<notin> set fl" "b \<noteq> ?L" "b \<noteq> FIRST"
    using hf(1) [of b] hf(4,5) t(3) by (auto simp: layout_simps)
  then have ne: "fnext (m FIRST) \<noteq> b" "b \<noteq> FIRST" using f by auto
  note sel = insert_free_sel [of m b, OF t(4) ne(2,1)]
  have "fnext (m FIRST) \<noteq> 0" using f hf(3) by metis
  then have fr: "x \<notin> {b, FIRST} \<Longrightarrow> bsize (?m x) = bsize (m x) \<and> (fnext (?m x) = 0) = (fnext (m x) = 0)"
    and fb: "fnext (?m b) \<noteq> 0" for x
    using ne by (simp_all add: sel)
  have off: "{b, FIRST} \<inter> fst ` set xs = {}" "{b, FIRST} \<inter> fst ` set ys = {}" "b + s \<notin> fst ` set xs"
    using tiles_in [OF t(1)] tiles_in [OF t(5)] t(3) hf(5) by (fastforce simp: layout_simps)+
  have "tiles ?m 1136 xs b" "tiles ?m (b + s) ys ?L"
    using t(1,5) off tiles_frame_except [of "{b, FIRST}" ?m m, OF fr] by auto
  then have T: "tiles ?m 1136 (xs @ (b, s, True) # ys) ?L"
    using t fb by (simp add: tiles_split sel(1))
  have "prevs ?m 0 xs b"
    using t(3,7) off prevs_frame_except [of "{b + s}" ?m m b xs 0] by (simp add: sel(2))
  moreover have "prevs ?m s ys ?L"
    by (rule prevs_head [OF t(5) p]) (use hy in \<open>simp_all add: sel(2)\<close>)
  ultimately have P: "prevs ?m 0 (xs @ (b, s, True) # ys) ?L"
    using lf by (simp add: prevs_split)
  have D: "dll ?m FIRST (b # fl) ?L"
  proof (cases fl)
    case Nil
    with t(6) bfl show ?thesis by (simp add: sel)
  next
    case (Cons x fl')
    have "dll ?m x fl' ?L = dll m x fl' ?L"
      using Cons t(6) hf(2) bfl by (intro dll_frame) (auto simp: sel)
    with Cons t(6) bfl hf(2) show ?thesis by (simp add: sel)
  qed
  have "fnext (?m ?L) = 0" "bsize (?m ?L) = 0"
    using t bfl hf(2) by (auto simp: sel)
  moreover have "set (b # fl) = free_offsets (xs @ (b, s, True) # ys)" "distinct (b # fl)"
    using t bfl by auto
  ultimately show ?thesis
    using T P D av by (intro seg_wf_updI [OF wf])
qed

subsection \<open>sma\_deallocate\<close>

text \<open>The abstract effect: the block joins its free neighbours.\<close>

definition join_prev :: "ablk list \<Rightarrow> nat \<Rightarrow> nat \<Rightarrow> ablk list \<times> nat \<times> nat" where
  "join_prev xs b s =
     (if xs \<noteq> [] \<and> snd (snd (last xs)) then (butlast xs, fst (last xs), fst (snd (last xs)) + s) else (xs, b, s))"

definition join_next :: "nat \<Rightarrow> ablk list \<Rightarrow> nat \<times> ablk list" where
  "join_next s ys = (if ys \<noteq> [] \<and> snd (snd (hd ys)) then (s + fst (snd (hd ys)), tl ys) else (s, ys))"

definition release :: "ablk list \<Rightarrow> nat \<Rightarrow> nat \<Rightarrow> ablk list \<Rightarrow> ablk list" where
  "release xs b s ys =
     (let (xs, b, s) = join_prev xs b s; (s, ys) = join_next s ys in xs @ (b, s, True) # ys)"

lemma merge_prev_ok:
  assumes h: "hole m xs b s ys fl e" and e: "e < 2 ^ 64" and j: "join_prev xs b s = (xs', b', s')"
  shows "\<exists>m' fl'. merge_prev b m = (b', m') \<and> hole m' xs' b' s' ys fl' e \<and> last_free 0 xs' = 0"
proof (cases "last_free 0 xs = 0")
  case True
  then have "\<not> (xs \<noteq> [] \<and> snd (snd (last xs)))"
    using last_free_0 [of m 1136 xs b] h by (cases xs rule: rev_cases) (auto simp: hole_def)
  then have "xs' = xs" "b' = b" "s' = s"
    using j by (auto simp: join_prev_def split: if_splits)
  with True h merge_prev_none [OF h True] show ?thesis by blast
next
  case False
  then obtain ys' p ps where xs: "xs = ys' @ [(p, ps, True)]"
    using last_free_0 [of m 1136 xs b] h by (auto simp: hole_def)
  then have "xs' = ys'" "b' = p" "s' = ps + s"
    using j by (auto simp: join_prev_def)
  with merge_prev_some [OF h [unfolded xs] e] show ?thesis by blast
qed

lemma merge_next_ok:
  assumes h: "hole m xs b s ys fl e" and e: "e < 2 ^ 64" and j: "join_next s ys = (s', ys')"
  shows "\<exists>m' fl'. merge_next b m = Some m' \<and> hole m' xs b s' ys' fl' e \<and> (ys' = [] \<or> \<not> snd (snd (hd ys')))"
proof (cases "ys = [] \<or> \<not> snd (snd (hd ys))")
  case True
  then have "s' = s" "ys' = ys"
    using j by (auto simp: join_next_def split: if_splits)
  with True h merge_next_none [OF h True] show ?thesis by blast
next
  case False
  then obtain q qs zs where ys: "ys = (q, qs, True) # zs"
    by (cases ys) auto
  then have "s' = s + qs" "ys' = zs"
    using j by (auto simp: join_next_def)
  with merge_next_some [OF h [unfolded ys] e] show ?thesis by blast
qed

lemma free_total_release:
  "free_total (release xs b s ys) = free_total (xs @ (b, s, False) # ys) + s"
proof -
  have "free_total xs' + s' = free_total xs + s" if "join_prev xs b s = (xs', b', s')" for xs' b' s'
    using that by (cases xs rule: rev_cases) (auto simp: join_prev_def split: if_splits)
  moreover have "s' + free_total ys' = t + free_total ys" if "join_next t ys = (s', ys')" for t s' ys'
    using that by (cases ys) (auto simp: join_next_def split: if_splits)
  ultimately show ?thesis
    by (fastforce simp: release_def split: prod.splits)
qed

lemma sma_deallocate_ok:
  assumes wf: "seg_wf h (xs @ (b, s, False) # ys) fl"
  shows "\<exists>h' fl'. sma_deallocate h (b + 32) = Some (s, h') \<and> seg_wf h' (release xs b s ys) fl' \<and>
    segsize h' = segsize h \<and> avail h' = avail h + s"
proof -
  let ?m = "blk h" and ?L = "LAST h"
  note around = seg_wf_around [OF wf]
  have bs: "bsize (?m b) = s" "32 \<le> s" "8 dvd b" "b + s \<le> ?L"
    using seg_wf_bounds [OF wf, of b s False] by auto
  have L: "?L < 2 ^ 63" using seg_wf_LAST [OF wf] by simp
  have h0: "hole ?m xs b s ys fl ?L"
    using wf around bs by (auto simp: hole_def seg_wf_def)
  obtain xs1 b1 s1 s2 ys2 where jp: "join_prev xs b s = (xs1, b1, s1)" and jn: "join_next s1 ys = (s2, ys2)"
    by (metis prod_cases3 surj_pair)
  obtain m1 fl1 where 1: "merge_prev b ?m = (b1, m1)" "hole m1 xs1 b1 s1 ys fl1 ?L" "last_free 0 xs1 = 0"
    using merge_prev_ok [OF h0 _ jp] L by auto
  obtain m2 fl2 where 2: "merge_next b1 m1 = Some m2" "hole m2 xs1 b1 s2 ys2 fl2 ?L"
    "ys2 = [] \<or> \<not> snd (snd (hd ys2))"
    using merge_next_ok [OF 1(2) _ jn] L by auto
  have rel: "release xs b s ys = xs1 @ (b1, s2, True) # ys2"
    by (simp add: release_def jp jn)
  have "avail h + s = free_total (release xs b s ys) + 32"
    using wf free_total_release [of xs b s ys] by (simp add: seg_wf_def)
  then have wf': "seg_wf (h\<lparr>avail := avail h + s, blk := insert_free b1 m2\<rparr>) (release xs b s ys) (b1 # fl2)"
    using insert_free_wf [OF 2(2) 1(3) 2(3) wf] rel by simp
  have "1136 + free_total (release xs b s ys) \<le> ?L"
    using wf' by (auto simp: seg_wf_def layout_simps dest: tiles_total_le)
  then have "size_add (avail h) s = avail h + s"
    using \<open>avail h + s = _\<close> L by (simp add: size_t_simps)
  then have "sma_deallocate h (b + 32) = Some (s, h\<lparr>avail := avail h + s, blk := insert_free b1 m2\<rparr>)"
    using 1(1) 2(1) bs by (simp add: sma_deallocate_def layout_simps Let_def)
  with wf' show ?thesis by auto
qed

end
