(* ===== verification/Sma_Spec.thy ===== *)
theory Sma_Spec
  imports Sma_Free
begin

text \<open>
  What a segment promises its users. The live regions of a segment (\<open>regions\<close>) are computed
  from its block headers; \<open>region_allocator\<close> is the contract of an allocator in terms of live
  regions, with the consequences for any sequence of calls proved once; the interpretation shows
  that \<open>sma_allocate\<close> and \<open>sma_deallocate\<close> keep it.
\<close>

subsection \<open>The block list of a segment\<close>

text \<open>The blocks from offset \<open>a\<close> up to \<open>e\<close>, read off the headers (at most \<open>k\<close>
  of them).\<close>

fun walk :: "(nat \<Rightarrow> block_t) \<Rightarrow> nat \<Rightarrow> nat \<Rightarrow> nat \<Rightarrow> ablk list" where
  "walk m e 0 a = []"
| "walk m e (Suc k) a =
     (if a < e then (a, bsize (m a), fnext (m a) \<noteq> 0) # walk m e k (a + bsize (m a)) else [])"

definition seg_blocks :: "shm_segment \<Rightarrow> ablk list" where
  "seg_blocks h = walk (blk h) (LAST h) (segsize h) (FIRST + 32)"

definition seg_ok :: "shm_segment \<Rightarrow> bool" where
  "seg_ok h \<longleftrightarrow> (\<exists>fl. seg_wf h (seg_blocks h) fl)"

text \<open>A live region: its first offset and its length. Block headers are not part of it.\<close>

definition regions :: "shm_segment \<Rightarrow> (nat \<times> nat) set" where
  "regions h = {(b + 32, s - 32) | b s. (b, s, False) \<in> set (seg_blocks h)}"

definition free_bytes :: "shm_segment \<Rightarrow> nat" where
  "free_bytes h = free_total (seg_blocks h)"

lemma walk_tiles: "tiles m a bs e \<Longrightarrow> length bs \<le> k \<Longrightarrow> walk m e k a = bs"
proof (induction m a bs e arbitrary: k rule: tiles.induct)
  case (1 m a e)
  then show ?case by (cases k) auto
next
  case (2 m a b s f bs e)
  then obtain k' where k: "k = Suc k'" by (cases k) auto
  have "a < e" using 2 tiles_le [of m "a + s" bs e] by auto
  with 2 k show ?case by auto
qed

lemma tiles_length: "tiles m a bs e \<Longrightarrow> a + length bs \<le> e"
  by (induction m a bs e rule: tiles.induct) auto

lemma seg_wf_blocks: "seg_wf h bs fl \<Longrightarrow> seg_blocks h = bs"
  unfolding seg_blocks_def
  by (rule walk_tiles) (auto simp: seg_wf_def LAST_def dest: tiles_length)

lemma seg_wf_ok: "seg_wf h bs fl \<Longrightarrow> seg_ok h"
  by (auto simp: seg_ok_def dest: seg_wf_blocks)

lemma seg_okE:
  assumes "seg_ok h"
  obtains bs fl where "seg_wf h bs fl" "seg_blocks h = bs"
  using assms by (auto simp: seg_ok_def)

lemma regionsI: "seg_wf h bs fl \<Longrightarrow> (b, s, False) \<in> set bs \<Longrightarrow> (b + 32, s - 32) \<in> regions h"
  by (auto simp: regions_def seg_wf_blocks)

lemma seg_wf_regions:
  "seg_wf h bs fl \<Longrightarrow> regions h = {(b + 32, s - 32) | b s. (b, s, False) \<in> set bs}"
  by (simp add: regions_def seg_wf_blocks)

lemma seg_wf_free_bytes: "seg_wf h bs fl \<Longrightarrow> avail h = free_bytes h + 32"
  by (simp add: free_bytes_def seg_wf_blocks) (simp add: seg_wf_def)

subsection \<open>Regions are disjoint\<close>

lemma tiles_disjoint:
  assumes "tiles m a bs e" "(b, s, f) \<in> set bs" "(b', s', f') \<in> set bs" "b \<noteq> b'"
  shows "b + s \<le> b' \<or> b' + s' \<le> b"
proof -
  obtain xs ys where bs: "bs = xs @ (b, s, f) # ys"
    using assms(2) by (auto dest: split_list)
  have "tiles m a xs b" "tiles m (b + s) ys e"
    using assms(1) by (auto simp: bs tiles_split)
  then show ?thesis
    using assms(3,4) tiles_in [of m a xs b b' s' f'] tiles_in [of m "b + s" ys e b' s' f'] by (auto simp: bs)
qed

definition separate :: "nat \<times> nat \<Rightarrow> nat \<times> nat \<Rightarrow> bool" where
  "separate r q \<longleftrightarrow> fst r + snd r \<le> fst q \<or> fst q + snd q \<le> fst r"

lemma regions_separate:
  assumes "seg_ok h" "r \<in> regions h" "q \<in> regions h" "r \<noteq> q"
  shows "separate r q"
proof -
  obtain bs fl where wf: "seg_wf h bs fl" "seg_blocks h = bs" using assms(1) by (rule seg_okE)
  have t: "tiles (blk h) (FIRST + 32) bs (LAST h)" using wf by (simp add: seg_wf_def)
  obtain b s b' s' where rq: "r = (b + 32, s - 32)" "(b, s, False) \<in> set bs"
    "q = (b' + 32, s' - 32)" "(b', s', False) \<in> set bs"
    using assms(2,3) by (auto simp: regions_def wf)
  have "b \<noteq> b'"
  proof
    assume "b = b'"
    with rq tiles_in [OF t] have "s = s'" by metis
    with \<open>b = b'\<close> rq assms(4) show False by simp
  qed
  from tiles_disjoint [OF t rq(2,4) this] tiles_in [OF t rq(2)] tiles_in [OF t rq(4)]
  show ?thesis by (auto simp: separate_def rq)
qed

lemma regions_bounds:
  assumes "seg_ok h" "(a, n) \<in> regions h"
  shows "1168 \<le> a" "a + n + 64 \<le> segsize h" "8 dvd a"
proof -
  obtain bs fl where wf: "seg_wf h bs fl" "seg_blocks h = bs" using assms(1) by (rule seg_okE)
  obtain b s where b: "a = b + 32" "n = s - 32" "(b, s, False) \<in> set bs"
    using assms(2) by (auto simp: regions_def wf)
  show "1168 \<le> a" "a + n + 64 \<le> segsize h" "8 dvd a"
    using seg_wf_bounds [OF wf(1) b(3)] seg_wf_LAST [OF wf(1)] b by auto
qed

subsection \<open>The effect of the two operations on the live regions\<close>

definition fits :: "shm_segment \<Rightarrow> nat \<Rightarrow> bool" where
  "fits h n \<longleftrightarrow> (\<exists>b s. (b, s, True) \<in> set (seg_blocks h) \<and> ALIGNWORD (n + 32) \<le> s)"

lemma fits_mono: "fits h n \<Longrightarrow> k \<le> n \<Longrightarrow> n < 2 ^ 64 - 40 \<Longrightarrow> fits h k"
proof -
  assume a: "fits h n" "k \<le> n" "n < 2 ^ 64 - 40"
  then have "ALIGNWORD (k + 32) \<le> ALIGNWORD (n + 32)" by (simp add: ALIGNWORD_exact div_le_mono)
  with a(1) show ?thesis by (fastforce simp: fits_def)
qed

text \<open>An allocation of \<open>n\<close> bytes from a segment with \<open>m\<close> bytes more leaves room for these.\<close>

definition leaves_room :: "shm_segment \<Rightarrow> nat \<Rightarrow> shm_segment \<Rightarrow> bool" where
  "leaves_room h n h' \<longleftrightarrow> (\<forall>m. n + m + 120 < 2 ^ 64 - 40 \<longrightarrow> fits h (n + m + 120) \<longrightarrow> fits h' m)"

lemma leaves_room_refl [simp]: "leaves_room h n h"
  using fits_mono by (auto simp: leaves_room_def)

lemma carve_leaves_room:
  assumes "seg_blocks h = xs @ (b, s, True) # ys" "seg_blocks h' = xs @ carve (ALIGNWORD (n + 32)) b s @ ys"
  shows "leaves_room h n h'"
  unfolding leaves_room_def
proof (intro allI impI)
  fix m assume m: "n + m + 120 < 2 ^ 64 - 40" "fits h (n + m + 120)"
  let ?r = "ALIGNWORD (n + 32)"
  have al: "?r < n + 40" "ALIGNWORD (m + 32) < m + 40" "n + m + 152 \<le> ALIGNWORD (n + m + 120 + 32)"
    using m(1) ALIGNWORD_bounds [of "n + 32"] ALIGNWORD_bounds [of "m + 32"] ALIGNWORD_bounds [of "n + m + 120 + 32"] by simp_all
  obtain b0 s0 where b0: "(b0, s0, True) \<in> set (seg_blocks h)" "ALIGNWORD (n + m + 120 + 32) \<le> s0" using m(2) by (auto simp: fits_def)
  show "fits h' m"
  proof (cases "(b0, s0) = (b, s)")
    case True
    then have "s0 = s" by simp
    with al b0(2) have "?r + 80 \<le> s" "ALIGNWORD (m + 32) \<le> s - ?r" by linarith+
    then show ?thesis unfolding fits_def assms(2) by (intro exI [of _ "b + ?r"] exI [of _ "s - ?r"]) (simp add: carve_def)
  next
    case False
    then have "(b0, s0, True) \<in> set (seg_blocks h')" using b0(1) by (auto simp: assms)
    moreover have "ALIGNWORD (m + 32) \<le> s0" using al b0(2) by linarith
    ultimately show ?thesis unfolding fits_def by blast
  qed
qed

lemma allocate_region:
  assumes "seg_ok h" "n < 2 ^ 64 - 40" "fits h n"
  shows "\<exists>a sz h'. sma_allocate h n MINBLOCKSIZE al = Some (a, sz, h') \<and> seg_ok h' \<and> segsize h' = segsize h \<and>
    a \<noteq> SIZE_MAX \<and> n \<le> sz \<and> a \<notin> fst ` regions h \<and> regions h' = insert (a, sz) (regions h) \<and>
    avail h' + (sz + 32) = avail h \<and> leaves_room h n h'"
proof -
  obtain bs fl where wf: "seg_wf h bs fl" "seg_blocks h = bs" using assms(1) by (rule seg_okE)
  define r where "r = ALIGNWORD (n + 32)"
  obtain b0 s0 where "(b0, s0, True) \<in> set bs" "r \<le> s0"
    using assms(3) by (auto simp: fits_def wf r_def)
  from sma_allocate_succeeds [OF wf(1) assms(2) r_def this, of al]
  obtain xs b s ys h' fl' where bs: "bs = xs @ (b, s, True) # ys" and rs: "r \<le> s"
    and eq: "sma_allocate h n MINBLOCKSIZE al = Some (b + 32, (if s < r + 80 then s else r) - 32, h')"
    and wf': "seg_wf h' (xs @ carve r b s @ ys) fl'" and sg: "segsize h' = segsize h"
    by auto
  define sz where "sz = (if s < r + 80 then s else r) - 32"
  have r: "n + 32 \<le> r"
    using assms(2) ALIGNWORD_bounds [of "n + 32"] by (simp add: r_def)
  have b: "b < 2 ^ 63" "\<And>s' f. (b, s', f) \<notin> set xs" "\<And>s' f. (b, s', f) \<notin> set ys"
  proof -
    show "b < 2 ^ 63"
      using seg_wf_bounds [OF wf(1), of b s True] seg_wf_LAST [OF wf(1)] by (simp add: bs)
    have "distinct (map fst bs)"
      using wf(1) by (auto simp: seg_wf_def dest: tiles_distinct)
    then show "\<And>s' f. (b, s', f) \<notin> set xs" "\<And>s' f. (b, s', f) \<notin> set ys"
      by (force simp: bs)+
  qed
  have "b + 32 \<notin> fst ` regions h"
    using b by (auto simp: seg_wf_regions [OF wf(1)] bs)
  moreover have "regions h' = insert (b + 32, sz) (regions h)"
    unfolding seg_wf_regions [OF wf(1)] seg_wf_regions [OF wf'] by (auto simp: bs carve_def sz_def)
  moreover have "avail h' + (sz + 32) = avail h"
    using wf' wf(1) rs r by (auto simp: seg_wf_def bs carve_def sz_def split: if_splits)
  moreover have "leaves_room h n h'"
    using carve_leaves_room [of h xs b s ys h' n] wf(2) bs seg_wf_blocks [OF wf'] by (simp add: r_def)
  ultimately show ?thesis
    using eq sg rs r b(1) seg_wf_ok [OF wf'] by (auto simp: sz_def SIZE_MAX_def split: if_splits)
qed

lemma allocate_full:
  assumes "seg_ok h" "n < 2 ^ 64 - 40" "\<not> fits h n"
  shows "sma_allocate h n MINBLOCKSIZE al = Some (SIZE_MAX, al, h)"
proof -
  obtain bs fl where wf: "seg_wf h bs fl" "seg_blocks h = bs" using assms(1) by (rule seg_okE)
  have r: "ALIGNWORD (n + 32) = ALIGNWORD (size_add n 32)" "0 < ALIGNWORD (n + 32)"
    using assms(2) ALIGNWORD_bounds [of "n + 32"] by (simp_all add: size_t_simps)
  show ?thesis
    by (rule sma_allocate_fails [OF wf(1) r]) (use assms(3) in \<open>auto simp: fits_def wf not_le\<close>)
qed

lemma join_prev_alloc:
  "join_prev xs b s = (xs', c, t) \<Longrightarrow> (b', s', False) \<in> set xs' \<longleftrightarrow> (b', s', False) \<in> set xs"
  by (cases xs rule: rev_cases) (auto simp: join_prev_def split: if_splits)

lemma join_next_alloc:
  "join_next u ys = (t, ys') \<Longrightarrow> (b', s', False) \<in> set ys' \<longleftrightarrow> (b', s', False) \<in> set ys"
  by (cases ys) (auto simp: join_next_def split: if_splits)

lemma release_alloc:
  "(b', s', False) \<in> set (release xs b s ys) \<longleftrightarrow> (b', s', False) \<in> set xs \<union> set ys"
proof -
  obtain xs1 c t where 1: "join_prev xs b s = (xs1, c, t)" by (metis prod_cases3)
  obtain u ys1 where 2: "join_next t ys = (u, ys1)" by (metis surj_pair)
  show ?thesis
    using join_prev_alloc [OF 1, of b' s'] join_next_alloc [OF 2, of b' s'] by (simp add: release_def 1 2)
qed

lemma deallocate_region:
  assumes "seg_ok h" "(a, sz) \<in> regions h"
  shows "\<exists>h'. sma_deallocate h a = Some (sz + 32, h') \<and> seg_ok h' \<and> segsize h' = segsize h \<and>
    regions h' = regions h - {(a, sz)} \<and> avail h' = avail h + (sz + 32)"
proof -
  obtain bs fl where wf: "seg_wf h bs fl" "seg_blocks h = bs" using assms(1) by (rule seg_okE)
  obtain b s where b: "a = b + 32" "sz = s - 32" "(b, s, False) \<in> set bs"
    using assms(2) by (auto simp: regions_def wf)
  obtain xs ys where bs: "bs = xs @ (b, s, False) # ys"
    using b(3) by (auto dest: split_list)
  have "32 \<le> s" using seg_wf_bounds [OF wf(1) b(3)] by simp
  obtain h' fl' where h': "sma_deallocate h (b + 32) = Some (s, h')" "seg_wf h' (release xs b s ys) fl'"
    "segsize h' = segsize h" "avail h' = avail h + s"
    using sma_deallocate_ok [OF wf(1) [unfolded bs]] by auto
  have "distinct (map fst bs)"
    using wf(1) by (auto simp: seg_wf_def dest: tiles_distinct)
  then have nb: "\<And>s' f. (b, s', f) \<notin> set xs" "\<And>s' f. (b, s', f) \<notin> set ys"
    by (force simp: bs)+
  have "regions h' = {(c + 32, t - 32) | c t. (c, t, False) \<in> set xs \<union> set ys}"
    unfolding seg_wf_regions [OF h'(2)] release_alloc ..
  also have "\<dots> = regions h - {(a, sz)}"
    unfolding seg_wf_regions [OF wf(1)] using nb b(1,2) by (auto simp: bs)
  finally show ?thesis
    using h' b \<open>32 \<le> s\<close> seg_wf_ok by auto
qed

subsection \<open>The contract of an allocator\<close>

datatype mem_op = Malloc nat | Free nat

text \<open>A sequence of calls, and when it is a legal one: every size is within the limit and every
  freed address is the start of a region that is live at that moment.\<close>

fun mem_run :: "('h \<Rightarrow> nat \<Rightarrow> (nat \<times> nat \<times> 'h) option) \<Rightarrow> ('h \<Rightarrow> nat \<Rightarrow> (nat \<times> 'h) option) \<Rightarrow>
  mem_op list \<Rightarrow> 'h \<Rightarrow> 'h option" where
  "mem_run alloc dealloc [] h = Some h"
| "mem_run alloc dealloc (Malloc n # ops) h =
     (case alloc h n of None \<Rightarrow> None | Some (_, _, h') \<Rightarrow> mem_run alloc dealloc ops h')"
| "mem_run alloc dealloc (Free a # ops) h =
     (case dealloc h a of None \<Rightarrow> None | Some (_, h') \<Rightarrow> mem_run alloc dealloc ops h')"

fun mem_legal :: "('h \<Rightarrow> nat \<Rightarrow> (nat \<times> nat \<times> 'h) option) \<Rightarrow> ('h \<Rightarrow> nat \<Rightarrow> (nat \<times> 'h) option) \<Rightarrow>
  ('h \<Rightarrow> (nat \<times> nat) set) \<Rightarrow> nat \<Rightarrow> mem_op list \<Rightarrow> 'h \<Rightarrow> bool" where
  "mem_legal alloc dealloc rgns lim [] h = True"
| "mem_legal alloc dealloc rgns lim (Malloc n # ops) h =
     (n < lim \<and> (case alloc h n of None \<Rightarrow> True | Some (_, _, h') \<Rightarrow> mem_legal alloc dealloc rgns lim ops h'))"
| "mem_legal alloc dealloc rgns lim (Free a # ops) h =
     (a \<in> fst ` rgns h \<and> (case dealloc h a of None \<Rightarrow> True | Some (_, h') \<Rightarrow> mem_legal alloc dealloc rgns lim ops h'))"

locale region_allocator =
  fixes ok :: "'h \<Rightarrow> bool" and rgns :: "'h \<Rightarrow> (nat \<times> nat) set"
    and alloc :: "'h \<Rightarrow> nat \<Rightarrow> (nat \<times> nat \<times> 'h) option" and dealloc :: "'h \<Rightarrow> nat \<Rightarrow> (nat \<times> 'h) option"
    and failed lim :: nat
  assumes alloc_spec: "ok h \<Longrightarrow> n < lim \<Longrightarrow>
      \<exists>a sz h'. alloc h n = Some (a, sz, h') \<and> ok h' \<and>
        (if a = failed then rgns h' = rgns h
         else n \<le> sz \<and> a \<notin> fst ` rgns h \<and> rgns h' = insert (a, sz) (rgns h))"
    and dealloc_live: "ok h \<Longrightarrow> (a, sz) \<in> rgns h \<Longrightarrow>
      \<exists>k h'. dealloc h a = Some (k, h') \<and> ok h' \<and> rgns h' \<in> {rgns h, rgns h - {(a, sz)}}"
    and live_separate: "ok h \<Longrightarrow> r \<in> rgns h \<Longrightarrow> q \<in> rgns h \<Longrightarrow> r \<noteq> q \<Longrightarrow> separate r q"
begin

lemma alloc_cases:
  assumes "ok h" "n < lim"
  obtains (full) sz h' where "alloc h n = Some (failed, sz, h')" "ok h'" "rgns h' = rgns h"
  | (fresh) a sz h' where "alloc h n = Some (a, sz, h')" "ok h'" "a \<noteq> failed" "n \<le> sz" "a \<notin> fst ` rgns h"
      "rgns h' = insert (a, sz) (rgns h)"
proof -
  obtain a sz h' where h': "alloc h n = Some (a, sz, h')" "ok h'"
    "if a = failed then rgns h' = rgns h
     else n \<le> sz \<and> a \<notin> fst ` rgns h \<and> rgns h' = insert (a, sz) (rgns h)"
    using alloc_spec [OF assms] by blast
  show ?thesis
  proof (cases "a = failed")
    case True
    with h' show ?thesis by (intro full [of sz h']) simp_all
  next
    case False
    with h' show ?thesis by (intro fresh [of a sz h']) auto
  qed
qed

text \<open>A new region overlaps no live region.\<close>

lemma alloc_fresh_separate:
  assumes "ok h" "n < lim" "alloc h n = Some (a, sz, h')" "a \<noteq> failed" "r \<in> rgns h"
  shows "separate (a, sz) r"
  using assms(1,2)
proof (cases rule: alloc_cases)
  case (full sz' h'')
  with assms(3,4) show ?thesis by simp
next
  case (fresh a' sz' h'')
  then have eq: "a' = a" "sz' = sz" "h'' = h'" using assms(3) by simp_all
  then have "(a, sz) \<noteq> r" using fresh(5) assms(5) by force
  with fresh eq assms(5) show ?thesis by (intro live_separate [of h']) auto
qed

text \<open>A legal sequence of calls never gets stuck, keeps the invariant, and leaves a live region
  where it is unless the sequence frees it.\<close>

lemma run_ok:
  assumes "ok h" "mem_legal alloc dealloc rgns lim ops h"
  shows "\<exists>h'. mem_run alloc dealloc ops h = Some h' \<and> ok h' \<and>
    (\<forall>(a, sz) \<in> rgns h. Free a \<notin> set ops \<longrightarrow> (a, sz) \<in> rgns h')"
  using assms
proof (induction ops arbitrary: h)
  case (Cons x ops)
  show ?case
  proof (cases x)
    case (Malloc n)
    then have "n < lim" using Cons.prems by simp
    with Cons.prems(1) show ?thesis
    proof (cases rule: alloc_cases)
      case (full sz h')
      with Cons.IH [of h'] Cons.prems Malloc show ?thesis by auto
    next
      case (fresh a sz h')
      with Cons.IH [of h'] Cons.prems Malloc show ?thesis by auto
    qed
  next
    case (Free a)
    then obtain sz where live: "(a, sz) \<in> rgns h" using Cons.prems by auto
    then obtain k h' where h': "dealloc h a = Some (k, h')" "ok h'" "rgns h' \<in> {rgns h, rgns h - {(a, sz)}}"
      using dealloc_live Cons.prems(1) by blast
    then have "(b, t) \<in> rgns h'" if "(b, t) \<in> rgns h" "b \<noteq> a" for b t
      using that by auto
    with Cons.IH [of h'] Cons.prems Free h'(1,2) show ?thesis by fastforce
  qed
qed simp

end

interpretation seg: region_allocator seg_ok regions
  "\<lambda>h n. sma_allocate h n MINBLOCKSIZE 0" sma_deallocate SIZE_MAX "2 ^ 64 - 40"
proof unfold_locales
  show "\<exists>a sz h'. sma_allocate h n MINBLOCKSIZE 0 = Some (a, sz, h') \<and> seg_ok h' \<and>
      (if a = SIZE_MAX then regions h' = regions h
       else n \<le> sz \<and> a \<notin> fst ` regions h \<and> regions h' = insert (a, sz) (regions h))"
    if "seg_ok h" "n < 2 ^ 64 - 40" for h n
    using allocate_region [OF that, of 0] allocate_full [OF that, of 0] that(1) by (cases "fits h n") auto
  show "\<exists>k h'. sma_deallocate h a = Some (k, h') \<and> seg_ok h' \<and> regions h' \<in> {regions h, regions h - {(a, sz)}}"
    if "seg_ok h" "(a, sz) \<in> regions h" for h a sz
    using deallocate_region [OF that] by auto
  show "separate r q" if "seg_ok h" "r \<in> regions h" "q \<in> regions h" "r \<noteq> q" for h r q
    using that by (rule regions_separate)
qed

subsection \<open>The report of the free list\<close>

lemma sma_info_links_dll:
  assumes "dll m p xs e" "fnext (m e) = 0" "0 \<notin> set (xs @ [e])"
  shows "sma_info_links m p acc = Some (acc @ map (\<lambda>b. (bsize (m b), b)) xs)"
  using assms(1,3)
proof (induction xs arbitrary: p acc)
  case Nil
  then have "fnext (m (fnext (m p))) = 0" using assms(2) by simp
  then show ?case by (subst sma_info_links.simps) simp
next
  case (Cons x xs)
  then have x: "fnext (m p) = x" "dll m x xs e" by auto
  then have "fnext (m x) \<noteq> 0"
    using Cons.prems by (intro dll_fnext_nz [of m x xs e]) auto
  then show ?case
    using Cons.IH [of x] Cons.prems x by (subst sma_info_links.simps) simp
qed

lemma seg_wf_info:
  assumes "seg_wf h bs fl"
  shows "sma_info_links (blk h) FIRST [] = Some (map (\<lambda>b. (bsize (blk h b), b)) fl)"
proof -
  have "0 \<notin> set (fl @ [LAST h])"
    using seg_wf_fl_bounds(1) [OF assms, of 0] seg_wf_LAST [OF assms] by auto
  then show ?thesis
    using assms sma_info_links_dll [of "blk h" FIRST fl "LAST h" "[]"] by (simp add: seg_wf_def)
qed

lemma free_total_sum:
  "distinct (map fst bs) \<Longrightarrow> \<forall>(b, s, f) \<in> set bs. bsize (m b) = s \<Longrightarrow>
    free_total bs = (\<Sum>b \<in> free_offsets bs. bsize (m b))"
proof (induction bs)
  case (Cons x bs)
  obtain b s f where x: "x = (b, s, f)" by (cases x)
  have "b \<notin> free_offsets bs" using Cons.prems x free_offsets_subset [of bs] by auto
  moreover have "finite (free_offsets bs)"
    by (rule finite_subset [OF free_offsets_subset]) simp
  ultimately show ?case using Cons x by auto
qed simp

lemma seg_wf_fl_total:
  assumes "seg_wf h bs fl"
  shows "sum_list (map (\<lambda>b. bsize (blk h b)) fl) = free_total bs"
proof -
  have "distinct fl" "set fl = free_offsets bs" "distinct (map fst bs)"
    using assms by (auto simp: seg_wf_def dest: tiles_distinct)
  moreover have "\<forall>(b, s, f) \<in> set bs. bsize (blk h b) = s"
    using seg_wf_bounds(5) [OF assms] by auto
  ultimately show ?thesis
    using free_total_sum [of bs "blk h"] by (simp add: sum_list_distinct_conv_sum_set)
qed

subsection \<open>Allocate, then free\<close>

lemma release_carve:
  assumes "seg_wf h (xs @ (b, s, True) # ys) fl" "r \<le> s"
    and "carve r b s @ ys = (b, t, False) # zs"
  shows "release xs b t zs = xs @ (b, s, True) # ys"
proof -
  note a = seg_wf_around [OF assms(1)]
  have "xs = [] \<or> \<not> snd (snd (last xs))"
    using a(1,5) last_free_0 [OF a(1)] by (cases xs rule: rev_cases) auto
  then have jp: "join_prev xs b t = (xs, b, t)" by (auto simp: join_prev_def)
  have "32 \<le> s" using seg_wf_bounds(3) [OF assms(1), of b s True] by simp
  then have "ys = [] \<or> \<not> snd (snd (hd ys))" using a(4) by (cases ys) auto
  then have "join_next t zs = (s, ys)"
    using assms(2,3) by (auto simp: join_next_def carve_def split: if_splits)
  with jp show ?thesis by (simp add: release_def)
qed

lemma allocate_release:
  assumes "seg_ok h" "n < 2 ^ 64 - 40" "fits h n"
  shows "\<exists>a sz h' h''. sma_allocate h n MINBLOCKSIZE al = Some (a, sz, h') \<and>
    sma_deallocate h' a = Some (sz + 32, h'') \<and> seg_ok h'' \<and> seg_blocks h'' = seg_blocks h \<and> avail h'' = avail h"
proof -
  obtain bs fl where wf: "seg_wf h bs fl" "seg_blocks h = bs" using assms(1) by (rule seg_okE)
  define r where "r = ALIGNWORD (n + 32)"
  obtain b0 s0 where "(b0, s0, True) \<in> set bs" "r \<le> s0"
    using assms(3) by (auto simp: fits_def wf r_def)
  from sma_allocate_succeeds [OF wf(1) assms(2) r_def this, of al]
  obtain xs b s ys h' fl' where bs: "bs = xs @ (b, s, True) # ys" and rs: "r \<le> s"
    and eq: "sma_allocate h n MINBLOCKSIZE al = Some (b + 32, (if s < r + 80 then s else r) - 32, h')"
    and wf': "seg_wf h' (xs @ carve r b s @ ys) fl'" and sg: "segsize h' = segsize h"
    by auto
  define t where "t = (if s < r + 80 then s else r)"
  obtain zs where zs: "carve r b s @ ys = (b, t, False) # zs"
    by (cases "s < r + 80") (simp_all add: carve_def t_def)
  have t: "32 \<le> t" using wf' seg_wf_bounds(3) [OF wf', of b t False] by (simp add: zs)
  obtain h'' fl'' where h'': "sma_deallocate h' (b + 32) = Some (t, h'')" "seg_wf h'' (release xs b t zs) fl''"
    using sma_deallocate_ok [OF wf' [unfolded zs]] by auto
  have rel: "release xs b t zs = bs"
    unfolding bs by (rule release_carve [OF wf(1) [unfolded bs] rs zs])
  have "avail h'' = avail h"
    using h''(2) wf(1) by (simp add: rel seg_wf_def)
  then show ?thesis
    using eq h'' t seg_wf_ok [OF h''(2)] seg_wf_blocks [OF h''(2)] wf(2) unfolding t_def [symmetric] rel by auto
qed

subsection \<open>Properties of a segment\<close>

text \<open>C26: On a well-formed segment and for a request that does not wrap around, allocation
  succeeds exactly when some free block is large enough. It then returns the offset of a region of
  at least the requested size that overlaps no live region, adds exactly this region to the live
  ones, keeps the segment well formed and lowers \<^verbatim>\<open>avail\<close> by the bytes taken. Otherwise it
  returns \<open>SIZE_MAX\<close> and changes nothing.\<close>

theorem sma_allocate_correct:
  assumes "seg_ok h" "n < 2 ^ 64 - 40"
  shows "\<exists>a sz h'. sma_allocate h n MINBLOCKSIZE al = Some (a, sz, h') \<and>
    (if fits h n
     then a \<noteq> SIZE_MAX \<and> n \<le> sz \<and> seg_ok h' \<and> regions h' = insert (a, sz) (regions h) \<and>
       (\<forall>q \<in> regions h. separate (a, sz) q) \<and> avail h' + (sz + 32) = avail h \<and> segsize h' = segsize h
     else a = SIZE_MAX \<and> sz = al \<and> h' = h)"
proof (cases "fits h n")
  case True
  obtain a sz h' where e: "sma_allocate h n MINBLOCKSIZE al = Some (a, sz, h')" and h': "seg_ok h'" "a \<notin> fst ` regions h"
    "segsize h' = segsize h" "a \<noteq> SIZE_MAX" "n \<le> sz" "regions h' = insert (a, sz) (regions h)" "avail h' + (sz + 32) = avail h"
    using allocate_region [OF assms True] by blast
  have "separate (a, sz) q" if "q \<in> regions h" for q
    using that h'(2,6) by (intro regions_separate [OF h'(1)]) force+
  with True e h' show ?thesis by auto
next
  case False
  then show ?thesis using allocate_full [OF assms] by simp
qed

text \<open>The segments the witnesses use: a fresh one of 4096 bytes.\<close>

definition sample_segment :: shm_segment where
  "sample_segment = sma_init_segment 4096 (\<lambda>_. \<lparr>bsize = 0, prev_size = 0, fnext = 0, fprev = 0\<rparr>)"

lemma sample_segment_wf: "seg_wf sample_segment [(1136, 2896, True)] [1136]"
  using sma_init_segment_wf [of 4096] by (simp add: sample_segment_def)

lemma sample_segment_ok: "seg_ok sample_segment"
  by (rule seg_wf_ok [OF sample_segment_wf])

lemma sample_segment_fits: "n < 2000 \<Longrightarrow> fits sample_segment n"
  using ALIGNWORD_bounds [of "n + 32"] by (simp add: fits_def seg_wf_blocks [OF sample_segment_wf])

lemma sample_segment_regions: "regions sample_segment = {}"
  by (simp add: seg_wf_regions [OF sample_segment_wf])

theorem sma_allocate_correct_witness:
  "seg_ok sample_segment \<and> (100::nat) < 2 ^ 64 - 40 \<and>
   (\<exists>a sz h'. sma_allocate sample_segment 100 MINBLOCKSIZE 0 = Some (a, sz, h') \<and> seg_ok h' \<and>
      100 \<le> sz \<and> regions h' = {(a, sz)})"
proof -
  have "\<exists>a sz h'. sma_allocate sample_segment 100 MINBLOCKSIZE 0 = Some (a, sz, h') \<and> seg_ok h' \<and>
      100 \<le> sz \<and> regions h' = {(a, sz)}"
    using sma_allocate_correct [OF sample_segment_ok, of 100 0] sample_segment_fits [of 100]
    by (auto simp: sample_segment_regions)
  then show ?thesis by (simp add: sample_segment_ok)
qed

text \<open>C27: Freeing a live region of a well-formed segment never fails an assertion, removes exactly
  this region from the live ones, keeps the segment well formed (so neighbouring free blocks have
  been merged and the free list holds exactly the free blocks) and gives its bytes back.\<close>

theorem sma_deallocate_correct:
  assumes "seg_ok h" "(a, sz) \<in> regions h"
  shows "\<exists>h'. sma_deallocate h a = Some (sz + 32, h') \<and> seg_ok h' \<and> segsize h' = segsize h \<and>
    regions h' = regions h - {(a, sz)} \<and> avail h' = avail h + (sz + 32) \<and> avail h' = free_bytes h' + 32"
proof -
  obtain h' where h': "sma_deallocate h a = Some (sz + 32, h')" "seg_ok h'" "segsize h' = segsize h"
    "regions h' = regions h - {(a, sz)}" "avail h' = avail h + (sz + 32)"
    using deallocate_region [OF assms] by blast
  from h'(2) have "avail h' = free_bytes h' + 32"
    by (rule seg_okE) (rule seg_wf_free_bytes)
  with h' show ?thesis by simp
qed

text \<open>A segment with one live region, for the witnesses.\<close>

lemma sample_segment_live:
  "\<exists>a sz h. sma_allocate sample_segment 100 MINBLOCKSIZE 0 = Some (a, sz, h) \<and> seg_ok h \<and> (a, sz) \<in> regions h"
  using allocate_region [OF sample_segment_ok _ sample_segment_fits, of 100 0] by auto

theorem sma_deallocate_correct_witness:
  "\<exists>h a sz h'. seg_ok h \<and> (a, sz) \<in> regions h \<and> sma_deallocate h a = Some (sz + 32, h') \<and> seg_ok h' \<and>
     (a, sz) \<notin> regions h'"
proof -
  obtain a sz h where h: "seg_ok h" "(a, sz) \<in> regions h" using sample_segment_live by blast
  from sma_deallocate_correct [OF h] h show ?thesis by blast
qed

text \<open>Freeing what was just allocated restores the block structure and the byte count exactly:
  the two parts of a split block are joined again.\<close>

theorem sma_allocate_deallocate:
  assumes "seg_ok h" "n < 2 ^ 64 - 40" "fits h n"
  shows "\<exists>a sz h' h''. sma_allocate h n MINBLOCKSIZE al = Some (a, sz, h') \<and>
    sma_deallocate h' a = Some (sz + 32, h'') \<and> seg_ok h'' \<and> seg_blocks h'' = seg_blocks h \<and> avail h'' = avail h"
  by (rule allocate_release [OF assms])

theorem sma_allocate_deallocate_witness:
  "seg_ok sample_segment \<and> fits sample_segment 100 \<and>
   (\<exists>a sz h' h''. sma_allocate sample_segment 100 MINBLOCKSIZE 0 = Some (a, sz, h') \<and>
      sma_deallocate h' a = Some (sz + 32, h'') \<and> seg_blocks h'' = [(1136, 2896, True)])"
proof -
  have "fits sample_segment 100" by (rule sample_segment_fits) simp
  moreover from this have "\<exists>a sz h' h''. sma_allocate sample_segment 100 MINBLOCKSIZE 0 = Some (a, sz, h') \<and>
      sma_deallocate h' a = Some (sz + 32, h'') \<and> seg_blocks h'' = [(1136, 2896, True)]"
    using sma_allocate_deallocate [OF sample_segment_ok, of 100 0] seg_wf_blocks [OF sample_segment_wf] by auto
  ultimately show ?thesis by (simp add: sample_segment_ok)
qed

text \<open>From a freshly formatted segment, every sequence of allocations and of releases of live
  regions runs to its end: no loop diverges, no assertion fails, the segment stays well formed, the
  live regions stay pairwise disjoint and inside the segment, and \<^verbatim>\<open>avail\<close> is at all times the
  number of free bytes plus one block header.\<close>

theorem segment_run_safe:
  assumes "1232 \<le> n" "n < 2 ^ 63"
    and "mem_legal (\<lambda>h n. sma_allocate h n MINBLOCKSIZE 0) sma_deallocate regions (2 ^ 64 - 40) ops (sma_init_segment n m)"
  shows "\<exists>h. mem_run (\<lambda>h n. sma_allocate h n MINBLOCKSIZE 0) sma_deallocate ops (sma_init_segment n m) = Some h \<and>
    seg_ok h \<and> avail h = free_bytes h + 32 \<and>
    (\<forall>r \<in> regions h. \<forall>q \<in> regions h. r \<noteq> q \<longrightarrow> separate r q) \<and>
    (\<forall>(a, sz) \<in> regions h. FIRST + 64 \<le> a \<and> a + sz + 64 \<le> segsize h \<and> 8 dvd a)"
proof -
  have "seg_ok (sma_init_segment n m)"
    by (rule seg_wf_ok [OF sma_init_segment_wf [OF assms(1,2)]])
  from seg.run_ok [OF this assms(3)] obtain h where
    h: "mem_run (\<lambda>h n. sma_allocate h n MINBLOCKSIZE 0) sma_deallocate ops (sma_init_segment n m) = Some h" "seg_ok h"
    by blast
  have "avail h = free_bytes h + 32"
    using h(2) by (rule seg_okE) (rule seg_wf_free_bytes)
  then show ?thesis
    using h regions_separate [OF h(2)] regions_bounds [OF h(2)] by (auto simp: layout_simps)
qed

lemma sample_legal:
  "mem_legal (\<lambda>h n. sma_allocate h n MINBLOCKSIZE 0) sma_deallocate regions (2 ^ 64 - 40) [Malloc 100, Malloc 5000] sample_segment"
  by (auto split: option.splits)

theorem segment_run_safe_witness:
  "\<exists>h. mem_run (\<lambda>h n. sma_allocate h n MINBLOCKSIZE 0) sma_deallocate [Malloc 100, Malloc 5000] sample_segment = Some h \<and>
    seg_ok h"
proof -
  have "(1232::nat) \<le> 4096" "(4096::nat) < 2 ^ 63" by simp_all
  from segment_run_safe [OF this sample_legal [unfolded sample_segment_def]]
  show ?thesis unfolding sample_segment_def by blast
qed

text \<open>The block that \<^verbatim>\<open>find_block\<close> takes is large enough, and no smaller block that is
  large enough is among the first fitting block and the three free blocks behind it.\<close>

theorem find_block_best_fit:
  assumes "seg_wf h bs fl" "0 < r" "\<exists>b \<in> set fl. r \<le> bsize (blk h b)"
  shows "\<exists>b. find_block h r = Some (Some b) \<and> b \<in> set fl \<and> r \<le> bsize (blk h b) \<and>
    (\<forall>y \<in> set (take (Suc BEST_FIT_LIMIT) (dropWhile (\<lambda>x. bsize (blk h x) < r) fl)).
       r \<le> bsize (blk h y) \<longrightarrow> bsize (blk h b) \<le> bsize (blk h y))"
  by (rule find_block_Some [OF assms])

lemma sample_segment_bsize: "bsize (blk sample_segment 1136) = 2896"
  using seg_wf_bounds(5) [OF sample_segment_wf, of 1136 2896 True] by simp

theorem find_block_best_fit_witness: "find_block sample_segment 132 = Some (Some 1136)"
  using find_block_best_fit [OF sample_segment_wf, of 132] sample_segment_bsize by auto

text \<open>The list that \<^verbatim>\<open>immutable_cache_sma_info\<close> builds for a segment reports every free
  block once, with its size and offset, and the reported sizes add up to the free bytes.\<close>

theorem sma_info_links_complete:
  assumes "seg_ok h"
  shows "\<exists>l. sma_info_links (blk h) FIRST [] = Some l \<and> distinct (map snd l) \<and>
    set l = {(s, b) | s b. (b, s, True) \<in> set (seg_blocks h)} \<and> sum_list (map fst l) = free_bytes h"
proof -
  obtain bs fl where wf: "seg_wf h bs fl" "seg_blocks h = bs" using assms by (rule seg_okE)
  let ?l = "map (\<lambda>b. (bsize (blk h b), b)) fl"
  have "map snd ?l = fl" by (simp add: comp_def)
  moreover have "set ?l = {(s, b) | s b. (b, s, True) \<in> set bs}"
  proof -
    have "(s, b) \<in> set ?l \<longleftrightarrow> (b, s, True) \<in> set bs" for s b
      using seg_wf_fl [OF wf(1), of b] seg_wf_bounds(5) [OF wf(1), of b s True] by auto
    then show ?thesis by auto
  qed
  moreover have "sum_list (map fst ?l) = free_total bs"
    by (simp add: comp_def) (rule seg_wf_fl_total [OF wf(1)])
  ultimately show ?thesis
    using seg_wf_info [OF wf(1)] wf by (simp add: free_bytes_def seg_wf_def)
qed

theorem sma_info_links_complete_witness:
  "seg_ok sample_segment \<and> (\<exists>l. sma_info_links (blk sample_segment) FIRST [] = Some l \<and> set l = {(2896, 1136)})"
  using sma_info_links_complete [OF sample_segment_ok] sample_segment_ok seg_wf_blocks [OF sample_segment_wf] by auto

end
