(* ===== verification/Sma.thy ===== *)
theory Sma
  imports Locks Sma_Spec
begin

text \<open>
  The shared-memory allocator over several segments, \<^verbatim>\<open>immutable_cache_sma.c\<close>:
  \<^verbatim>\<open>immutable_cache_sma_init\<close> with \<^verbatim>\<open>immutable_cache_mmap\<close>, \<^verbatim>\<open>malloc_ex\<close>,
  \<^verbatim>\<open>free\<close>, \<^verbatim>\<open>info\<close> and the lock macros, and the memory protection of
  \<^verbatim>\<open>immutable_cache_cache.h\<close>.

  The state \<open>proc\<close> extends the process state of \<open>Locks\<close> by the allocator structure and
  the contents of the segments (\<open>hdrs\<close>). Segment \<open>sma_num\<close>, the last one, holds only the
  locks and is never protected. A store into a segment that is mapped read-only is the crash
  \<open>Segfault\<close>. The shown results cover every pattern of lock failures.
\<close>

subsection \<open>Data\<close>

record immutable_cache_segment_t =
  seg_size :: size_t
  shmaddr :: size_t

record immutable_cache_sma_t =
  initialized :: bool
  sma_num :: nat
  sma_size :: size_t
  sma_last :: nat
  segs :: "immutable_cache_segment_t list"

record proc = os +
  sma :: immutable_cache_sma_t
  hdrs :: "shm_segment list"

definition DEFAULT_NUMSEG :: nat where
  "DEFAULT_NUMSEG = 1"

definition DEFAULT_SEGSIZE :: size_t where
  "DEFAULT_SEGSIZE = 30 * 1024 * 1024"

definition SMA_ADDR :: "'a proc_scheme \<Rightarrow> nat \<Rightarrow> size_t" where
  "SMA_ADDR s i = shmaddr (segs (sma s) ! i)"

subsection \<open>Mapping memory\<close>

text \<open>What the operating system answers to the \<open>i\<close>-th mapping: \<^verbatim>\<open>mkstemp\<close> gives the
  rewritten template or fails, \<^verbatim>\<open>ftruncate\<close> succeeds or not, \<^verbatim>\<open>mmap\<close> gives an
  address or fails.\<close>

record mmap_env =
  mkstemp :: "nat \<Rightarrow> string \<Rightarrow> string option"
  ftruncate_ok :: "nat \<Rightarrow> bool"
  mmap_result :: "nat \<Rightarrow> size_t option"

text \<open>The result carries \<^verbatim>\<open>file_mask\<close>, which \<^verbatim>\<open>mkstemp\<close> overwrites.\<close>

definition immutable_cache_mmap ::
  "mmap_env \<Rightarrow> nat \<Rightarrow> string option \<Rightarrow> size_t \<Rightarrow> crash + (immutable_cache_segment_t \<times> string option)" where
  "immutable_cache_mmap env i file_mask n =
     ebind
       (case file_mask of
          None \<Rightarrow> Inr file_mask
        | Some m \<Rightarrow>
            if m = [] then Inr file_mask
            else case mkstemp env i m of
                   None \<Rightarrow> Inl (CoreError ''immutable_cache_mmap: mkstemp failed'')
                 | Some m' \<Rightarrow>
                     if ftruncate_ok env i then Inr (Some m')
                     else Inl (CoreError ''immutable_cache_mmap: ftruncate failed''))
       (\<lambda>fmask. case mmap_result env i of
                 None \<Rightarrow> Inl (CoreError ''immutable_cache_mmap: Failed to mmap'')
               | Some a \<Rightarrow> Inr (\<lparr>seg_size = n, shmaddr = a\<rparr>, fmask))"

text \<open>\<^verbatim>\<open>memcpy(&mask[strlen(mask)-6], "XXXXXX", 6)\<close>\<close>

definition restore_mask :: "string option \<Rightarrow> crash + string option" where
  "restore_mask fmask =
     (case fmask of
        None \<Rightarrow> Inl BadAccess
      | Some m \<Rightarrow> if length m < 6 then Inl BadAccess else Inr (Some (take (length m - 6) m @ ''XXXXXX'')))"

text \<open>The loop over the segments; \<open>raw i\<close> is what the fresh mapping contains.\<close>

fun sma_init_segs ::
  "mmap_env \<Rightarrow> (nat \<Rightarrow> nat \<Rightarrow> block_t) \<Rightarrow> nat \<Rightarrow> size_t \<Rightarrow> nat \<Rightarrow> nat \<Rightarrow> string option \<Rightarrow>
   crash + (immutable_cache_segment_t list \<times> shm_segment list)" where
  "sma_init_segs env raw num sz i 0 fmask = Inr ([], [])"
| "sma_init_segs env raw num sz i (Suc k) fmask =
     (let segment_size = (if i < num then sz else 65536)
      in ebind (immutable_cache_mmap env i fmask segment_size) (\<lambda>(seg, fmask).
         ebind (if num \<noteq> 1 then restore_mask fmask else Inr fmask) (\<lambda>fmask.
         ebind (sma_init_segs env raw num sz (Suc i) k fmask) (\<lambda>(ss, hs).
           Inr (seg\<lparr>seg_size := segment_size\<rparr> # ss, sma_init_segment segment_size (raw i) # hs)))))"

definition immutable_cache_sma_init ::
  "mmap_env \<Rightarrow> (nat \<Rightarrow> nat \<Rightarrow> block_t) \<Rightarrow> int \<Rightarrow> size_t \<Rightarrow> string option \<Rightarrow> 'a proc_scheme \<Rightarrow> crash + 'a proc_scheme" where
  "immutable_cache_sma_init env raw n sz fmask s =
     (if initialized (sma s) then Inr s
      else (let num = (if fmask = None \<or> fmask = Some [] \<or> fmask = Some ''/dev/zero'' then 1
                       else if n > 0 then nat n else DEFAULT_NUMSEG);
                sz = (if sz > 0 then sz else DEFAULT_SEGSIZE)
            in ebind (sma_init_segs env raw num sz 0 (num + 1) fmask) (\<lambda>(ss, hs).
                 Inr (s\<lparr>sma := (sma s)\<lparr>initialized := True, sma_num := num, sma_size := sz, segs := ss\<rparr>,
                        hdrs := hs, writable := (\<lambda>_. True)\<rparr>))))"

text \<open>Detaching unmaps every segment; a failing \<^verbatim>\<open>munmap\<close> only warns.\<close>

definition immutable_cache_unmap :: "bool \<Rightarrow> 'a proc_scheme \<Rightarrow> 'a proc_scheme" where
  "immutable_cache_unmap ok s = (if ok then s else immutable_cache_warning ''immutable_cache_unmap: munmap failed'' s)"

definition immutable_cache_sma_detach :: "(nat \<Rightarrow> bool) \<Rightarrow> 'a proc_scheme \<Rightarrow> crash + 'a proc_scheme" where
  "immutable_cache_sma_detach munmap_ok s =
     (if \<not> initialized (sma s) then Inl AssertFailed
      else (let s = s\<lparr>sma := (sma s)\<lparr>initialized := False\<rparr>\<rparr>;
                s = fold (\<lambda>i. immutable_cache_unmap (munmap_ok i)) [0..<sma_num (sma s) + 1] s
            in Inr (s\<lparr>sma := (sma s)\<lparr>segs := []\<rparr>, hdrs := []\<rparr>)))"

subsection \<open>Protection and the lock macros\<close>

text \<open>\<^verbatim>\<open>mprotect\<close> on the data segments.\<close>

definition immutable_cache_sma_protect_memory :: "bool \<Rightarrow> 'a proc_scheme \<Rightarrow> 'a proc_scheme" where
  "immutable_cache_sma_protect_memory protect s =
     (if \<not> protect_memory s then s
      else s\<lparr>writable := (\<lambda>i. if i < sma_num (sma s) then \<not> protect else writable s i)\<rparr>)"

text \<open>The argument \<^verbatim>\<open>last\<close> of the C functions is not used: the lock is the one of the segment
  behind the data segments.\<close>

definition SMA_LOCK :: "'a proc_scheme \<Rightarrow> bool \<times> 'a proc_scheme" where
  "SMA_LOCK s =
     (let (ok, s) = immutable_cache_lock_wlock (SmaLock (sma_num (sma s))) s
      in if \<not> ok then (False, s) else (True, immutable_cache_sma_protect_memory False s))"

definition SMA_UNLOCK :: "'a proc_scheme \<Rightarrow> 'a proc_scheme" where
  "SMA_UNLOCK s = WUNLOCK (SmaLock (sma_num (sma s))) (immutable_cache_sma_protect_memory True s)"

definition SMA_RLOCK :: "'a proc_scheme \<Rightarrow> bool \<times> 'a proc_scheme" where
  "SMA_RLOCK s = immutable_cache_lock_rlock (SmaLock (sma_num (sma s))) s"

definition SMA_RUNLOCK :: "'a proc_scheme \<Rightarrow> 'a proc_scheme" where
  "SMA_RUNLOCK s = RUNLOCK (SmaLock (sma_num (sma s))) s"

definition immutable_cache_sma_lookup_fine_grained_lock ::
  "'a proc_scheme \<Rightarrow> 64 word \<Rightarrow> immutable_cache_lock_t" where
  "immutable_cache_sma_lookup_fine_grained_lock s key_hash =
     FineLock (sma_num (sma s))
       (unat (and key_hash (of_nat (IMMUTABLE_CACHE_CACHE_FINE_GRAINED_LOCK_COUNT - 1))))"

subsection \<open>Allocation\<close>

text \<open>A store into the headers of segment \<open>i\<close>.\<close>

definition write_hdr :: "nat \<Rightarrow> shm_segment \<Rightarrow> 'a proc_scheme \<Rightarrow> crash + 'a proc_scheme" where
  "write_hdr i h s = (if writable s i then Inr (s\<lparr>hdrs := (hdrs s)[i := h]\<rparr>) else Inl Segfault)"

datatype attempt = LockFailed | NoBlock | Got size_t size_t

text \<open>One attempt under the lock; \<open>upd\<close>: also remember the segment in \<^verbatim>\<open>sma->last\<close>.\<close>

definition malloc_attempt ::
  "bool \<Rightarrow> nat \<Rightarrow> size_t \<Rightarrow> 'a proc_scheme \<Rightarrow> crash + (attempt \<times> 'a proc_scheme)" where
  "malloc_attempt upd i n s =
     (let (ok, s) = SMA_LOCK s
      in if \<not> ok then Inr (LockFailed, s)
         else case sma_allocate (hdrs s ! i) n MINBLOCKSIZE 0 of
                None \<Rightarrow> Inl Diverges
              | Some (off, allocated, h) \<Rightarrow>
                  if off \<noteq> SIZE_MAX
                  then ebind (write_hdr i h s) (\<lambda>s.
                         let p = SMA_ADDR s i + off;
                             s = (if upd then s\<lparr>sma := (sma s)\<lparr>sma_last := i\<rparr>\<rparr> else s)
                         in Inr (Got p allocated, SMA_UNLOCK s))
                  else Inr (NoBlock, SMA_UNLOCK s))"

fun malloc_others ::
  "nat list \<Rightarrow> nat \<Rightarrow> size_t \<Rightarrow> size_t \<Rightarrow> 'a proc_scheme \<Rightarrow> crash + (size_t \<times> size_t \<times> 'a proc_scheme)" where
  "malloc_others [] lst n allocated s = Inr (0, allocated, s)"
| "malloc_others (i # is) lst n allocated s =
     (if i = lst then malloc_others is lst n allocated s
      else ebind (malloc_attempt True i n s) (\<lambda>(r, s).
        case r of LockFailed \<Rightarrow> Inr (0, allocated, s)
        | Got p sz \<Rightarrow> Inr (p, sz, s)
        | NoBlock \<Rightarrow> malloc_others is lst n allocated s))"

text \<open>The result is the pointer (\<open>0\<close>: \<^verbatim>\<open>NULL\<close>), the value behind \<^verbatim>\<open>allocated\<close> and
  the state.\<close>

definition immutable_cache_sma_malloc_ex ::
  "'a proc_scheme \<Rightarrow> size_t \<Rightarrow> size_t \<Rightarrow> crash + (size_t \<times> size_t \<times> 'a proc_scheme)" where
  "immutable_cache_sma_malloc_ex s n allocated =
     (let lst = sma_last (sma s)
      in if \<not> initialized (sma s) then Inl AssertFailed
         else ebind (malloc_attempt False lst n s) (\<lambda>(r, s).
           case r of LockFailed \<Rightarrow> Inr (0, allocated, s)
           | Got p sz \<Rightarrow> Inr (p, sz, s)
           | NoBlock \<Rightarrow> malloc_others [0..<sma_num (sma s)] lst n allocated s))"

definition immutable_cache_sma_malloc :: "'a proc_scheme \<Rightarrow> size_t \<Rightarrow> crash + (size_t \<times> 'a proc_scheme)" where
  "immutable_cache_sma_malloc s n =
     ebind (immutable_cache_sma_malloc_ex s n 0) (\<lambda>(p, allocated, s). Inr (p, s))"

subsection \<open>Release\<close>

fun free_in :: "nat list \<Rightarrow> size_t \<Rightarrow> 'a proc_scheme \<Rightarrow> crash + 'a proc_scheme" where
  "free_in [] p s = Inl (CoreError ''immutable_cache_sma_free: could not locate address'')"
| "free_in (i # is) p s =
     (let offset = size_sub p (SMA_ADDR s i)
      in if p \<ge> SMA_ADDR s i \<and> offset < sma_size (sma s)
         then (let (ok, s) = SMA_LOCK s
               in if \<not> ok then Inr s
                  else case sma_deallocate (hdrs s ! i) offset of
                         None \<Rightarrow> Inl AssertFailed
                       | Some (sz, h) \<Rightarrow> ebind (write_hdr i h s) (\<lambda>s. Inr (SMA_UNLOCK s)))
         else free_in is p s)"

definition immutable_cache_sma_free :: "'a proc_scheme \<Rightarrow> size_t \<Rightarrow> crash + 'a proc_scheme" where
  "immutable_cache_sma_free s p =
     (if p = 0 then Inr s
      else if \<not> initialized (sma s) then Inl AssertFailed
      else free_in [0..<sma_num (sma s)] p s)"

subsection \<open>Reports\<close>

record immutable_cache_sma_info_t =
  num_seg :: nat
  info_seg_size :: size_t
  info_list :: "(size_t \<times> size_t) list list"

text \<open>The loop over the segments: neither call looks at the result of the lock.\<close>

fun sma_info_segs :: "nat list \<Rightarrow> 'a proc_scheme \<Rightarrow> crash + ((size_t \<times> size_t) list list \<times> 'a proc_scheme)" where
  "sma_info_segs [] s = Inr ([], s)"
| "sma_info_segs (i # is) s =
     (let s = snd (SMA_LOCK s)
      in case sma_info_links (blk (hdrs s ! i)) (ALIGNWORD sizeof_sma_header_t) [] of
           None \<Rightarrow> Inl Diverges
         | Some l \<Rightarrow> ebind (sma_info_segs is (SMA_UNLOCK s)) (\<lambda>(ls, s). Inr (l # ls, s)))"

definition immutable_cache_sma_info ::
  "'a proc_scheme \<Rightarrow> bool \<Rightarrow> crash + (immutable_cache_sma_info_t option \<times> 'a proc_scheme)" where
  "immutable_cache_sma_info s limited =
     (if \<not> initialized (sma s) then Inr (None, s)
      else (let n = sma_num (sma s);
                sz = size_sub (sma_size (sma s))
                       (size_add (size_add (ALIGNWORD sizeof_sma_header_t) (ALIGNWORD sizeof_block_t)) (ALIGNWORD sizeof_block_t));
                info = \<lparr>num_seg = n, info_seg_size = sz, info_list = replicate n []\<rparr>
            in if limited then Inr (Some info, s)
               else ebind (sma_info_segs [0..<n] s) (\<lambda>(ls, s). Inr (Some (info\<lparr>info_list := ls\<rparr>), s))))"

definition immutable_cache_sma_get_avail_mem :: "'a proc_scheme \<Rightarrow> size_t" where
  "immutable_cache_sma_get_avail_mem s =
     fold (\<lambda>i avail_mem. size_add avail_mem (avail (hdrs s ! i))) [0..<sma_num (sma s)] 0"

definition immutable_cache_sma_get_avail_size :: "'a proc_scheme \<Rightarrow> size_t \<Rightarrow> bool" where
  "immutable_cache_sma_get_avail_size s n = (\<exists>i \<in> set [0..<sma_num (sma s)]. avail (hdrs s ! i) > n)"

definition immutable_cache_sma_contains_pointer :: "immutable_cache_sma_t \<Rightarrow> size_t \<Rightarrow> bool" where
  "immutable_cache_sma_contains_pointer m p =
     (\<exists>i \<in> set [0..<sma_num m]. p \<ge> shmaddr (segs m ! i) \<and> p < shmaddr (segs m ! i) + seg_size (segs m ! i))"

end
