(* ===== verification/Sma_Laws.thy ===== *)
theory Sma_Laws
  imports Sma
begin

text \<open>
  The laws of the multi-segment allocator: \<open>sma_wf\<close> is kept by every operation, allocation and
  release act on the live regions of all segments as the contract \<open>region_allocator\<close> asks,
  every path releases the locks it took and leaves the memory protected as it was, and no store
  hits a protected segment.
\<close>

subsection \<open>Invariant\<close>

definition segments_apart :: "'a proc_scheme \<Rightarrow> bool" where
  "segments_apart s \<longleftrightarrow>
     (\<forall>i < sma_num (sma s). 0 < SMA_ADDR s i \<and> 8 dvd SMA_ADDR s i \<and> SMA_ADDR s i + sma_size (sma s) < 2 ^ 64) \<and>
     (\<forall>i < sma_num (sma s). \<forall>j < sma_num (sma s). i \<noteq> j \<longrightarrow>
        separate (SMA_ADDR s i, sma_size (sma s)) (SMA_ADDR s j, sma_size (sma s)))"

definition sma_wf :: "'a proc_scheme \<Rightarrow> bool" where
  "sma_wf s \<longleftrightarrow>
     initialized (sma s) \<and> sma_last (sma s) < sma_num (sma s) \<and>
     length (segs (sma s)) = Suc (sma_num (sma s)) \<and> length (hdrs s) = Suc (sma_num (sma s)) \<and>
     (\<forall>i < sma_num (sma s). seg_ok (hdrs s ! i) \<and> segsize (hdrs s ! i) = sma_size (sma s) \<and>
        seg_size (segs (sma s) ! i) = sma_size (sma s)) \<and>
     segments_apart s \<and> (\<forall>i < sma_num (sma s). writable s i = (\<not> protect_memory s))"

text \<open>The live regions by address.\<close>

definition shifted :: "nat \<Rightarrow> (nat \<times> nat) set \<Rightarrow> (nat \<times> nat) set" where
  "shifted base R = (\<lambda>(a, n). (base + a, n)) ` R"

definition sma_regions :: "'a proc_scheme \<Rightarrow> (nat \<times> nat) set" where
  "sma_regions s = (\<Union>i < sma_num (sma s). shifted (SMA_ADDR s i) (regions (hdrs s ! i)))"

lemma sma_regionsE:
  assumes "(p, n) \<in> sma_regions s"
  obtains i a where "p = SMA_ADDR s i + a" "i < sma_num (sma s)" "(a, n) \<in> regions (hdrs s ! i)"
  using assms by (auto simp: sma_regions_def shifted_def)

lemma sma_regionsI:
  "i < sma_num (sma s) \<Longrightarrow> (a, n) \<in> regions (hdrs s ! i) \<Longrightarrow> (SMA_ADDR s i + a, n) \<in> sma_regions s"
  by (force simp: sma_regions_def shifted_def)

lemma os_more_proc:
  assumes "os.more s' = os.more s"
  shows "sma s' = sma s" "hdrs s' = hdrs s" "proc.more s' = proc.more s"
proof -
  obtain b r w l wa p e wr m h z where s: "s = \<lparr>blocked = b, held_r = r, held_w = w, lock_rc = l, warnings = wa,
      protect_memory = p, entry_level = e, writable = wr, sma = m, hdrs = h, \<dots> = z\<rparr>" by (cases s)
  obtain b' r' w' l' wa' p' e' wr' m' h' z' where s': "s' = \<lparr>blocked = b', held_r = r', held_w = w', lock_rc = l', warnings = wa',
      protect_memory = p', entry_level = e', writable = wr', sma = m', hdrs = h', \<dots> = z'\<rparr>" by (cases s')
  show "sma s' = sma s" "hdrs s' = hdrs s" "proc.more s' = proc.more s"
    using assms by (simp_all add: s s')
qed

lemma SMA_ADDR_cong: "segs (sma s') = segs (sma s) \<Longrightarrow> SMA_ADDR s' i = SMA_ADDR s i"
  by (simp add: SMA_ADDR_def)

text \<open>The invariant and the live regions depend on the allocator structure, the headers and the
  protection only.\<close>

lemma sma_wf_cong:
  assumes "sma_wf s" "initialized (sma s') = initialized (sma s)" "sma_num (sma s') = sma_num (sma s)"
    "sma_size (sma s') = sma_size (sma s)" "segs (sma s') = segs (sma s)" "sma_last (sma s') < sma_num (sma s')"
    "length (hdrs s') = length (hdrs s)" "same_os s s'"
    "\<And>i. i < sma_num (sma s) \<Longrightarrow> seg_ok (hdrs s' ! i) \<and> segsize (hdrs s' ! i) = sma_size (sma s)"
  shows "sma_wf s'"
  using assms unfolding sma_wf_def segments_apart_def same_os_def by (simp add: SMA_ADDR_cong [of s' s])

lemma sma_wf_keep:
  "sma_wf s \<Longrightarrow> sma s' = sma s \<Longrightarrow> hdrs s' = hdrs s \<Longrightarrow> same_os s s' \<Longrightarrow> sma_wf s'"
  by (rule sma_wf_cong [of s s']) (auto simp: sma_wf_def)

lemma sma_regions_keep: "sma s' = sma s \<Longrightarrow> hdrs s' = hdrs s \<Longrightarrow> sma_regions s' = sma_regions s"
  by (simp add: sma_regions_def SMA_ADDR_def)

lemma protect_keep [simp]:
  "sma (immutable_cache_sma_protect_memory b s) = sma s" "hdrs (immutable_cache_sma_protect_memory b s) = hdrs s"
  "proc.more (immutable_cache_sma_protect_memory b s) = proc.more s"
  "lock_rc (immutable_cache_sma_protect_memory b s) = lock_rc s"
  "protect_memory (immutable_cache_sma_protect_memory b s) = protect_memory s"
  "entry_level (immutable_cache_sma_protect_memory b s) = entry_level s"
  "blocked (immutable_cache_sma_protect_memory b s) = blocked s"
  "held_r (immutable_cache_sma_protect_memory b s) = held_r s"
  "held_w (immutable_cache_sma_protect_memory b s) = held_w s"
  by (simp_all add: immutable_cache_sma_protect_memory_def)

lemma protect_regions [simp]: "sma_regions (immutable_cache_sma_protect_memory b s) = sma_regions s"
  by (rule sma_regions_keep) simp_all

subsection \<open>Taking and releasing the lock\<close>

text \<open>The state between \<^verbatim>\<open>SMA_LOCK\<close> and \<^verbatim>\<open>SMA_UNLOCK\<close>.\<close>

definition locked_os :: "'a proc_scheme \<Rightarrow> 'a proc_scheme \<Rightarrow> bool" where
  "locked_os s t \<longleftrightarrow>
     (let L = SmaLock (sma_num (sma s))
      in blocked t = blocked s + 1 \<and> held_w t = (held_w s)(L := held_w s L + 1) \<and> held_r t = held_r s \<and>
         protect_memory t = protect_memory s \<and> entry_level t = entry_level s \<and>
         writable t = (\<lambda>i. i < sma_num (sma s) \<or> writable s i) \<and> (lock_rc s = [] \<longrightarrow> lock_rc t = []))"

lemma SMA_LOCK_cases:
  assumes "sma_wf s"
  obtains (fail) s' where "SMA_LOCK s = (False, s')" "same_os s s'" "sma s' = sma s" "hdrs s' = hdrs s"
      "proc.more s' = proc.more s" "lock_rc s \<noteq> []"
  | (ok) s' where "SMA_LOCK s = (True, s')" "locked_os s s'" "sma s' = sma s" "hdrs s' = hdrs s"
      "proc.more s' = proc.more s"
proof -
  note F = fail and K = ok
  show ?thesis
  proof (cases rule: wlock_cases [of "SmaLock (sma_num (sma s))" s])
    case (fail s')
    then show ?thesis
      using os_more_proc [OF fail(3)] by (intro F [of s']) (simp_all add: SMA_LOCK_def)
  next
    case (ok s')
    note more = os_more_proc [OF ok(8)]
    have "writable s i = (\<not> protect_memory s)" if "i < sma_num (sma s)" for i
      using assms that by (simp add: sma_wf_def)
    then have "locked_os s (immutable_cache_sma_protect_memory False s')"
      using ok more by (auto simp: locked_os_def immutable_cache_sma_protect_memory_def fun_eq_iff)
    with ok more show ?thesis
      by (intro K [of "immutable_cache_sma_protect_memory False s'"])
        (simp_all add: SMA_LOCK_def immutable_cache_sma_protect_memory_def)
  qed
qed

lemma SMA_UNLOCK_keep [simp]:
  "sma (SMA_UNLOCK s) = sma s" "hdrs (SMA_UNLOCK s) = hdrs s" "proc.more (SMA_UNLOCK s) = proc.more s"
  by (simp_all add: SMA_UNLOCK_def lock_defs immutable_cache_sma_protect_memory_def)

lemma SMA_UNLOCK_same:
  assumes "sma_wf s" "locked_os s t" "sma_num (sma t) = sma_num (sma s)"
  shows "same_os s (SMA_UNLOCK t)"
proof -
  have "writable s i = (\<not> protect_memory s)" if "i < sma_num (sma s)" for i
    using assms that by (simp add: sma_wf_def)
  with assms show ?thesis
    by (auto simp: same_os_def locked_os_def SMA_UNLOCK_def Let_def lock_defs immutable_cache_sma_protect_memory_def fun_eq_iff)
qed

subsection \<open>Regions across segments\<close>

lemma region_in_segment:
  assumes "sma_wf s" "i < sma_num (sma s)" "(a, n) \<in> regions (hdrs s ! i)"
  shows "1168 \<le> a" "a + n \<le> sma_size (sma s)"
  using regions_bounds [of "hdrs s ! i" a n] assms by (auto simp: sma_wf_def)

lemma sma_regions_separate:
  assumes "sma_wf s" "r \<in> sma_regions s" "q \<in> sma_regions s" "r \<noteq> q"
  shows "separate r q"
proof -
  obtain i a n j b m where r: "r = (SMA_ADDR s i + a, n)" "i < sma_num (sma s)" "(a, n) \<in> regions (hdrs s ! i)"
    and q: "q = (SMA_ADDR s j + b, m)" "j < sma_num (sma s)" "(b, m) \<in> regions (hdrs s ! j)"
    using assms(2,3) by (metis sma_regionsE surj_pair)
  note bnd = region_in_segment [OF assms(1) r(2,3)] region_in_segment [OF assms(1) q(2,3)]
  show ?thesis
  proof (cases "i = j")
    case True
    have "seg_ok (hdrs s ! i)" using assms(1) r(2) by (simp add: sma_wf_def)
    then have "separate (a, n) (b, m)"
      using r q assms(4) True by (intro regions_separate) auto
    with True r q show ?thesis by (simp add: separate_def)
  next
    case False
    then have "separate (SMA_ADDR s i, sma_size (sma s)) (SMA_ADDR s j, sma_size (sma s))"
      using assms(1) r(2) q(2) by (simp add: sma_wf_def segments_apart_def)
    with bnd r q show ?thesis by (auto simp: separate_def)
  qed
qed

lemma sma_regions_bounds:
  assumes "sma_wf s" "(p, n) \<in> sma_regions s"
  shows "0 < p" "p + n < 2 ^ 64" "8 dvd p"
proof -
  obtain i a where r: "p = SMA_ADDR s i + a" "i < sma_num (sma s)" "(a, n) \<in> regions (hdrs s ! i)"
    using assms(2) by (rule sma_regionsE)
  have ok: "seg_ok (hdrs s ! i)" and ap: "0 < SMA_ADDR s i" "8 dvd SMA_ADDR s i" "SMA_ADDR s i + sma_size (sma s) < 2 ^ 64"
    using assms(1) r(2) by (auto simp: sma_wf_def segments_apart_def)
  show "0 < p" "p + n < 2 ^ 64" "8 dvd p"
    using region_in_segment [OF assms(1) r(2,3)] regions_bounds(3) [OF ok r(3)] ap r(1) by auto
qed

text \<open>An address of a live region is found in its segment and in no other.\<close>

lemma region_segment_unique:
  assumes "sma_wf s" "i < sma_num (sma s)" "j < sma_num (sma s)" "a < sma_size (sma s)"
    and "SMA_ADDR s j \<le> SMA_ADDR s i + a" "SMA_ADDR s i + a < SMA_ADDR s j + sma_size (sma s)"
  shows "j = i"
proof (rule ccontr)
  assume "j \<noteq> i"
  then have "separate (SMA_ADDR s j, sma_size (sma s)) (SMA_ADDR s i, sma_size (sma s))"
    using assms(1-3) by (simp add: sma_wf_def segments_apart_def)
  with assms show False by (auto simp: separate_def)
qed

text \<open>Replacing the headers of one segment.\<close>

definition other_regions :: "'a proc_scheme \<Rightarrow> nat \<Rightarrow> (nat \<times> nat) set" where
  "other_regions s i = (\<Union>j \<in> {..<sma_num (sma s)} - {i}. shifted (SMA_ADDR s j) (regions (hdrs s ! j)))"

lemma sma_regions_split:
  assumes "i < sma_num (sma s)"
  shows "sma_regions s = shifted (SMA_ADDR s i) (regions (hdrs s ! i)) \<union> other_regions s i"
proof -
  have i: "i \<in> {..<sma_num (sma s)}" using assms by simp
  show ?thesis
    unfolding sma_regions_def other_regions_def
    using UN_insert [where a = i and A = "{..<sma_num (sma s)} - {i}"
        and B = "\<lambda>i. shifted (SMA_ADDR s i) (regions (hdrs s ! i))"]
    by (simp only: insert_Diff [OF i])
qed

lemma sma_regions_update:
  assumes "i < sma_num (sma s)" "length (hdrs s) = Suc (sma_num (sma s))" "segs (sma s') = segs (sma s)"
    "sma_num (sma s') = sma_num (sma s)" "hdrs s' = (hdrs s)[i := h]"
  shows "sma_regions s' = shifted (SMA_ADDR s i) (regions h) \<union> other_regions s i"
proof -
  have "other_regions s' i = other_regions s i"
    unfolding other_regions_def using assms by (intro SUP_cong) (auto simp: SMA_ADDR_cong [of s' s])
  moreover have "hdrs s' ! i = h" using assms by simp
  ultimately show ?thesis
    using sma_regions_split [of i s'] assms by (simp add: SMA_ADDR_cong [of s' s])
qed

lemma other_regions_apart:
  assumes "sma_wf s" "i < sma_num (sma s)" "a < sma_size (sma s)"
  shows "SMA_ADDR s i + a \<notin> fst ` other_regions s i"
proof
  assume "SMA_ADDR s i + a \<in> fst ` other_regions s i"
  then obtain j b n where j: "j < sma_num (sma s)" "j \<noteq> i" "(b, n) \<in> regions (hdrs s ! j)"
    "SMA_ADDR s i + a = SMA_ADDR s j + b"
    unfolding other_regions_def shifted_def by fastforce
  note bnd = region_in_segment [OF assms(1) j(1,3)]
  have "separate (SMA_ADDR s i, sma_size (sma s)) (SMA_ADDR s j, sma_size (sma s))"
    using assms(1,2) j(1,2) by (simp add: sma_wf_def segments_apart_def)
  moreover have "b < sma_size (sma s)"
    using bnd regions_bounds(2) [of "hdrs s ! j" b n] j assms(1) by (auto simp: sma_wf_def)
  ultimately show False using j(4) assms(3) by (auto simp: separate_def)
qed

subsection \<open>One attempt\<close>

text \<open>What every operation keeps.\<close>

definition kept :: "'a proc_scheme \<Rightarrow> 'a proc_scheme \<Rightarrow> bool" where
  "kept s s' \<longleftrightarrow> sma_wf s' \<and> same_os s s' \<and> proc.more s' = proc.more s \<and> segs (sma s') = segs (sma s) \<and>
     sma_num (sma s') = sma_num (sma s) \<and> sma_size (sma s') = sma_size (sma s)"

lemma kept_refl: "sma_wf s \<Longrightarrow> kept s s"
  by (simp add: kept_def)

lemma kept_trans: "kept s t \<Longrightarrow> kept t u \<Longrightarrow> kept s u"
  by (auto simp: kept_def intro: same_os_trans)

lemma keptI_same:
  "sma_wf s \<Longrightarrow> same_os s s' \<Longrightarrow> sma s' = sma s \<Longrightarrow> hdrs s' = hdrs s \<Longrightarrow> proc.more s' = proc.more s \<Longrightarrow> kept s s'"
  by (simp add: kept_def sma_wf_keep)

text \<open>A store of new headers under the lock, followed by the release of the lock.\<close>

lemma write_hdr_unlock:
  assumes wf: "sma_wf s" and t: "locked_os s t" "sma t = sma s" "hdrs t = hdrs s" "proc.more t = proc.more s"
    and i: "i < sma_num (sma s)" and h: "seg_ok h" "segsize h = segsize (hdrs s ! i)" and l: "l < sma_num (sma s)"
  shows "\<exists>u. write_hdr i h t = Inr u \<and> SMA_ADDR u i = SMA_ADDR s i \<and> sma u = sma s \<and>
    kept s (SMA_UNLOCK u) \<and> kept s (SMA_UNLOCK (u\<lparr>sma := (sma u)\<lparr>sma_last := l\<rparr>\<rparr>)) \<and>
    hdrs u = (hdrs s)[i := h]"
proof -
  let ?u = "t\<lparr>hdrs := (hdrs t)[i := h]\<rparr>" and ?n = "sma_num (sma s)"
  have w: "write_hdr i h t = Inr ?u" using t(1) i by (simp add: write_hdr_def locked_os_def Let_def)
  have lo: "locked_os s ?u" "locked_os s (?u\<lparr>sma := (sma ?u)\<lparr>sma_last := l\<rparr>\<rparr>)"
    using t(1) by (simp_all add: locked_os_def)
  have hd: "seg_ok ((hdrs s)[i := h] ! j) \<and> segsize ((hdrs s)[i := h] ! j) = sma_size (sma s)" if "j < ?n" for j
    using that wf h i by (cases "j = i") (auto simp: sma_wf_def)
  have k: "kept s v" if "same_os s v" "hdrs v = (hdrs s)[i := h]" "sma v = (sma s)\<lparr>sma_last := k\<rparr>" "k < ?n"
    "proc.more v = proc.more s" for v k
    using that wf hd by (auto simp: kept_def intro!: sma_wf_cong [OF wf, of v])
  have "sma s = (sma s)\<lparr>sma_last := sma_last (sma s)\<rparr>" "sma_last (sma s) < ?n"
    using wf by (simp_all add: sma_wf_def)
  then have "kept s (SMA_UNLOCK ?u)"
    using k [of "SMA_UNLOCK ?u" "sma_last (sma s)"] SMA_UNLOCK_same [OF wf lo(1)] t by simp
  moreover have "kept s (SMA_UNLOCK (?u\<lparr>sma := (sma ?u)\<lparr>sma_last := l\<rparr>\<rparr>))"
    using k [of "SMA_UNLOCK (?u\<lparr>sma := (sma ?u)\<lparr>sma_last := l\<rparr>\<rparr>)" l] SMA_UNLOCK_same [OF wf lo(2)] t l by simp
  ultimately show ?thesis using w t by (simp add: SMA_ADDR_def)
qed

lemma malloc_attempt_cases:
  assumes wf: "sma_wf s" and i: "i < sma_num (sma s)" and n: "n < 2 ^ 64 - 40"
  obtains (lock) s' where "malloc_attempt upd i n s = Inr (LockFailed, s')" "kept s s'" "sma_regions s' = sma_regions s"
      "lock_rc s \<noteq> []"
  | (none) s' where "malloc_attempt upd i n s = Inr (NoBlock, s')" "kept s s'" "hdrs s' = hdrs s" "\<not> fits (hdrs s ! i) n"
      "sma s' = sma s"
  | (got) p sz s' where "malloc_attempt upd i n s = Inr (Got p sz, s')" "kept s s'" "p \<noteq> 0" "n \<le> sz"
      "p \<notin> fst ` sma_regions s" "sma_regions s' = insert (p, sz) (sma_regions s)" "fits (hdrs s ! i) n"
      "\<forall>j < sma_num (sma s). leaves_room (hdrs s ! j) n (hdrs s' ! j)"
proof -
  note L = lock and N = none and G = got
  have sok: "seg_ok (hdrs s ! i)" using wf i by (simp add: sma_wf_def)
  show ?thesis
    using wf
  proof (cases rule: SMA_LOCK_cases)
    case (fail s')
    then show ?thesis
      using keptI_same [OF wf] sma_regions_keep [of s' s] by (intro L [of s']) (simp_all add: malloc_attempt_def)
  next
    case (ok t)
    show ?thesis
    proof (cases "fits (hdrs s ! i) n")
      case False
      with ok allocate_full [OF sok n False] keptI_same [OF wf SMA_UNLOCK_same [OF wf ok(2)]] show ?thesis
        by (intro N [of "SMA_UNLOCK t"]) (simp_all add: malloc_attempt_def)
    next
      case True
      obtain off sz h where a: "sma_allocate (hdrs s ! i) n MINBLOCKSIZE 0 = Some (off, sz, h)" "seg_ok h"
        "segsize h = segsize (hdrs s ! i)" "off \<noteq> SIZE_MAX" "n \<le> sz" "off \<notin> fst ` regions (hdrs s ! i)"
        "regions h = insert (off, sz) (regions (hdrs s ! i))" "leaves_room (hdrs s ! i) n h"
        using allocate_region [OF sok n True, of 0] by blast
      obtain u where u: "write_hdr i h t = Inr u" "SMA_ADDR u i = SMA_ADDR s i" "sma u = sma s" "kept s (SMA_UNLOCK u)"
        "kept s (SMA_UNLOCK (u\<lparr>sma := (sma u)\<lparr>sma_last := i\<rparr>\<rparr>))" "hdrs u = (hdrs s)[i := h]"
        using write_hdr_unlock [OF wf ok(2-5) i a(2,3) i] by blast
      define v where "v = SMA_UNLOCK (if upd then u\<lparr>sma := (sma u)\<lparr>sma_last := i\<rparr>\<rparr> else u)"
      have v: "kept s v" "hdrs v = (hdrs s)[i := h]" using u(4-6) by (simp_all add: v_def)
      have m: "malloc_attempt upd i n s = Inr (Got (SMA_ADDR s i + off) sz, v)"
        using ok a(1,4) u(1,2) by (simp add: malloc_attempt_def v_def Let_def)
      have len: "length (hdrs s) = Suc (sma_num (sma s))" using wf by (simp add: sma_wf_def)
      have "sma_regions v = insert (SMA_ADDR s i + off, sz) (sma_regions s)"
        using sma_regions_update [OF i len, of v h] v sma_regions_split [OF i] a(7) by (simp add: kept_def shifted_def)
      moreover have "off < sma_size (sma s)" "0 < SMA_ADDR s i"
        using regions_bounds [OF a(2), of off sz] a(3,7) wf i by (auto simp: sma_wf_def segments_apart_def)
      moreover have "SMA_ADDR s i + off \<notin> fst ` shifted (SMA_ADDR s i) (regions (hdrs s ! i))"
        using a(6) by (force simp: shifted_def)
      moreover have "\<forall>j < sma_num (sma s). leaves_room (hdrs s ! j) n (hdrs v ! j)"
        using a(8) len i v(2) by (auto simp: nth_list_update)
      ultimately show ?thesis
        using m v(1) a(5) True other_regions_apart [OF wf i, of off] sma_regions_split [OF i]
        by (intro G [of "SMA_ADDR s i + off" sz v]) auto
    qed
  qed
qed

subsection \<open>Allocation over all segments\<close>

text \<open>What a finished allocation has done: \<open>p = 0\<close> is a failure.\<close>

definition alloc_post :: "'a proc_scheme \<Rightarrow> size_t \<Rightarrow> size_t \<Rightarrow> size_t \<Rightarrow> 'a proc_scheme \<Rightarrow> bool" where
  "alloc_post s n p sz s' \<longleftrightarrow> kept s s' \<and>
     (if p = 0 then sma_regions s' = sma_regions s
      else n \<le> sz \<and> p \<notin> fst ` sma_regions s \<and> sma_regions s' = insert (p, sz) (sma_regions s) \<and>
        (\<forall>j < sma_num (sma s). leaves_room (hdrs s ! j) n (hdrs s' ! j)))"

lemma alloc_post_trans:
  assumes "kept s s'" "sma_regions s' = sma_regions s" "hdrs s' = hdrs s" "alloc_post s' n p sz u"
  shows "alloc_post s n p sz u"
proof -
  have "sma_num (sma s') = sma_num (sma s)" using assms(1) by (simp add: kept_def)
  with assms(4) kept_trans [OF assms(1), of u] show ?thesis unfolding alloc_post_def assms(2,3) by simp
qed

lemma malloc_others_ok:
  assumes "sma_wf s" "set is \<subseteq> {..<sma_num (sma s)}" "n < 2 ^ 64 - 40"
  shows "\<exists>p sz s'. malloc_others is lst n al s = Inr (p, sz, s') \<and> alloc_post s n p sz s' \<and>
    (p = 0 \<longrightarrow> lock_rc s = [] \<longrightarrow> (\<forall>i \<in> set is - {lst}. \<not> fits (hdrs s ! i) n))"
  using assms(1,2)
proof (induction "is" arbitrary: s)
  case Nil
  then show ?case by (simp add: alloc_post_def kept_refl)
next
  case (Cons i "is")
  have i: "i < sma_num (sma s)" using Cons.prems(2) by simp
  show ?case
  proof (cases "i = lst")
    case True
    obtain p sz s' where "malloc_others is lst n al s = Inr (p, sz, s')" "alloc_post s n p sz s'"
      "p = 0 \<longrightarrow> lock_rc s = [] \<longrightarrow> (\<forall>i \<in> set is - {lst}. \<not> fits (hdrs s ! i) n)"
      using Cons.IH [of s] Cons.prems by auto
    then show ?thesis using True by auto
  next
    case False
    show ?thesis
      using Cons.prems(1) i assms(3)
    proof (cases rule: malloc_attempt_cases [where upd = True])
      case (lock s')
      then show ?thesis using False by (auto simp: alloc_post_def)
    next
      case (none s')
      then have wf': "sma_wf s'" "set is \<subseteq> {..<sma_num (sma s')}"
        using Cons.prems(2) by (auto simp: kept_def)
      obtain p sz u where u: "malloc_others is lst n al s' = Inr (p, sz, u)" "alloc_post s' n p sz u"
        "p = 0 \<longrightarrow> lock_rc s' = [] \<longrightarrow> (\<forall>i \<in> set is - {lst}. \<not> fits (hdrs s' ! i) n)"
        using Cons.IH [OF wf'] by blast
      have "alloc_post s n p sz u"
        by (rule alloc_post_trans [OF none(2) sma_regions_keep [OF none(5,3)] none(3) u(2)])
      moreover have "lock_rc s = [] \<longrightarrow> lock_rc s' = []"
        using none(2) by (simp add: kept_def same_os_def)
      ultimately show ?thesis
        using u(1,3) none(1,3,4) False by auto
    next
      case (got p sz s')
      then show ?thesis using False by (auto simp: alloc_post_def)
    qed
  qed
qed

lemma malloc_ex_ok:
  assumes "sma_wf s" "n < 2 ^ 64 - 40"
  shows "\<exists>p sz s'. immutable_cache_sma_malloc_ex s n al = Inr (p, sz, s') \<and> alloc_post s n p sz s' \<and>
    (p = 0 \<longrightarrow> lock_rc s = [] \<longrightarrow> (\<forall>i < sma_num (sma s). \<not> fits (hdrs s ! i) n))"
proof -
  let ?l = "sma_last (sma s)"
  have l: "?l < sma_num (sma s)" "initialized (sma s)" using assms(1) by (simp_all add: sma_wf_def)
  show ?thesis
    using assms(1) l(1) assms(2)
  proof (cases rule: malloc_attempt_cases [where upd = False])
    case (lock s')
    then show ?thesis using l by (auto simp: immutable_cache_sma_malloc_ex_def alloc_post_def)
  next
    case (none s')
    then have wf': "sma_wf s'" "set [0..<sma_num (sma s)] \<subseteq> {..<sma_num (sma s')}"
      by (auto simp: kept_def)
    obtain p sz u where u: "malloc_others [0..<sma_num (sma s)] ?l n al s' = Inr (p, sz, u)" "alloc_post s' n p sz u"
      "p = 0 \<longrightarrow> lock_rc s' = [] \<longrightarrow> (\<forall>i \<in> set [0..<sma_num (sma s)] - {?l}. \<not> fits (hdrs s' ! i) n)"
      using malloc_others_ok [OF wf' assms(2)] by blast
    have "alloc_post s n p sz u"
      by (rule alloc_post_trans [OF none(2) sma_regions_keep [OF none(5,3)] none(3) u(2)])
    moreover have "lock_rc s = [] \<longrightarrow> lock_rc s' = []"
      using none(2) by (simp add: kept_def same_os_def)
    moreover have "\<not> fits (hdrs s ! i) n" if "p = 0" "lock_rc s' = []" "i < sma_num (sma s)" for i
      using u(3) that none(3,4) by (cases "i = ?l") auto
    ultimately show ?thesis
      using u(1) none(1,5) l by (auto simp: immutable_cache_sma_malloc_ex_def)
  next
    case (got p sz s')
    then show ?thesis using l by (auto simp: immutable_cache_sma_malloc_ex_def alloc_post_def)
  qed
qed

subsection \<open>Release\<close>

lemma free_in_ok:
  assumes wf: "sma_wf s" and "i < sma_num (sma s)" "(a, n) \<in> regions (hdrs s ! i)" "i \<in> set is" "set is \<subseteq> {..<sma_num (sma s)}"
  shows "\<exists>s'. free_in is (SMA_ADDR s i + a) s = Inr s' \<and> kept s s' \<and>
    (if lock_rc s = [] then sma_regions s' = sma_regions s - {(SMA_ADDR s i + a, n)}
     else sma_regions s' \<in> {sma_regions s, sma_regions s - {(SMA_ADDR s i + a, n)}})"
  using assms(4,5)
proof (induction "is")
  case (Cons j js)
  have bnd: "1168 \<le> a" "a < sma_size (sma s)" "SMA_ADDR s i + a < 2 ^ 64"
    and sok: "seg_ok (hdrs s ! i)"
    using regions_bounds [of "hdrs s ! i" a n] assms(2,3) wf by (auto simp: sma_wf_def segments_apart_def)
  show ?case
  proof (cases "j = i")
    case False
    have "\<not> (SMA_ADDR s j \<le> SMA_ADDR s i + a \<and> size_sub (SMA_ADDR s i + a) (SMA_ADDR s j) < sma_size (sma s))"
    proof
      assume *: "SMA_ADDR s j \<le> SMA_ADDR s i + a \<and> size_sub (SMA_ADDR s i + a) (SMA_ADDR s j) < sma_size (sma s)"
      then have "size_sub (SMA_ADDR s i + a) (SMA_ADDR s j) = SMA_ADDR s i + a - SMA_ADDR s j"
        using bnd(3) by (intro size_sub_exact) simp_all
      with * have "j = i"
        using Cons.prems(2) bnd by (intro region_segment_unique [OF wf assms(2), of j a]) auto
      with False show False by simp
    qed
    then have "free_in (j # js) (SMA_ADDR s i + a) s = free_in js (SMA_ADDR s i + a) s"
      by (auto simp: Let_def)
    moreover have "i \<in> set js" "set js \<subseteq> {..<sma_num (sma s)}" using Cons.prems False by auto
    ultimately show ?thesis using Cons.IH by (simp only:)
  next
    case True
    have off: "size_sub (SMA_ADDR s i + a) (SMA_ADDR s i) = a"
      using bnd size_sub_exact [of "SMA_ADDR s i" "SMA_ADDR s i + a"] by simp
    show ?thesis
      using wf
    proof (cases rule: SMA_LOCK_cases)
      case (fail s')
      then show ?thesis
        using True off bnd keptI_same [OF wf fail(2-5)] sma_regions_keep [OF fail(3,4)] by simp
    next
      case (ok t)
      obtain h where h: "sma_deallocate (hdrs s ! i) a = Some (n + 32, h)" "seg_ok h" "segsize h = segsize (hdrs s ! i)"
        "regions h = regions (hdrs s ! i) - {(a, n)}"
        using deallocate_region [OF sok assms(3)] by blast
      obtain u where u: "write_hdr i h t = Inr u" "kept s (SMA_UNLOCK u)" "hdrs u = (hdrs s)[i := h]"
        using write_hdr_unlock [OF wf ok(2-5) assms(2) h(2,3) assms(2)] by blast
      have len: "length (hdrs s) = Suc (sma_num (sma s))" using wf by (simp add: sma_wf_def)
      have "sma_regions (SMA_UNLOCK u) = shifted (SMA_ADDR s i) (regions h) \<union> other_regions s i"
        using sma_regions_update [OF assms(2) len, of "SMA_UNLOCK u" h] u by (simp add: kept_def)
      also have "\<dots> = sma_regions s - {(SMA_ADDR s i + a, n)}"
      proof -
        have "(SMA_ADDR s i + a, n) \<notin> other_regions s i"
          using other_regions_apart [OF wf assms(2) bnd(2)] by force
        then show ?thesis
          unfolding sma_regions_split [OF assms(2)] h(4) by (auto simp: shifted_def)
      qed
      finally show ?thesis
        using True off bnd ok h(1) u by simp
    qed
  qed
qed simp

lemma sma_free_ok:
  assumes "sma_wf s" "(p, n) \<in> sma_regions s"
  shows "\<exists>s'. immutable_cache_sma_free s p = Inr s' \<and> kept s s' \<and>
    (if lock_rc s = [] then sma_regions s' = sma_regions s - {(p, n)}
     else sma_regions s' \<in> {sma_regions s, sma_regions s - {(p, n)}})"
proof -
  obtain i a where p: "p = SMA_ADDR s i + a" "i < sma_num (sma s)" "(a, n) \<in> regions (hdrs s ! i)"
    using assms(2) by (rule sma_regionsE)
  have "p \<noteq> 0" "initialized (sma s)"
    using sma_regions_bounds [OF assms] assms(1) by (auto simp: sma_wf_def)
  then have "immutable_cache_sma_free s p = free_in [0..<sma_num (sma s)] p s"
    by (simp add: immutable_cache_sma_free_def)
  moreover have r: "i \<in> set [0..<sma_num (sma s)]" "set [0..<sma_num (sma s)] \<subseteq> {..<sma_num (sma s)}"
    using p(2) by auto
  ultimately show ?thesis
    using free_in_ok [OF assms(1) p(2,3) r] p(1) by (simp only:)
qed

subsection \<open>The allocator keeps the contract\<close>

definition sma_alloc_op :: "proc \<Rightarrow> size_t \<Rightarrow> (size_t \<times> size_t \<times> proc) option" where
  "sma_alloc_op s n = (case immutable_cache_sma_malloc_ex s n 0 of Inl _ \<Rightarrow> None | Inr r \<Rightarrow> Some r)"

definition sma_free_op :: "proc \<Rightarrow> size_t \<Rightarrow> (size_t \<times> proc) option" where
  "sma_free_op s p = (case immutable_cache_sma_free s p of Inl _ \<Rightarrow> None | Inr s' \<Rightarrow> Some (0, s'))"

interpretation shm: region_allocator sma_wf sma_regions sma_alloc_op sma_free_op 0 "2 ^ 64 - 40"
proof unfold_locales
  show "\<exists>a sz h'. sma_alloc_op h n = Some (a, sz, h') \<and> sma_wf h' \<and>
      (if a = 0 then sma_regions h' = sma_regions h
       else n \<le> sz \<and> a \<notin> fst ` sma_regions h \<and> sma_regions h' = insert (a, sz) (sma_regions h))"
    if h: "sma_wf h" "n < 2 ^ 64 - 40" for h :: proc and n
  proof -
    obtain p sz s' where "immutable_cache_sma_malloc_ex h n 0 = Inr (p, sz, s')" "alloc_post h n p sz s'"
      using malloc_ex_ok [OF h, of 0] by blast
    then show ?thesis
      by (intro exI [of _ p] exI [of _ sz] exI [of _ s']) (simp add: sma_alloc_op_def alloc_post_def kept_def)
  qed
  show "\<exists>k h'. sma_free_op h a = Some (k, h') \<and> sma_wf h' \<and> sma_regions h' \<in> {sma_regions h, sma_regions h - {(a, sz)}}"
    if h: "sma_wf h" "(a, sz) \<in> sma_regions h" for h :: proc and a sz
  proof -
    obtain s' where "immutable_cache_sma_free h a = Inr s'" "kept h s'"
      "sma_regions s' \<in> {sma_regions h, sma_regions h - {(a, sz)}}"
      using sma_free_ok [OF h] by (metis insertCI)
    then show ?thesis
      by (intro exI [of _ 0] exI [of _ s']) (simp add: sma_free_op_def kept_def)
  qed
  show "separate r q" if "sma_wf h" "r \<in> sma_regions h" "q \<in> sma_regions h" "r \<noteq> q" for h :: proc and r q
    using that by (rule sma_regions_separate)
qed

end
