(* ===== verification/Zend.thy ===== *)
theory Zend
  imports Sma_Laws
begin

unbundle bit_operations_syntax

text \<open>
  The data of the PHP engine the extension works on: zvals, strings and hash tables as cells of a
  heap, and the engine's own functions and layout constants as the parameter \<open>zend_abi\<close>. The
  engine is not part of the repository: what the extension relies on is stated by \<open>zend_ok\<close>.

  A heap maps addresses to objects, in request memory and in shared memory alike. \<open>rep H z v\<close>
  says that the zval \<open>z\<close> stands for the PHP value \<open>v\<close>, a tree without objects, resources
  and references.
\<close>

subsection \<open>Heap objects\<close>

type_synonym addr = nat
type_synonym zend_ulong = "64 word"

datatype zval =
    IS_UNDEF | IS_NULL | IS_FALSE | IS_TRUE | IS_LONG zend_ulong | IS_DOUBLE "64 word"
  | IS_STRING addr | IS_ARRAY addr | IS_OBJECT addr | IS_RESOURCE addr | IS_REFERENCE addr
  | IS_INDIRECT addr | IS_PTR addr

text \<open>\<open>immutable\<close> stands for the two flags \<^verbatim>\<open>GC_IMMUTABLE | GC_PERSISTENT\<close>.\<close>

record zend_string =
  str_refcount :: nat
  str_immutable :: bool
  zstr_h :: zend_ulong
  zstr_val :: string

record bucket =
  bval :: zval
  bh :: zend_ulong
  bkey :: "addr option"

datatype ht_data = Packed "zval list" | Buckets "bucket list"

record zend_array =
  ht_refcount :: nat
  ht_immutable :: bool
  ht_packed :: bool
  ht_static_keys :: bool
  ht_uninitialized :: bool
  ht_has_destructor :: bool
  nTableMask :: "32 word"
  nNumUsed :: nat
  nNumOfElements :: nat
  nInternalPointer :: "nat option"
  nNextFreeElement :: zend_ulong
  arData :: addr

text \<open>An entry of the cache, \<^verbatim>\<open>immutable_cache_cache_entry_t\<close>.\<close>

record immutable_cache_cache_entry_t =
  ekey :: addr
  eval :: zval
  enext :: addr
  enhits :: int
  ectime :: int
  eatime :: int
  emem_size :: int

datatype cell = CStr zend_string | CHt zend_array | CData ht_data | CEntry immutable_cache_cache_entry_t

type_synonym heap = "addr \<Rightarrow> cell option"

definition read_str :: "heap \<Rightarrow> addr \<Rightarrow> crash + zend_string" where
  "read_str H a = (case H a of Some (CStr s) \<Rightarrow> Inr s | _ \<Rightarrow> Inl BadAccess)"

definition read_ht :: "heap \<Rightarrow> addr \<Rightarrow> crash + zend_array" where
  "read_ht H a = (case H a of Some (CHt t) \<Rightarrow> Inr t | _ \<Rightarrow> Inl BadAccess)"

definition read_packed :: "heap \<Rightarrow> addr \<Rightarrow> crash + zval list" where
  "read_packed H a = (case H a of Some (CData (Packed zs)) \<Rightarrow> Inr zs | _ \<Rightarrow> Inl BadAccess)"

definition read_buckets :: "heap \<Rightarrow> addr \<Rightarrow> crash + bucket list" where
  "read_buckets H a = (case H a of Some (CData (Buckets bs)) \<Rightarrow> Inr bs | _ \<Rightarrow> Inl BadAccess)"

definition read_entry :: "heap \<Rightarrow> addr \<Rightarrow> crash + immutable_cache_cache_entry_t" where
  "read_entry H a = (case H a of Some (CEntry e) \<Rightarrow> Inr e | _ \<Rightarrow> Inl BadAccess)"

lemma read_simps [simp]:
  "H a = Some (CStr s) \<Longrightarrow> read_str H a = Inr s"
  "H a = Some (CHt t) \<Longrightarrow> read_ht H a = Inr t"
  "H a = Some (CData (Packed zs)) \<Longrightarrow> read_packed H a = Inr zs"
  "H a = Some (CData (Buckets bs)) \<Longrightarrow> read_buckets H a = Inr bs"
  "H a = Some (CEntry e) \<Longrightarrow> read_entry H a = Inr e"
  by (simp_all add: read_str_def read_ht_def read_packed_def read_buckets_def read_entry_def)

lemma read_entry_Inr: "read_entry H a = Inr e \<longleftrightarrow> H a = Some (CEntry e)"
  by (auto simp: read_entry_def split: option.splits cell.splits)

lemma read_str_Inr: "read_str H a = Inr s \<longleftrightarrow> H a = Some (CStr s)"
  by (auto simp: read_str_def split: option.splits cell.splits)

text \<open>\<^verbatim>\<open>Z_TYPE_P(zv) < IS_STRING\<close>: nothing but the zval itself.\<close>

fun below_IS_STRING :: "zval \<Rightarrow> bool" where
  "below_IS_STRING IS_UNDEF = True"
| "below_IS_STRING IS_NULL = True"
| "below_IS_STRING IS_FALSE = True"
| "below_IS_STRING IS_TRUE = True"
| "below_IS_STRING (IS_LONG _) = True"
| "below_IS_STRING (IS_DOUBLE _) = True"
| "below_IS_STRING _ = False"

fun Z_PTR :: "zval \<Rightarrow> addr" where
  "Z_PTR (IS_STRING a) = a"
| "Z_PTR (IS_ARRAY a) = a"
| "Z_PTR (IS_OBJECT a) = a"
| "Z_PTR (IS_RESOURCE a) = a"
| "Z_PTR (IS_REFERENCE a) = a"
| "Z_PTR (IS_INDIRECT a) = a"
| "Z_PTR (IS_PTR a) = a"
| "Z_PTR _ = 0"

subsection \<open>PHP values\<close>

datatype pkey = KInt zend_ulong | KStr string

datatype php =
    PNull | PFalse | PTrue | PLong zend_ulong | PDouble "64 word" | PStr string
  | PArr "(pkey \<times> php) list"
  | POpaque nat

text \<open>\<open>POpaque\<close> is any value with an object in it, as the serializers see it.\<close>

primrec psize :: "php \<Rightarrow> nat" where
  "psize PNull = 1"
| "psize PFalse = 1"
| "psize PTrue = 1"
| "psize (PLong _) = 1"
| "psize (PDouble _) = 1"
| "psize (PStr _) = 1"
| "psize (PArr es) = Suc (Suc (sum_list (map snd (map (map_prod id psize) es))))"
| "psize (POpaque _) = 1"

definition esize :: "(pkey \<times> php) list \<Rightarrow> nat" where
  "esize es = sum_list (map (\<lambda>e. psize (snd e)) es)"

lemma esize_simps [simp]: "esize [] = 0" "esize (e # es) = psize (snd e) + esize es"
  by (simp_all add: esize_def)

lemma psize_PArr [simp]: "psize (PArr es) = Suc (Suc (esize es))"
  by (simp add: esize_def comp_def)

declare psize.simps(7) [simp del]

lemma psize_pos [simp]: "0 < psize v"
  by (cases v) auto

inductive rep :: "heap \<Rightarrow> zval \<Rightarrow> php \<Rightarrow> bool"
  and rep_slots :: "heap \<Rightarrow> nat \<Rightarrow> zval list \<Rightarrow> (pkey \<times> php) list \<Rightarrow> bool"
  and rep_buckets :: "heap \<Rightarrow> bucket list \<Rightarrow> (pkey \<times> php) list \<Rightarrow> bool" for H :: heap where
  rep_null: "rep H IS_NULL PNull"
| rep_false: "rep H IS_FALSE PFalse"
| rep_true: "rep H IS_TRUE PTrue"
| rep_long: "rep H (IS_LONG n) (PLong n)"
| rep_double: "rep H (IS_DOUBLE d) (PDouble d)"
| rep_string: "H a = Some (CStr s) \<Longrightarrow> rep H (IS_STRING a) (PStr (zstr_val s))"
| rep_empty: "H a = Some (CHt t) \<Longrightarrow> nNumUsed t = 0 \<Longrightarrow> nNumOfElements t = 0 \<Longrightarrow> rep H (IS_ARRAY a) (PArr [])"
| rep_packed: "H a = Some (CHt t) \<Longrightarrow> ht_packed t \<Longrightarrow> 0 < nNumUsed t \<Longrightarrow> H (arData t) = Some (CData (Packed zs)) \<Longrightarrow>
    length zs = nNumUsed t \<Longrightarrow> nNumOfElements t = length es \<Longrightarrow> rep_slots H 0 zs es \<Longrightarrow> rep H (IS_ARRAY a) (PArr es)"
| rep_hash: "H a = Some (CHt t) \<Longrightarrow> \<not> ht_packed t \<Longrightarrow> 0 < nNumUsed t \<Longrightarrow> H (arData t) = Some (CData (Buckets bs)) \<Longrightarrow>
    length bs = nNumUsed t \<Longrightarrow> nNumOfElements t = length es \<Longrightarrow> rep_buckets H bs es \<Longrightarrow> rep H (IS_ARRAY a) (PArr es)"
| slots_nil: "rep_slots H i [] []"
| slots_undef: "rep_slots H (Suc i) zs es \<Longrightarrow> rep_slots H i (IS_UNDEF # zs) es"
| slots_cons: "rep H z v \<Longrightarrow> rep_slots H (Suc i) zs es \<Longrightarrow> rep_slots H i (z # zs) ((KInt (of_nat i), v) # es)"
| buckets_nil: "rep_buckets H [] []"
| buckets_undef: "bval b = IS_UNDEF \<Longrightarrow> rep_buckets H bs es \<Longrightarrow> rep_buckets H (b # bs) es"
| buckets_int: "bkey b = None \<Longrightarrow> rep H (bval b) v \<Longrightarrow> rep_buckets H bs es \<Longrightarrow> rep_buckets H (b # bs) ((KInt (bh b), v) # es)"
| buckets_str: "bkey b = Some k \<Longrightarrow> H k = Some (CStr s) \<Longrightarrow> rep H (bval b) v \<Longrightarrow> rep_buckets H bs es \<Longrightarrow>
    rep_buckets H (b # bs) ((KStr (zstr_val s), v) # es)"

inductive_cases rep_stringE: "rep H (IS_STRING a) v"
inductive_cases rep_arrayE: "rep H (IS_ARRAY a) v"
inductive_cases rep_undefE [elim!]: "rep H IS_UNDEF v"
inductive_cases slots_nilE [elim!]: "rep_slots H i [] es"
inductive_cases slots_consE: "rep_slots H i (z # zs) es"
inductive_cases buckets_nilE [elim!]: "rep_buckets H [] es"
inductive_cases buckets_consE: "rep_buckets H (b # bs) es"

lemma rep_packedD:
  "rep H (IS_ARRAY a) v \<Longrightarrow> H a = Some (CHt t) \<Longrightarrow> ht_packed t \<Longrightarrow> 0 < nNumUsed t \<Longrightarrow>
    H (arData t) = Some (CData (Packed zs)) \<Longrightarrow> \<exists>es. v = PArr es \<and> rep_slots H 0 zs es"
  by (erule rep_arrayE) auto

lemma rep_hashD:
  "rep H (IS_ARRAY a) v \<Longrightarrow> H a = Some (CHt t) \<Longrightarrow> \<not> ht_packed t \<Longrightarrow> 0 < nNumUsed t \<Longrightarrow>
    H (arData t) = Some (CData (Buckets bs)) \<Longrightarrow> \<exists>es. v = PArr es \<and> rep_buckets H bs es"
  by (erule rep_arrayE) auto

lemma rep_not_undef: "rep H z v \<Longrightarrow> z \<noteq> IS_UNDEF"
  by auto

lemma buckets_undefD: "rep_buckets H (b # bs) fs \<Longrightarrow> bval b = IS_UNDEF \<Longrightarrow> rep_buckets H bs fs"
  by (erule buckets_consE) auto

lemma buckets_intD:
  "rep_buckets H (b # bs) fs \<Longrightarrow> bkey b = None \<Longrightarrow> bval b \<noteq> IS_UNDEF \<Longrightarrow>
    \<exists>v es. fs = (KInt (bh b), v) # es \<and> rep H (bval b) v \<and> rep_buckets H bs es"
  by (erule buckets_consE) auto

lemma buckets_strD:
  "rep_buckets H (b # bs) fs \<Longrightarrow> bkey b = Some k \<Longrightarrow> H k = Some (CStr s) \<Longrightarrow> bval b \<noteq> IS_UNDEF \<Longrightarrow>
    \<exists>v es. fs = (KStr (zstr_val s), v) # es \<and> rep H (bval b) v \<and> rep_buckets H bs es"
  by (erule buckets_consE) auto

text \<open>The value a zval stands for is unique, and more objects in the heap do not change it.\<close>

lemma rep_det:
  "rep H z v \<Longrightarrow> rep H z w \<Longrightarrow> v = w"
  "rep_slots H i zs es \<Longrightarrow> rep_slots H i zs fs \<Longrightarrow> es = fs"
  "rep_buckets H bs es \<Longrightarrow> rep_buckets H bs fs \<Longrightarrow> es = fs"
proof (induction arbitrary: w and fs and fs rule: rep_rep_slots_rep_buckets.inducts)
  case (rep_string a s)
  then show ?case by (auto elim: rep_stringE)
next
  case (rep_empty a t)
  from rep_empty.prems show ?case
    by (rule rep_arrayE) (use \<open>H a = Some (CHt t)\<close> \<open>nNumUsed t = 0\<close> in auto)
next
  case (rep_packed a t zs es)
  from rep_packedD [OF rep_packed.prems \<open>H a = Some (CHt t)\<close> \<open>ht_packed t\<close> \<open>0 < nNumUsed t\<close>
      \<open>H (arData t) = Some (CData (Packed zs))\<close>] rep_packed.IH(4) show ?case by blast
next
  case (rep_hash a t bs es)
  from rep_hashD [OF rep_hash.prems \<open>H a = Some (CHt t)\<close> \<open>\<not> ht_packed t\<close> \<open>0 < nNumUsed t\<close>
      \<open>H (arData t) = Some (CData (Buckets bs))\<close>] rep_hash.IH(4) show ?case by blast
next
  case (slots_undef i zs es)
  from slots_undef.prems show ?case by (rule slots_consE) (use slots_undef.IH in \<open>blast+\<close>)
next
  case (slots_cons z v i zs es)
  from slots_cons.prems show ?case
    by (rule slots_consE) (use slots_cons.IH in \<open>blast+\<close>)
next
  case (buckets_undef b bs es)
  from buckets_undefD [OF buckets_undef.prems buckets_undef.hyps(1)] buckets_undef.IH show ?case by blast
next
  case (buckets_int b v bs es)
  from buckets_intD [OF buckets_int.prems buckets_int.hyps(1) rep_not_undef [OF buckets_int.IH(1)]] buckets_int.IH
  show ?case by blast
next
  case (buckets_str b k s v bs es)
  from buckets_strD [OF buckets_str.prems \<open>bkey b = Some k\<close> \<open>H k = Some (CStr s)\<close>
      rep_not_undef [OF \<open>rep H (bval b) v\<close>]] buckets_str.IH
  show ?case by blast
qed (auto elim: rep.cases)

lemma rep_mono:
  "rep H z v \<Longrightarrow> H \<subseteq>\<^sub>m H' \<Longrightarrow> rep H' z v"
  "rep_slots H i zs es \<Longrightarrow> H \<subseteq>\<^sub>m H' \<Longrightarrow> rep_slots H' i zs es"
  "rep_buckets H bs es \<Longrightarrow> H \<subseteq>\<^sub>m H' \<Longrightarrow> rep_buckets H' bs es"
proof (induction rule: rep_rep_slots_rep_buckets.inducts)
  case (rep_packed a t zs es)
  then have "H' a = Some (CHt t)" "H' (arData t) = Some (CData (Packed zs))"
    by (auto simp: map_le_def dom_def)
  with rep_packed show ?case by (auto intro: rep_rep_slots_rep_buckets.rep_packed)
next
  case (rep_hash a t bs es)
  then have "H' a = Some (CHt t)" "H' (arData t) = Some (CData (Buckets bs))"
    by (auto simp: map_le_def dom_def)
  with rep_hash show ?case by (auto intro: rep_rep_slots_rep_buckets.rep_hash)
qed (auto simp: map_le_def dom_def intro: rep_rep_slots_rep_buckets.intros)

subsection \<open>The engine as a parameter\<close>

text \<open>Layout constants and functions of the engine. \<open>php_var_serialize\<close> gives the serialized
  bytes or nothing (an exception was thrown), \<open>php_var_unserialize\<close> the value or nothing.\<close>

record zend_abi =
  ZEND_MM_ALIGNED_SIZE :: "size_t \<Rightarrow> size_t"
  ZSTR_STRUCT_SIZE :: "size_t \<Rightarrow> size_t"
  sizeof_HashTable :: size_t
  sizeof_zval :: size_t
  HT_USED_SIZE :: "zend_array \<Rightarrow> size_t"
  HT_PACKED_USED_SIZE :: "zend_array \<Rightarrow> size_t"
  HT_MIN_MASK :: "32 word"
  zend_string_hash_func :: "string \<Rightarrow> zend_ulong"
  php_var_serialize :: "heap \<Rightarrow> zval \<Rightarrow> string option"
  php_var_unserialize :: "string \<Rightarrow> php option"

definition zend_ok :: "zend_abi \<Rightarrow> bool" where
  "zend_ok Z \<longleftrightarrow>
     (\<forall>n. n \<le> ZEND_MM_ALIGNED_SIZE Z n) \<and> (\<forall>n. n < ZSTR_STRUCT_SIZE Z n) \<and> 0 < sizeof_HashTable Z \<and>
     (\<forall>t. 0 < nNumUsed t \<longrightarrow> 0 < HT_USED_SIZE Z t \<and> 0 < HT_PACKED_USED_SIZE Z t) \<and>
     (\<forall>t u. nNumUsed t = nNumUsed u \<and> nTableMask t = nTableMask u \<longrightarrow>
        HT_USED_SIZE Z t = HT_USED_SIZE Z u \<and> HT_PACKED_USED_SIZE Z t = HT_PACKED_USED_SIZE Z u)"

text \<open>\<^verbatim>\<open>ZSTR_HASH\<close>: the cached hash, or the computed one.\<close>

definition ZSTR_HASH :: "zend_abi \<Rightarrow> zend_string \<Rightarrow> zend_ulong" where
  "ZSTR_HASH Z s = (if zstr_h s = 0 then zend_string_hash_func Z (zstr_val s) else zstr_h s)"

text \<open>The engine only caches the hash of the characters.\<close>

definition str_hashed :: "zend_abi \<Rightarrow> zend_string \<Rightarrow> bool" where
  "str_hashed Z s \<longleftrightarrow> zstr_h s \<in> {0, zend_string_hash_func Z (zstr_val s)}"

definition heap_hashed :: "zend_abi \<Rightarrow> heap \<Rightarrow> bool" where
  "heap_hashed Z H \<longleftrightarrow> (\<forall>a s. H a = Some (CStr s) \<longrightarrow> str_hashed Z s)"

lemma ZSTR_HASH_eq: "str_hashed Z s \<Longrightarrow> ZSTR_HASH Z s = zend_string_hash_func Z (zstr_val s)"
  by (auto simp: str_hashed_def ZSTR_HASH_def)

text \<open>The layout of a 64-bit build of PHP 8.2, with trivial serializers, for the witnesses.\<close>

definition sample_zend :: zend_abi where
  "sample_zend = \<lparr>ZEND_MM_ALIGNED_SIZE = (\<lambda>n. 8 * ((n + 7) div 8)), ZSTR_STRUCT_SIZE = (\<lambda>n. 24 + n + 1),
     sizeof_HashTable = 56, sizeof_zval = 16,
     HT_USED_SIZE = (\<lambda>t. 4 * unat (- nTableMask t) + 32 * nNumUsed t),
     HT_PACKED_USED_SIZE = (\<lambda>t. 8 + 16 * nNumUsed t), HT_MIN_MASK = - 2,
     zend_string_hash_func = (\<lambda>s. of_nat (length s) OR push_bit 63 1),
     php_var_serialize = (\<lambda>H z. None), php_var_unserialize = (\<lambda>s. None)\<rparr>"

lemma sample_zend_ok: "zend_ok sample_zend"
proof -
  have "n \<le> 8 * ((n + 7) div 8)" for n :: nat by presburger
  then show ?thesis by (simp add: zend_ok_def sample_zend_def)
qed

end
