(* ===== verification/Persist.thy ===== *)
theory Persist
  imports Zend
begin

unbundle bit_operations_syntax

text \<open>
  \<^verbatim>\<open>immutable_cache_persist.c\<close>: copying a value into shared memory in two passes. The first
  (\<open>calc\<close>) computes the number of bytes, the second (\<open>copy\<close>) fills one allocation of
  exactly that size; strings and arrays reached twice, or already in shared memory, are shared.

  The recursion over nested arrays carries fuel: \<open>Diverges\<close> is the result when it runs out,
  and \<open>psize\<close> of the value is always enough. The recursive call is an argument of the functions
  on hash tables, as in the code they are mutually recursive. The stores into one object are
  collected and made when its copy is complete; nothing reads it before. \<^verbatim>\<open>size\<close> is a natural
  number: every counted object is a distinct live object, so the sum fits the address space.
\<close>

subsection \<open>Context\<close>

record immutable_cache_serializer_t =
  ser_name :: string
  serialize :: "heap \<Rightarrow> zval \<Rightarrow> string option"
  unserialize :: "string \<Rightarrow> php option"

record persist_context =
  pserializer :: "immutable_cache_serializer_t option"
  psize_total :: size_t
  memoization_needed :: bool
  use_serialization :: bool
  serialized_str :: "string option"
  palloc :: addr
  alloc_cur :: addr
  already_counted :: "zend_ulong set"
  already_allocated :: "zend_ulong \<Rightarrow> addr option"
  pwarnings :: "string list"

definition immutable_cache_persist_init_context ::
  "immutable_cache_serializer_t option \<Rightarrow> string list \<Rightarrow> persist_context" where
  "immutable_cache_persist_init_context ser ws =
     \<lparr>pserializer = ser, psize_total = 0, memoization_needed = False, use_serialization = False,
      serialized_str = None, palloc = 0, alloc_cur = 0, already_counted = {}, already_allocated = (\<lambda>_. None),
      pwarnings = ws\<rparr>"

definition ADD_SIZE :: "zend_abi \<Rightarrow> size_t \<Rightarrow> persist_context \<Rightarrow> persist_context" where
  "ADD_SIZE Z n c = c\<lparr>psize_total := psize_total c + ZEND_MM_ALIGNED_SIZE Z n\<rparr>"

definition immutable_cache_shr3 :: "zend_ulong \<Rightarrow> zend_ulong" where
  "immutable_cache_shr3 i = (drop_bit 3 i OR push_bit (64 - 3) i)"

definition immutable_cache_pointer_to_hash_key :: "addr \<Rightarrow> zend_ulong" where
  "immutable_cache_pointer_to_hash_key p = immutable_cache_shr3 (of_nat p)"

subsection \<open>First pass: the size\<close>

definition immutable_cache_persist_calc_memoize :: "persist_context \<Rightarrow> addr \<Rightarrow> bool \<times> persist_context" where
  "immutable_cache_persist_calc_memoize c p =
     (if \<not> memoization_needed c then (False, c)
      else if immutable_cache_pointer_to_hash_key p \<in> already_counted c then (True, c)
      else (False, c\<lparr>already_counted := insert (immutable_cache_pointer_to_hash_key p) (already_counted c)\<rparr>))"

definition immutable_cache_persist_calc_str ::
  "zend_abi \<Rightarrow> immutable_cache_sma_t \<Rightarrow> heap \<Rightarrow> addr \<Rightarrow> persist_context \<Rightarrow> crash + persist_context" where
  "immutable_cache_persist_calc_str Z m H p c =
     (if immutable_cache_sma_contains_pointer m p then Inr c
      else (let (seen, c) = immutable_cache_persist_calc_memoize c p
            in if seen then Inr c
               else ebind (read_str H p) (\<lambda>s. Inr (ADD_SIZE Z (ZSTR_STRUCT_SIZE Z (length (zstr_val s))) c))))"

text \<open>The loops over the elements; \<open>rec\<close> is \<^verbatim>\<open>immutable_cache_persist_calc_zval\<close>.\<close>

fun calc_packed ::
  "(zval \<Rightarrow> persist_context \<Rightarrow> crash + (bool \<times> persist_context)) \<Rightarrow> zval list \<Rightarrow> persist_context \<Rightarrow>
   crash + (bool \<times> persist_context)" where
  "calc_packed rec [] c = Inr (True, c)"
| "calc_packed rec (z # zs) c =
     (case z of IS_INDIRECT _ \<Rightarrow> Inl AssertFailed
      | _ \<Rightarrow> ebind (rec z c) (\<lambda>(ok, c). if \<not> ok then Inr (False, c) else calc_packed rec zs c))"

fun calc_buckets ::
  "(zval \<Rightarrow> persist_context \<Rightarrow> crash + (bool \<times> persist_context)) \<Rightarrow> zend_abi \<Rightarrow> immutable_cache_sma_t \<Rightarrow> heap \<Rightarrow>
   bucket list \<Rightarrow> persist_context \<Rightarrow> crash + (bool \<times> persist_context)" where
  "calc_buckets rec Z m H [] c = Inr (True, c)"
| "calc_buckets rec Z m H (b # bs) c =
     (case bval b of
        IS_UNDEF \<Rightarrow> calc_buckets rec Z m H bs c
      | IS_INDIRECT _ \<Rightarrow> Inr (False, c\<lparr>use_serialization := True\<rparr>)
      | _ \<Rightarrow>
          ebind (case bkey b of None \<Rightarrow> Inr c | Some k \<Rightarrow> immutable_cache_persist_calc_str Z m H k c) (\<lambda>c.
          ebind (rec (bval b) c) (\<lambda>(ok, c).
            if \<not> ok then Inr (False, c) else calc_buckets rec Z m H bs c)))"

definition immutable_cache_persist_calc_ht ::
  "(zval \<Rightarrow> persist_context \<Rightarrow> crash + (bool \<times> persist_context)) \<Rightarrow> zend_abi \<Rightarrow> immutable_cache_sma_t \<Rightarrow> heap \<Rightarrow>
   addr \<Rightarrow> persist_context \<Rightarrow> crash + (bool \<times> persist_context)" where
  "immutable_cache_persist_calc_ht rec Z m H p c =
     ebind (read_ht H p) (\<lambda>ht.
       let c = ADD_SIZE Z (sizeof_HashTable Z) c
       in if nNumUsed ht = 0 then Inr (True, c)
          else if ht_packed ht
          then (let c = ADD_SIZE Z (HT_PACKED_USED_SIZE Z ht) c
                in ebind (read_packed H (arData ht)) (\<lambda>zs. calc_packed rec (take (nNumUsed ht) zs) c))
          else (let c = ADD_SIZE Z (HT_USED_SIZE Z ht) c
                in ebind (read_buckets H (arData ht)) (\<lambda>bs. calc_buckets rec Z m H (take (nNumUsed ht) bs) c)))"

definition immutable_cache_persist_calc_serialize ::
  "zend_abi \<Rightarrow> heap \<Rightarrow> zval \<Rightarrow> persist_context \<Rightarrow> crash + (bool \<times> persist_context)" where
  "immutable_cache_persist_calc_serialize Z H zv c =
     (let ser = (case pserializer c of None \<Rightarrow> php_var_serialize Z | Some s \<Rightarrow> serialize s)
      in case ser H zv of
           None \<Rightarrow> Inr (False, c)
         | Some buf \<Rightarrow>
             if memoization_needed c then Inl AssertFailed
             else Inr (True, ADD_SIZE Z (ZSTR_STRUCT_SIZE Z (length buf)) (c\<lparr>serialized_str := Some buf\<rparr>)))"

fun immutable_cache_persist_calc_zval ::
  "nat \<Rightarrow> zend_abi \<Rightarrow> immutable_cache_sma_t \<Rightarrow> heap \<Rightarrow> zval \<Rightarrow> persist_context \<Rightarrow> crash + (bool \<times> persist_context)" where
  "immutable_cache_persist_calc_zval 0 Z m H zv c = Inl Diverges"
| "immutable_cache_persist_calc_zval (Suc n) Z m H zv c =
     (if below_IS_STRING zv then Inr (True, c)
      else if use_serialization c then immutable_cache_persist_calc_serialize Z H zv c
      else if immutable_cache_sma_contains_pointer m (Z_PTR zv)
      then (case zv of IS_STRING _ \<Rightarrow> Inr (True, c) | IS_ARRAY _ \<Rightarrow> Inr (True, c) | _ \<Rightarrow> Inl AssertFailed)
      else (let (seen, c) = immutable_cache_persist_calc_memoize c (Z_PTR zv)
            in if seen then Inr (True, c)
               else case zv of
                 IS_STRING p \<Rightarrow>
                   ebind (read_str H p) (\<lambda>s. Inr (True, ADD_SIZE Z (ZSTR_STRUCT_SIZE Z (length (zstr_val s))) c))
               | IS_ARRAY p \<Rightarrow>
                   immutable_cache_persist_calc_ht (immutable_cache_persist_calc_zval n Z m H) Z m H p c
               | IS_REFERENCE _ \<Rightarrow> Inr (False, c\<lparr>use_serialization := True\<rparr>)
               | IS_OBJECT _ \<Rightarrow> Inr (False, c\<lparr>use_serialization := True\<rparr>)
               | IS_RESOURCE _ \<Rightarrow>
                   Inr (False, c\<lparr>pwarnings := pwarnings c @ [''Cannot store resources in immutable_cache cache'']\<rparr>)
               | _ \<Rightarrow> Inl AssertFailed))"

text \<open>\<^verbatim>\<open>sizeof(immutable_cache_cache_entry_t)\<close>: six words and a zval.\<close>

definition sizeof_entry :: "zend_abi \<Rightarrow> size_t" where
  "sizeof_entry Z = 6 * 8 + sizeof_zval Z"

definition immutable_cache_persist_calc ::
  "nat \<Rightarrow> zend_abi \<Rightarrow> immutable_cache_sma_t \<Rightarrow> heap \<Rightarrow> immutable_cache_cache_entry_t \<Rightarrow> persist_context \<Rightarrow>
   crash + (bool \<times> persist_context)" where
  "immutable_cache_persist_calc n Z m H e c =
     ebind (immutable_cache_persist_calc_str Z m H (ekey e) (ADD_SIZE Z (sizeof_entry Z) c)) (\<lambda>c.
       immutable_cache_persist_calc_zval n Z m H (eval e) c)"

subsection \<open>Second pass: the copy\<close>

definition immutable_cache_persist_get_already_allocated ::
  "immutable_cache_sma_t \<Rightarrow> persist_context \<Rightarrow> addr \<Rightarrow> addr option" where
  "immutable_cache_persist_get_already_allocated m c p =
     (if immutable_cache_sma_contains_pointer m p then Some p
      else if memoization_needed c then already_allocated c (immutable_cache_pointer_to_hash_key p)
      else None)"

definition immutable_cache_persist_add_already_allocated ::
  "addr \<Rightarrow> addr \<Rightarrow> persist_context \<Rightarrow> persist_context" where
  "immutable_cache_persist_add_already_allocated old new c =
     (if memoization_needed c
      then c\<lparr>already_allocated := (already_allocated c)(immutable_cache_pointer_to_hash_key old \<mapsto> new)\<rparr>
      else c)"

definition immutable_cache_persist_alloc ::
  "zend_abi \<Rightarrow> size_t \<Rightarrow> persist_context \<Rightarrow> crash + (addr \<times> persist_context)" where
  "immutable_cache_persist_alloc Z n c =
     (let p = alloc_cur c;
          c = c\<lparr>alloc_cur := alloc_cur c + ZEND_MM_ALIGNED_SIZE Z n\<rparr>
      in if alloc_cur c \<le> palloc c + psize_total c then Inr (p, c) else Inl AssertFailed)"

definition immutable_cache_persist_copy_cstr ::
  "zend_abi \<Rightarrow> string \<Rightarrow> zend_ulong \<Rightarrow> heap \<Rightarrow> persist_context \<Rightarrow> crash + (addr \<times> heap \<times> persist_context)" where
  "immutable_cache_persist_copy_cstr Z buf hash H c =
     ebind (immutable_cache_persist_alloc Z (ZSTR_STRUCT_SIZE Z (length buf)) c) (\<lambda>(p, c).
       let h = (if hash = 0 then zend_string_hash_func Z buf else hash)
       in Inr (p, H(p \<mapsto> CStr \<lparr>str_refcount = 2, str_immutable = True, zstr_h = h, zstr_val = buf\<rparr>), c))"

definition immutable_cache_persist_get_or_copy_zstr ::
  "zend_abi \<Rightarrow> immutable_cache_sma_t \<Rightarrow> addr \<Rightarrow> heap \<Rightarrow> persist_context \<Rightarrow> crash + (addr \<times> heap \<times> persist_context)" where
  "immutable_cache_persist_get_or_copy_zstr Z m orig H c =
     (case immutable_cache_persist_get_already_allocated m c orig of
        Some p \<Rightarrow> Inr (p, H, c)
      | None \<Rightarrow>
          ebind (read_str H orig) (\<lambda>s.
          ebind (immutable_cache_persist_copy_cstr Z (zstr_val s) (zstr_h s) H c) (\<lambda>(p, H, c).
            Inr (p, H, immutable_cache_persist_add_already_allocated orig p c))))"

text \<open>The loops over the elements thread the internal pointer and the next free index.\<close>

fun copy_packed ::
  "(zval \<Rightarrow> heap \<Rightarrow> persist_context \<Rightarrow> crash + (zval \<times> heap \<times> persist_context)) \<Rightarrow> nat \<Rightarrow> zval list \<Rightarrow>
   nat option \<Rightarrow> zend_ulong \<Rightarrow> heap \<Rightarrow> persist_context \<Rightarrow>
   crash + (zval list \<times> nat option \<times> zend_ulong \<times> heap \<times> persist_context)" where
  "copy_packed rec idx [] ip nf H c = Inr ([], ip, nf, H, c)"
| "copy_packed rec idx (z # zs) ip nf H c =
     (if z = IS_UNDEF
      then ebind (copy_packed rec (Suc idx) zs ip nf H c) (\<lambda>(zs, r). Inr (z # zs, r))
      else (let ip = (if ip = None then Some idx else ip);
                nf = (if sint (word_of_nat idx :: zend_ulong) \<ge> sint nf then word_of_nat (idx + 1) else nf)
            in ebind (rec z H c) (\<lambda>(z, H, c).
               ebind (copy_packed rec (Suc idx) zs ip nf H c) (\<lambda>(zs, r). Inr (z # zs, r)))))"

fun copy_buckets ::
  "(zval \<Rightarrow> heap \<Rightarrow> persist_context \<Rightarrow> crash + (zval \<times> heap \<times> persist_context)) \<Rightarrow> zend_abi \<Rightarrow> immutable_cache_sma_t \<Rightarrow>
   nat \<Rightarrow> bucket list \<Rightarrow> nat option \<Rightarrow> zend_ulong \<Rightarrow> heap \<Rightarrow> persist_context \<Rightarrow>
   crash + (bucket list \<times> nat option \<times> zend_ulong \<times> heap \<times> persist_context)" where
  "copy_buckets rec Z m idx [] ip nf H c = Inr ([], ip, nf, H, c)"
| "copy_buckets rec Z m idx (b # bs) ip nf H c =
     (if bval b = IS_UNDEF
      then ebind (copy_buckets rec Z m (Suc idx) bs ip nf H c) (\<lambda>(bs, r). Inr (b # bs, r))
      else (let ip = (if ip = None then Some idx else ip)
            in ebind
                 (case bkey b of
                    Some k \<Rightarrow>
                      ebind (immutable_cache_persist_get_or_copy_zstr Z m k H c) (\<lambda>(k, H, c). Inr (b\<lparr>bkey := Some k\<rparr>, nf, H, c))
                  | None \<Rightarrow> Inr (b, if sint (bh b) \<ge> sint nf then bh b + 1 else nf, H, c))
                 (\<lambda>(b, nf, H, c).
                    ebind (rec (bval b) H c) (\<lambda>(z, H, c).
                    ebind (copy_buckets rec Z m (Suc idx) bs ip nf H c) (\<lambda>(bs, r). Inr (b\<lparr>bval := z\<rparr> # bs, r))))))"

text \<open>The address of the static \<^verbatim>\<open>uninitialized_bucket\<close> is never followed.\<close>

definition immutable_cache_persist_copy_ht ::
  "(zval \<Rightarrow> heap \<Rightarrow> persist_context \<Rightarrow> crash + (zval \<times> heap \<times> persist_context)) \<Rightarrow> zend_abi \<Rightarrow> immutable_cache_sma_t \<Rightarrow>
   addr \<Rightarrow> heap \<Rightarrow> persist_context \<Rightarrow> crash + (addr \<times> heap \<times> persist_context)" where
  "immutable_cache_persist_copy_ht rec Z m orig H c =
     ebind (read_ht H orig) (\<lambda>orig_ht.
     ebind (immutable_cache_persist_alloc Z (sizeof_HashTable Z) c) (\<lambda>(p, c).
       let c = immutable_cache_persist_add_already_allocated orig p c;
           ht = orig_ht\<lparr>ht_refcount := 2, ht_immutable := True, ht_has_destructor := False, ht_static_keys := True\<rparr>
       in if nNumUsed ht = 0
          then (let ht = ht\<lparr>ht_uninitialized := True, ht_packed := False, ht_static_keys := False,
                            nNextFreeElement := 0, nTableMask := HT_MIN_MASK Z, arData := 0\<rparr>
                in Inr (p, H(p \<mapsto> CHt ht), c))
          else if ht_packed ht
          then ebind (read_packed H (arData ht)) (\<lambda>zs.
               ebind (immutable_cache_persist_alloc Z (HT_PACKED_USED_SIZE Z ht) c) (\<lambda>(d, c).
               ebind (copy_packed rec 0 (take (nNumUsed ht) zs) None 0 H c) (\<lambda>(zs, ip, nf, H, c).
                 Inr (p, H(d \<mapsto> CData (Packed zs), p \<mapsto> CHt (ht\<lparr>arData := d, nInternalPointer := ip, nNextFreeElement := nf\<rparr>)), c))))
          else ebind (read_buckets H (arData ht)) (\<lambda>bs.
               ebind (immutable_cache_persist_alloc Z (HT_USED_SIZE Z ht) c) (\<lambda>(d, c).
               ebind (copy_buckets rec Z m 0 (take (nNumUsed ht) bs) None 0 H c) (\<lambda>(bs, ip, nf, H, c).
                 Inr (p, H(d \<mapsto> CData (Buckets bs), p \<mapsto> CHt (ht\<lparr>arData := d, nInternalPointer := ip, nNextFreeElement := nf\<rparr>)), c))))))"

definition immutable_cache_persist_copy_serialize ::
  "zend_abi \<Rightarrow> zval \<Rightarrow> heap \<Rightarrow> persist_context \<Rightarrow> crash + (zval \<times> heap \<times> persist_context)" where
  "immutable_cache_persist_copy_serialize Z zv H c =
     (if (case zv of IS_ARRAY _ \<Rightarrow> False | IS_OBJECT _ \<Rightarrow> False | _ \<Rightarrow> True) then Inl AssertFailed
      else if memoization_needed c then Inl AssertFailed
      else case serialized_str c of
             None \<Rightarrow> Inl AssertFailed
           | Some buf \<Rightarrow>
               ebind (immutable_cache_persist_copy_cstr Z buf 0 H c) (\<lambda>(p, H, c). Inr (IS_PTR p, H, c)))"

fun immutable_cache_persist_copy_zval ::
  "nat \<Rightarrow> zend_abi \<Rightarrow> immutable_cache_sma_t \<Rightarrow> zval \<Rightarrow> heap \<Rightarrow> persist_context \<Rightarrow>
   crash + (zval \<times> heap \<times> persist_context)" where
  "immutable_cache_persist_copy_zval 0 Z m zv H c = Inl Diverges"
| "immutable_cache_persist_copy_zval (Suc n) Z m zv H c =
     (if below_IS_STRING zv then Inr (zv, H, c)
      else if use_serialization c then immutable_cache_persist_copy_serialize Z zv H c
      else (let p = immutable_cache_persist_get_already_allocated m c (Z_PTR zv)
            in case zv of
                 IS_STRING a \<Rightarrow>
                   (case p of
                      Some p \<Rightarrow> Inr (IS_STRING p, H, c)
                    | None \<Rightarrow> ebind (immutable_cache_persist_get_or_copy_zstr Z m a H c) (\<lambda>(p, H, c). Inr (IS_STRING p, H, c)))
               | IS_ARRAY a \<Rightarrow>
                   (case p of
                      Some p \<Rightarrow> Inr (IS_ARRAY p, H, c)
                    | None \<Rightarrow>
                        ebind (immutable_cache_persist_copy_ht (immutable_cache_persist_copy_zval n Z m) Z m a H c)
                          (\<lambda>(p, H, c). Inr (IS_ARRAY p, H, c)))
               | IS_REFERENCE a \<Rightarrow>
                   Inl (CoreError ''immutable_cache serializer somehow called with a reference instead of a string serialization function'')
               | _ \<Rightarrow> Inl AssertFailed))"

definition immutable_cache_persist_copy ::
  "nat \<Rightarrow> zend_abi \<Rightarrow> immutable_cache_sma_t \<Rightarrow> immutable_cache_cache_entry_t \<Rightarrow> heap \<Rightarrow> persist_context \<Rightarrow>
   crash + (addr \<times> immutable_cache_cache_entry_t \<times> heap \<times> persist_context)" where
  "immutable_cache_persist_copy n Z m orig H c =
     ebind (immutable_cache_persist_alloc Z (sizeof_entry Z) c) (\<lambda>(p, c).
     ebind (immutable_cache_persist_get_or_copy_zstr Z m (ekey orig) H c) (\<lambda>(k, H, c).
     ebind (immutable_cache_persist_copy_zval n Z m (eval orig) H c) (\<lambda>(z, H, c).
       Inr (p, orig\<lparr>ekey := k, eval := z\<rparr>, H, c))))"

subsection \<open>Both passes\<close>

text \<open>The process state with the heap.\<close>

record mproc = proc +
  mem :: heap

text \<open>The size computation with its second try: \<open>None\<close> when the value cannot be stored.\<close>

definition persist_size ::
  "nat \<Rightarrow> zend_abi \<Rightarrow> immutable_cache_sma_t \<Rightarrow> heap \<Rightarrow> immutable_cache_serializer_t option \<Rightarrow>
   immutable_cache_cache_entry_t \<Rightarrow> string list \<Rightarrow> crash + (persist_context option \<times> string list)" where
  "persist_size n Z m H ser orig ws =
     (case eval orig of IS_REFERENCE _ \<Rightarrow> Inl AssertFailed
      | v \<Rightarrow>
        (let is_arr = (case v of IS_ARRAY _ \<Rightarrow> True | _ \<Rightarrow> False);
             is_obj = (case v of IS_OBJECT _ \<Rightarrow> True | _ \<Rightarrow> False);
             c = (immutable_cache_persist_init_context ser ws)
                   \<lparr>memoization_needed := (ser = None \<and> is_arr), use_serialization := (is_obj \<or> (ser \<noteq> None \<and> is_arr))\<rparr>
         in ebind (immutable_cache_persist_calc n Z m H orig c) (\<lambda>(ok, c).
              if ok then Inr (Some c, pwarnings c)
              else if \<not> use_serialization c then Inr (None, pwarnings c)
              else ebind (immutable_cache_persist_calc n Z m H orig
                            ((immutable_cache_persist_init_context ser (pwarnings c))\<lparr>use_serialization := True\<rparr>))
                     (\<lambda>(ok, c). if ok then Inr (Some c, pwarnings c) else Inr (None, pwarnings c)))))"

text \<open>The stores of the copy need writable data segments.\<close>

definition shm_writable :: "'a proc_scheme \<Rightarrow> bool" where
  "shm_writable s \<longleftrightarrow> (\<forall>i < sma_num (sma s). writable s i)"

definition immutable_cache_persist ::
  "nat \<Rightarrow> zend_abi \<Rightarrow> immutable_cache_serializer_t option \<Rightarrow> immutable_cache_cache_entry_t \<Rightarrow> 'a mproc_scheme \<Rightarrow>
   crash + (addr \<times> 'a mproc_scheme)" where
  "immutable_cache_persist n Z ser orig s =
     ebind (persist_size n Z (sma s) (mem s) ser orig (warnings s)) (\<lambda>(r, ws).
       let s = s\<lparr>warnings := ws\<rparr>
       in case r of
            None \<Rightarrow> Inr (0, s)
          | Some c \<Rightarrow>
              ebind (immutable_cache_sma_malloc s (psize_total c)) (\<lambda>(p, s).
                if p = 0 then Inr (0, s)
                else (let s = immutable_cache_sma_protect_memory False s
                      in if \<not> shm_writable s then Inl Segfault
                         else ebind (immutable_cache_persist_copy n Z (sma s) orig (mem s) (c\<lparr>palloc := p, alloc_cur := p\<rparr>))
                           (\<lambda>(entry, e, H, c).
                              if alloc_cur c \<noteq> palloc c + psize_total c then Inl AssertFailed
                              else Inr (entry, immutable_cache_sma_protect_memory True
                                     (s\<lparr>mem := H(entry \<mapsto> CEntry (e\<lparr>emem_size := int (psize_total c)\<rparr>))\<rparr>))))))"

subsection \<open>Reading back\<close>

text \<open>What a fetch hands to the script: a zval that points into shared memory, or a value that the
  unserializer built in request memory.\<close>

datatype fetched = FZval zval | FValue php

definition immutable_cache_unpersist_serialized ::
  "zend_abi \<Rightarrow> string \<Rightarrow> immutable_cache_serializer_t option \<Rightarrow> bool \<times> fetched" where
  "immutable_cache_unpersist_serialized Z buf ser =
     (let unser = (case ser of None \<Rightarrow> php_var_unserialize Z | Some s \<Rightarrow> unserialize s)
      in case unser buf of Some v \<Rightarrow> (True, FValue v) | None \<Rightarrow> (False, FZval IS_NULL))"

text \<open>The table of already copied objects is never filled, so it is left out.\<close>

definition immutable_cache_unpersist_zval :: "heap \<Rightarrow> zval \<Rightarrow> crash + fetched" where
  "immutable_cache_unpersist_zval H zv =
     (if below_IS_STRING zv then Inr (FZval zv)
      else case zv of
             IS_STRING a \<Rightarrow>
               ebind (read_str H a) (\<lambda>s. if str_immutable s then Inr (FZval (IS_STRING a)) else Inl AssertFailed)
           | IS_ARRAY a \<Rightarrow>
               ebind (read_ht H a) (\<lambda>t.
                 if nNumOfElements t = 0 then Inr (FValue (PArr []))
                 else if ht_immutable t then Inr (FZval (IS_ARRAY a)) else Inl AssertFailed)
           | IS_REFERENCE a \<Rightarrow>
               Inl (CoreError ''immutable_cache_unpersist_zval_impl: Found a reference in shared memory. Is shared memory corrupt?'')
           | _ \<Rightarrow> Inl AssertFailed)"

definition immutable_cache_unpersist ::
  "zend_abi \<Rightarrow> heap \<Rightarrow> zval \<Rightarrow> immutable_cache_serializer_t option \<Rightarrow> crash + (bool \<times> fetched)" where
  "immutable_cache_unpersist Z H value ser =
     (case value of
        IS_PTR a \<Rightarrow> ebind (read_str H a) (\<lambda>s. Inr (immutable_cache_unpersist_serialized Z (zstr_val s) ser))
      | IS_REFERENCE a \<Rightarrow> Inl AssertFailed
      | _ \<Rightarrow> ebind (immutable_cache_unpersist_zval H value) (\<lambda>r. Inr (True, r)))"

end
