(* ===== verification/Persist_Laws.thy ===== *)
theory Persist_Laws
  imports Persist
begin

unbundle bit_operations_syntax

text \<open>
  The two passes agree: for every value without objects, resources and references, the copy
  consumes exactly the bytes the first pass counted, never writes outside its allocation, and the
  result stands for the same value with every object it reaches immutable and in shared memory.
\<close>

subsection \<open>Pointers as hash keys\<close>

lemma bit_shr3:
  "n < 61 \<Longrightarrow> bit (immutable_cache_shr3 w) n \<longleftrightarrow> bit w (n + 3)"
  "n < 3 \<Longrightarrow> bit (immutable_cache_shr3 w) (n + 61) \<longleftrightarrow> bit w n"
proof -
  show "bit (immutable_cache_shr3 w) n \<longleftrightarrow> bit w (n + 3)" if "n < 61"
    using that by (simp add: immutable_cache_shr3_def bit_simps add.commute)
  have "\<not> bit w (3 + (n + 61))"
    using bit_imp_le_length [of w "3 + (n + 61)"] by auto
  then show "bit (immutable_cache_shr3 w) (n + 61) \<longleftrightarrow> bit w n" if "n < 3"
    using that by (simp add: immutable_cache_shr3_def bit_simps)
qed

lemma shr3_inj:
  assumes "immutable_cache_shr3 v = immutable_cache_shr3 w"
  shows "v = w"
proof (rule bit_word_eqI)
  fix n assume "n < LENGTH(64)"
  then have n: "n < 64" by simp
  show "bit v n = bit w n"
  proof (cases "n < 3")
    case True
    then show ?thesis using bit_shr3(2) [of n v] bit_shr3(2) [of n w] assms by simp
  next
    case False
    then have "n - 3 < 61" "n - 3 + 3 = n" using n by simp_all
    then show ?thesis using bit_shr3(1) [of "n - 3" v] bit_shr3(1) [of "n - 3" w] assms by simp
  qed
qed

lemma hash_key_inj:
  assumes "immutable_cache_pointer_to_hash_key a = immutable_cache_pointer_to_hash_key b" "a < 2 ^ 64" "b < 2 ^ 64"
  shows "a = b"
proof -
  have "(of_nat a :: 64 word) = of_nat b"
    using assms(1) shr3_inj by (simp add: immutable_cache_pointer_to_hash_key_def)
  then have "unat (of_nat a :: 64 word) = unat (of_nat b :: 64 word)" by simp
  then show ?thesis using assms(2,3) by (simp add: unat_of_nat take_bit_nat_eq_self)
qed

subsection \<open>Shared memory is closed\<close>

fun zval_shm :: "immutable_cache_sma_t \<Rightarrow> zval \<Rightarrow> bool" where
  "zval_shm m (IS_STRING a) = immutable_cache_sma_contains_pointer m a"
| "zval_shm m (IS_ARRAY a) = immutable_cache_sma_contains_pointer m a"
| "zval_shm m z = below_IS_STRING z"

definition bucket_shm :: "immutable_cache_sma_t \<Rightarrow> bucket \<Rightarrow> bool" where
  "bucket_shm m b \<longleftrightarrow> zval_shm m (bval b) \<and>
     (bval b \<noteq> IS_UNDEF \<longrightarrow> (case bkey b of None \<Rightarrow> True | Some k \<Rightarrow> immutable_cache_sma_contains_pointer m k))"

text \<open>An object of shared memory is immutable, caches its hash and points to shared memory only.\<close>

fun cell_shm :: "zend_abi \<Rightarrow> immutable_cache_sma_t \<Rightarrow> cell \<Rightarrow> bool" where
  "cell_shm Z m (CStr s) = (str_immutable s \<and> zstr_h s = zend_string_hash_func Z (zstr_val s))"
| "cell_shm Z m (CHt t) = (ht_immutable t \<and> (0 < nNumUsed t \<longrightarrow> immutable_cache_sma_contains_pointer m (arData t)))"
| "cell_shm Z m (CData (Packed zs)) = (\<forall>z \<in> set zs. zval_shm m z)"
| "cell_shm Z m (CData (Buckets bs)) = (\<forall>b \<in> set bs. bucket_shm m b)"
| "cell_shm Z m (CEntry e) =
     (immutable_cache_sma_contains_pointer m (ekey e) \<and>
      (zval_shm m (eval e) \<or> (\<exists>p. eval e = IS_PTR p \<and> immutable_cache_sma_contains_pointer m p)) \<and>
      (enext e = 0 \<or> immutable_cache_sma_contains_pointer m (enext e)))"

definition shm_closed :: "zend_abi \<Rightarrow> immutable_cache_sma_t \<Rightarrow> heap \<Rightarrow> bool" where
  "shm_closed Z m H \<longleftrightarrow> (\<forall>a cl. H a = Some cl \<longrightarrow> immutable_cache_sma_contains_pointer m a \<longrightarrow> cell_shm Z m cl)"

lemma shm_closed_upd: "shm_closed Z m H \<Longrightarrow> cell_shm Z m cl \<Longrightarrow> shm_closed Z m (H(a \<mapsto> cl))"
  by (simp add: shm_closed_def)

lemma shm_closedD: "shm_closed Z m H \<Longrightarrow> H a = Some cl \<Longrightarrow> immutable_cache_sma_contains_pointer m a \<Longrightarrow> cell_shm Z m cl"
  by (simp add: shm_closed_def)

subsection \<open>The two contexts side by side\<close>

text \<open>What the copy is entitled to: a fresh part of shared memory of \<open>S\<close> bytes at \<open>A\<close>.\<close>

definition setting :: "zend_abi \<Rightarrow> immutable_cache_sma_t \<Rightarrow> heap \<Rightarrow> addr \<Rightarrow> size_t \<Rightarrow> bool" where
  "setting Z m H A S \<longleftrightarrow> zend_ok Z \<and> heap_hashed Z H \<and> dom H \<subseteq> {..<2 ^ 64} \<and>
     (\<forall>a. A \<le> a \<and> a < A + S \<longrightarrow> immutable_cache_sma_contains_pointer m a \<and> a \<notin> dom H)"

definition str_at :: "heap \<Rightarrow> addr \<Rightarrow> string \<Rightarrow> bool" where
  "str_at H a v \<longleftrightarrow> (\<exists>s. H a = Some (CStr s) \<and> zstr_val s = v)"

text \<open>A memoized object is already copied, unless it is an array whose copy is under way.\<close>

definition memo_ok :: "immutable_cache_sma_t \<Rightarrow> heap \<Rightarrow> addr set \<Rightarrow> persist_context \<Rightarrow> heap \<Rightarrow> bool" where
  "memo_ok m H P cc Hc \<longleftrightarrow>
     (\<forall>a p. already_allocated cc (immutable_cache_pointer_to_hash_key a) = Some p \<longrightarrow> a \<in> dom H \<longrightarrow> a \<notin> P \<longrightarrow>
        immutable_cache_sma_contains_pointer m p \<and>
        (\<forall>s. H a = Some (CStr s) \<longrightarrow> str_at Hc p (zstr_val s)) \<and>
        (\<forall>v. rep H (IS_ARRAY a) v \<longrightarrow> rep Hc (IS_ARRAY p) v))"

text \<open>\<open>c\<close> is the context of the first pass, \<open>cc\<close> and \<open>Hc\<close> context and heap of the second.\<close>

definition sync :: "zend_abi \<Rightarrow> immutable_cache_sma_t \<Rightarrow> heap \<Rightarrow> addr \<Rightarrow> size_t \<Rightarrow> addr set \<Rightarrow>
  persist_context \<Rightarrow> persist_context \<Rightarrow> heap \<Rightarrow> bool" where
  "sync Z m H A S P c cc Hc \<longleftrightarrow>
     \<not> use_serialization c \<and> \<not> use_serialization cc \<and> memoization_needed cc = memoization_needed c \<and>
     psize_total cc = S \<and> palloc cc = A \<and> alloc_cur cc = A + psize_total c \<and>
     (memoization_needed c \<longrightarrow> dom (already_allocated cc) = already_counted c) \<and>
     (\<not> memoization_needed c \<longrightarrow> already_allocated cc = Map.empty) \<and>
     H \<subseteq>\<^sub>m Hc \<and> dom Hc \<subseteq> dom H \<union> {A..<A + psize_total c} \<and> shm_closed Z m Hc \<and> heap_hashed Z Hc \<and> memo_ok m H P cc Hc"

text \<open>Progress of the copy: the heap only grows, and only behind the allocation pointer.\<close>

definition grown :: "persist_context \<Rightarrow> heap \<Rightarrow> persist_context \<Rightarrow> heap \<Rightarrow> bool" where
  "grown cc Hc cc' H' \<longleftrightarrow> Hc \<subseteq>\<^sub>m H' \<and> dom H' \<subseteq> dom Hc \<union> {alloc_cur cc..} \<and> alloc_cur cc \<le> alloc_cur cc' \<and>
     already_allocated cc \<subseteq>\<^sub>m already_allocated cc' \<and> memoization_needed cc' = memoization_needed cc"

lemma grown_refl [simp]: "grown cc Hc cc Hc"
  by (auto simp: grown_def)

lemma grown_trans: "grown c1 H1 c2 H2 \<Longrightarrow> grown c2 H2 c3 H3 \<Longrightarrow> grown c1 H1 c3 H3"
  unfolding grown_def by (intro conjI; (rule map_le_trans; blast | fastforce | simp))

lemma str_at_mono: "str_at H a v \<Longrightarrow> H \<subseteq>\<^sub>m H' \<Longrightarrow> str_at H' a v"
  by (auto simp: str_at_def map_le_def dom_def)

lemma memo_ok_mono:
  assumes "memo_ok m H P cc Hc" "Hc \<subseteq>\<^sub>m H'" "already_allocated cc' = already_allocated cc"
  shows "memo_ok m H P cc' H'"
  using assms str_at_mono [OF _ assms(2)] rep_mono(1) [OF _ assms(2)] unfolding memo_ok_def by simp

subsection \<open>One allocation\<close>

lemma aligned_pos: "zend_ok Z \<Longrightarrow> 0 < n \<Longrightarrow> 0 < ZEND_MM_ALIGNED_SIZE Z n"
  unfolding zend_ok_def by (metis gr_zeroI not_le)

lemma alloc_step:
  assumes "sync Z m H A S P c cc Hc" "c' = ADD_SIZE Z n c" "psize_total c' \<le> S"
  shows "\<exists>cc'. immutable_cache_persist_alloc Z n cc = Inr (alloc_cur cc, cc') \<and> sync Z m H A S P c' cc' Hc \<and>
    grown cc Hc cc' Hc \<and> alloc_cur cc' = alloc_cur cc + ZEND_MM_ALIGNED_SIZE Z n \<and>
    already_allocated cc' = already_allocated cc"
proof -
  define cc' where "cc' = cc\<lparr>alloc_cur := alloc_cur cc + ZEND_MM_ALIGNED_SIZE Z n\<rparr>"
  have "immutable_cache_persist_alloc Z n cc = Inr (alloc_cur cc, cc')"
    using assms by (simp add: immutable_cache_persist_alloc_def cc'_def sync_def ADD_SIZE_def)
  moreover have "dom Hc \<subseteq> dom H \<union> {A..<A + psize_total c'}"
  proof -
    have "dom Hc \<subseteq> dom H \<union> {A..<A + psize_total c}" using assms(1) unfolding sync_def by blast
    moreover have "{A..<A + psize_total c} \<subseteq> {A..<A + psize_total c'}" by (auto simp: assms(2) ADD_SIZE_def)
    ultimately show ?thesis by blast
  qed
  then have "sync Z m H A S P c' cc' Hc"
    using assms(1) memo_ok_mono [of m H P cc Hc Hc cc']
    unfolding sync_def assms(2) ADD_SIZE_def cc'_def by simp
  ultimately show ?thesis by (auto simp: grown_def cc'_def)
qed

text \<open>The address is in shared memory and has never been written.\<close>

lemma alloc_fresh:
  assumes "setting Z m H A S" "sync Z m H A S P c cc Hc" "0 < n" "psize_total c + ZEND_MM_ALIGNED_SIZE Z n \<le> S"
  shows "immutable_cache_sma_contains_pointer m (alloc_cur cc)" "Hc (alloc_cur cc) = None"
proof -
  have "A \<le> alloc_cur cc" "alloc_cur cc < A + S"
    using assms(2,4) aligned_pos [of Z n] assms(1,3) by (auto simp: sync_def setting_def)
  then have "immutable_cache_sma_contains_pointer m (alloc_cur cc)" "alloc_cur cc \<notin> dom H"
    using assms(1) by (auto simp: setting_def)
  moreover have "dom Hc \<subseteq> dom H \<union> {A..<alloc_cur cc}" using assms(2) unfolding sync_def by metis
  ultimately show "immutable_cache_sma_contains_pointer m (alloc_cur cc)" "Hc (alloc_cur cc) = None"
    by auto
qed

subsection \<open>Strings\<close>

text \<open>Storing a complete object at a fresh address.\<close>

lemma sync_store:
  assumes s: "sync Z m H A S P c cc Hc" and a: "A \<le> a" "a < alloc_cur cc" "Hc a = None"
    and cl: "cell_shm Z m cl" "\<And>s. cl = CStr s \<Longrightarrow> str_hashed Z s"
  shows "sync Z m H A S P c cc (Hc(a \<mapsto> cl))" "Hc \<subseteq>\<^sub>m Hc(a \<mapsto> cl)"
proof -
  show le: "Hc \<subseteq>\<^sub>m Hc(a \<mapsto> cl)" using a(3) by (auto simp: map_le_def dom_def)
  have "H \<subseteq>\<^sub>m Hc(a \<mapsto> cl)" using s le map_le_trans unfolding sync_def by blast
  moreover have "dom (Hc(a \<mapsto> cl)) \<subseteq> dom H \<union> {A..<A + psize_total c}"
    using s a(1,2) unfolding sync_def by auto
  moreover have "heap_hashed Z (Hc(a \<mapsto> cl))"
    using s cl(2) by (auto simp: sync_def heap_hashed_def)
  ultimately show "sync Z m H A S P c cc (Hc(a \<mapsto> cl))"
    using s cl(1) memo_ok_mono [OF _ le, of m H P cc cc] shm_closed_upd unfolding sync_def by blast
qed

text \<open>Entering a finished copy into both tables.\<close>

lemma sync_memo:
  assumes s: "sync Z m H A S P c cc Hc" and "dom H \<subseteq> {..<2 ^ 64}" "a \<in> dom H"
    and p: "a \<notin> P \<Longrightarrow> immutable_cache_sma_contains_pointer m p \<and> (\<forall>s. H a = Some (CStr s) \<longrightarrow> str_at Hc p (zstr_val s)) \<and>
      (\<forall>v. rep H (IS_ARRAY a) v \<longrightarrow> rep Hc (IS_ARRAY p) v)"
    and c': "c' = (if memoization_needed c
      then c\<lparr>already_counted := insert (immutable_cache_pointer_to_hash_key a) (already_counted c)\<rparr> else c)"
  shows "sync Z m H A S P c' (immutable_cache_persist_add_already_allocated a p cc) Hc"
proof (cases "memoization_needed c")
  case False
  with s show ?thesis by (simp add: c' immutable_cache_persist_add_already_allocated_def sync_def)
next
  case True
  let ?k = immutable_cache_pointer_to_hash_key
  let ?cc = "cc\<lparr>already_allocated := (already_allocated cc)(?k a \<mapsto> p)\<rparr>"
  have "memo_ok m H P ?cc Hc"
    unfolding memo_ok_def
  proof (intro allI impI)
    fix b q assume b: "already_allocated ?cc (?k b) = Some q" "b \<in> dom H" "b \<notin> P"
    show "immutable_cache_sma_contains_pointer m q \<and> (\<forall>s. H b = Some (CStr s) \<longrightarrow> str_at Hc q (zstr_val s)) \<and>
        (\<forall>v. rep H (IS_ARRAY b) v \<longrightarrow> rep Hc (IS_ARRAY q) v)"
    proof (cases "?k b = ?k a")
      case True
      then have "b = a" using hash_key_inj [of b a] b(2) assms(2,3) by blast
      with b p show ?thesis by simp
    next
      case False
      with b s show ?thesis unfolding sync_def memo_ok_def by simp
    qed
  qed
  with s True show ?thesis
    unfolding sync_def by (simp add: c' immutable_cache_persist_add_already_allocated_def)
qed

lemma zend_okD:
  assumes "zend_ok Z"
  shows "0 < ZSTR_STRUCT_SIZE Z n" "0 < sizeof_HashTable Z" "n \<le> ZEND_MM_ALIGNED_SIZE Z n" "0 < sizeof_entry Z"
  using assms by (auto simp: zend_ok_def sizeof_entry_def intro: le_less_trans [of 0 n])

lemma zend_ok_sizes:
  assumes "zend_ok Z"
  shows "0 < nNumUsed t \<Longrightarrow> 0 < HT_USED_SIZE Z t" "0 < nNumUsed t \<Longrightarrow> 0 < HT_PACKED_USED_SIZE Z t"
    "nNumUsed t = nNumUsed u \<Longrightarrow> nTableMask t = nTableMask u \<Longrightarrow> HT_USED_SIZE Z t = HT_USED_SIZE Z u"
    "nNumUsed t = nNumUsed u \<Longrightarrow> nTableMask t = nTableMask u \<Longrightarrow> HT_PACKED_USED_SIZE Z t = HT_PACKED_USED_SIZE Z u"
  using assms unfolding zend_ok_def by blast+

lemma str_step:
  assumes st: "setting Z m H A S" and s: "sync Z m H A S P c cc Hc" and k: "H k = Some (CStr s)"
    and P: "k \<notin> P"
  shows "\<exists>c'. immutable_cache_persist_calc_str Z m H k c = Inr c' \<and> psize_total c \<le> psize_total c' \<and>
    (psize_total c' \<le> S \<longrightarrow>
      (\<exists>p H' cc'. immutable_cache_persist_get_or_copy_zstr Z m k Hc cc = Inr (p, H', cc') \<and>
         sync Z m H A S P c' cc' H' \<and> grown cc Hc cc' H' \<and> immutable_cache_sma_contains_pointer m p \<and> str_at H' p (zstr_val s)))"
proof -
  let ?k = "immutable_cache_pointer_to_hash_key k"
  have Hc: "Hc k = Some (CStr s)" using s k by (auto simp: sync_def map_le_def dom_def)
  have kd: "k \<in> dom H" using k by auto
  have mn: "memoization_needed cc = memoization_needed c" using s by (simp add: sync_def)
  consider (shm) "immutable_cache_sma_contains_pointer m k"
    | (seen) "\<not> immutable_cache_sma_contains_pointer m k" "memoization_needed c" "?k \<in> already_counted c"
    | (new) "\<not> immutable_cache_sma_contains_pointer m k" "\<not> (memoization_needed c \<and> ?k \<in> already_counted c)"
    by blast
  then show ?thesis
  proof cases
    case shm
    then show ?thesis
      using s Hc by (simp add: immutable_cache_persist_calc_str_def immutable_cache_persist_get_or_copy_zstr_def
          immutable_cache_persist_get_already_allocated_def str_at_def)
  next
    case seen
    then have "?k \<in> dom (already_allocated cc)"
      using s by (simp add: sync_def)
    then obtain p where p: "already_allocated cc ?k = Some p" by blast
    then have "immutable_cache_sma_contains_pointer m p" "str_at Hc p (zstr_val s)"
      using s k kd P by (auto simp: sync_def memo_ok_def)
    with seen p mn show ?thesis
      using s by (simp add: immutable_cache_persist_calc_str_def immutable_cache_persist_calc_memoize_def
          immutable_cache_persist_get_or_copy_zstr_def immutable_cache_persist_get_already_allocated_def)
  next
    case new
    let ?n = "ZSTR_STRUCT_SIZE Z (length (zstr_val s))"
    define c1 where "c1 = ADD_SIZE Z ?n c"
    define c' where "c' = (if memoization_needed c
      then c1\<lparr>already_counted := insert ?k (already_counted c1)\<rparr> else c1)"
    have calc: "immutable_cache_persist_calc_str Z m H k c = Inr c'"
      using new k by (auto simp: immutable_cache_persist_calc_str_def immutable_cache_persist_calc_memoize_def c'_def c1_def ADD_SIZE_def)
    have sz: "psize_total c' = psize_total c1" "psize_total c \<le> psize_total c1"
      by (simp_all add: c'_def c1_def ADD_SIZE_def)
    have none: "immutable_cache_persist_get_already_allocated m cc k = None"
      using new s by (auto simp: immutable_cache_persist_get_already_allocated_def sync_def)
    have "\<exists>p H' cc'. immutable_cache_persist_get_or_copy_zstr Z m k Hc cc = Inr (p, H', cc') \<and>
         sync Z m H A S P c' cc' H' \<and> grown cc Hc cc' H' \<and> immutable_cache_sma_contains_pointer m p \<and> str_at H' p (zstr_val s)"
      if le: "psize_total c' \<le> S"
    proof -
      have zok: "zend_ok Z" using st by (simp add: setting_def)
      have le1: "psize_total c1 \<le> S" "psize_total c + ZEND_MM_ALIGNED_SIZE Z ?n \<le> S"
        using le sz by (simp_all add: c1_def ADD_SIZE_def)
      obtain cc1 where a: "immutable_cache_persist_alloc Z ?n cc = Inr (alloc_cur cc, cc1)" "sync Z m H A S P c1 cc1 Hc"
        "grown cc Hc cc1 Hc" "alloc_cur cc1 = alloc_cur cc + ZEND_MM_ALIGNED_SIZE Z ?n"
        using alloc_step [OF s c1_def le1(1)] by blast
      note fr = alloc_fresh [OF st s zend_okD(1) [OF zok] le1(2)]
      let ?p = "alloc_cur cc"
      let ?s = "\<lparr>str_refcount = 2, str_immutable = True,
        zstr_h = (if zstr_h s = 0 then zend_string_hash_func Z (zstr_val s) else zstr_h s), zstr_val = zstr_val s\<rparr>"
      let ?H = "Hc(?p \<mapsto> CStr ?s)"
      have h: "zstr_h ?s = zend_string_hash_func Z (zstr_val ?s)"
        using st k by (auto simp: setting_def heap_hashed_def str_hashed_def)
      have "A \<le> ?p" "?p < alloc_cur cc1"
        using s a(4) aligned_pos [OF zok zend_okD(1) [OF zok]] by (simp_all add: sync_def)
      then have st1: "sync Z m H A S P c1 cc1 ?H" "Hc \<subseteq>\<^sub>m ?H"
        using sync_store [OF a(2) _ _ fr(2), of "CStr ?s"] h by (simp_all add: str_hashed_def)
      have dH: "dom H \<subseteq> {..<2 ^ 64}" using st by (simp add: setting_def)
      have mem: "immutable_cache_sma_contains_pointer m ?p \<and> (\<forall>s'. H k = Some (CStr s') \<longrightarrow> str_at ?H ?p (zstr_val s')) \<and>
          (\<forall>v. rep H (IS_ARRAY k) v \<longrightarrow> rep ?H (IS_ARRAY ?p) v)"
        using fr(1) k by (auto simp: str_at_def elim!: rep_arrayE)
      have m1: "memoization_needed c1 = memoization_needed c" by (simp add: c1_def ADD_SIZE_def)
      have "sync Z m H A S P c' (immutable_cache_persist_add_already_allocated k ?p cc1) ?H"
        by (rule sync_memo [OF st1(1) dH kd]) (use mem m1 in \<open>simp_all add: c'_def\<close>)
      moreover have "grown cc Hc (immutable_cache_persist_add_already_allocated k ?p cc1) ?H"
      proof -
        have "memoization_needed cc \<Longrightarrow> already_allocated cc ?k = None"
          using none new(1) by (simp add: immutable_cache_persist_get_already_allocated_def)
        moreover have "already_allocated cc1 = already_allocated cc" "memoization_needed cc1 = memoization_needed cc"
          using a(1) by (auto simp: immutable_cache_persist_alloc_def Let_def split: if_splits)
        ultimately show ?thesis
          using a(4) st1(2) by (auto simp: grown_def immutable_cache_persist_add_already_allocated_def map_le_def dom_def)
      qed
      moreover have "immutable_cache_persist_get_or_copy_zstr Z m k Hc cc =
          Inr (?p, ?H, immutable_cache_persist_add_already_allocated k ?p cc1)"
        using none Hc a(1) by (simp add: immutable_cache_persist_get_or_copy_zstr_def immutable_cache_persist_copy_cstr_def Let_def)
      ultimately show ?thesis using fr(1) by (auto simp: str_at_def)
    qed
    with calc sz show ?thesis by auto
  qed
qed

subsection \<open>The first pass succeeds\<close>

text \<open>What the first pass keeps of its context.\<close>

definition calc_rel :: "persist_context \<Rightarrow> persist_context \<Rightarrow> bool" where
  "calc_rel c c' \<longleftrightarrow> use_serialization c' = use_serialization c \<and> memoization_needed c' = memoization_needed c \<and>
     psize_total c \<le> psize_total c' \<and> pwarnings c' = pwarnings c \<and> pserializer c' = pserializer c \<and>
     serialized_str c' = serialized_str c \<and> already_allocated c' = already_allocated c"

lemma calc_rel_refl [simp]: "calc_rel c c"
  by (simp add: calc_rel_def)

lemma calc_rel_trans: "calc_rel a b \<Longrightarrow> calc_rel b c \<Longrightarrow> calc_rel a c"
  by (simp add: calc_rel_def)

lemma calc_rel_ADD_SIZE: "calc_rel c c' \<Longrightarrow> calc_rel c (ADD_SIZE Z n c')"
  by (simp add: calc_rel_def ADD_SIZE_def)

lemma calc_rel_memoize: "calc_rel c (snd (immutable_cache_persist_calc_memoize c p))"
  by (simp add: calc_rel_def immutable_cache_persist_calc_memoize_def)

lemma calc_str_ok:
  assumes "H k = Some (CStr s)"
  shows "\<exists>c'. immutable_cache_persist_calc_str Z m H k c = Inr c' \<and> calc_rel c c'"
  using assms calc_rel_memoize [of c k]
  by (auto simp: immutable_cache_persist_calc_str_def split: prod.splits intro: calc_rel_ADD_SIZE)

lemma rep_kind:
  assumes "rep H z v"
  shows "z \<noteq> IS_UNDEF" "z \<noteq> IS_INDIRECT x"
  using assms by (auto elim: rep.cases)

lemma calc_packed_step:
  assumes "z \<noteq> IS_INDIRECT (Z_PTR z)"
  shows "calc_packed rec (z # zs) c =
    ebind (rec z c) (\<lambda>(ok, c). if \<not> ok then Inr (False, c) else calc_packed rec zs c)"
  using assms by (cases z) auto

lemma calc_buckets_step:
  assumes "bval b \<noteq> IS_UNDEF" "bval b \<noteq> IS_INDIRECT (Z_PTR (bval b))"
  shows "calc_buckets rec Z m H (b # bs) c =
    ebind (case bkey b of None \<Rightarrow> Inr c | Some k \<Rightarrow> immutable_cache_persist_calc_str Z m H k c) (\<lambda>c.
    ebind (rec (bval b) c) (\<lambda>(ok, c). if \<not> ok then Inr (False, c) else calc_buckets rec Z m H bs c))"
  using assms by (cases "bval b") auto

lemma calc_undef: "0 < n \<Longrightarrow> immutable_cache_persist_calc_zval n Z m H IS_UNDEF c = Inr (True, c)"
  by (cases n) auto

lemma calc_below: "0 < n \<Longrightarrow> below_IS_STRING z \<Longrightarrow> immutable_cache_persist_calc_zval n Z m H z c = Inr (True, c)"
  by (cases n) auto

lemma calc_ht_ok:
  assumes t: "H a = Some (CHt t)" and u: "\<not> use_serialization c"
    and p: "\<And>c zs. ht_packed t \<Longrightarrow> 0 < nNumUsed t \<Longrightarrow> H (arData t) = Some (CData (Packed zs)) \<Longrightarrow> \<not> use_serialization c \<Longrightarrow>
      length zs = nNumUsed t \<and> (\<exists>c'. calc_packed rec zs c = Inr (True, c') \<and> calc_rel c c')"
    and b: "\<And>c bs. \<not> ht_packed t \<Longrightarrow> 0 < nNumUsed t \<Longrightarrow> H (arData t) = Some (CData (Buckets bs)) \<Longrightarrow> \<not> use_serialization c \<Longrightarrow>
      length bs = nNumUsed t \<and> (\<exists>c'. calc_buckets rec Z m H bs c = Inr (True, c') \<and> calc_rel c c')"
    and d: "0 < nNumUsed t \<Longrightarrow> if ht_packed t then \<exists>zs. H (arData t) = Some (CData (Packed zs))
      else \<exists>bs. H (arData t) = Some (CData (Buckets bs))"
  shows "\<exists>c'. immutable_cache_persist_calc_ht rec Z m H a c = Inr (True, c') \<and> calc_rel c c'"
proof -
  let ?c = "ADD_SIZE Z (sizeof_HashTable Z) c"
  have u': "\<not> use_serialization (ADD_SIZE Z n ?c)" for n using u by (simp add: ADD_SIZE_def)
  have r: "calc_rel c (ADD_SIZE Z n ?c)" for n by (intro calc_rel_ADD_SIZE) simp
  consider "nNumUsed t = 0" | "0 < nNumUsed t" "ht_packed t" | "0 < nNumUsed t" "\<not> ht_packed t" by auto
  then show ?thesis
  proof cases
    case 1
    then show ?thesis using t by (auto simp: immutable_cache_persist_calc_ht_def intro: calc_rel_ADD_SIZE)
  next
    case 2
    then obtain zs where zs: "H (arData t) = Some (CData (Packed zs))" using d by auto
    from p [OF 2(2,1) zs u'] show ?thesis
      using 2 t zs r calc_rel_trans by (fastforce simp: immutable_cache_persist_calc_ht_def)
  next
    case 3
    then obtain bs where bs: "H (arData t) = Some (CData (Buckets bs))" using d by auto
    from b [OF 3(2,1) bs u'] show ?thesis
      using 3 t bs r calc_rel_trans by (fastforce simp: immutable_cache_persist_calc_ht_def)
  qed
qed

text \<open>The part of \<open>calc_zval\<close> for an array, once it is known that its table is counted.\<close>

lemma calc_array:
  assumes "\<not> use_serialization c"
    and "\<And>c. \<not> use_serialization c \<Longrightarrow>
      \<exists>c'. immutable_cache_persist_calc_ht (immutable_cache_persist_calc_zval n Z m H) Z m H a c = Inr (True, c') \<and> calc_rel c c'"
  shows "\<exists>c'. immutable_cache_persist_calc_zval (Suc n) Z m H (IS_ARRAY a) c = Inr (True, c') \<and> calc_rel c c'"
proof -
  have r: "calc_rel c (snd (immutable_cache_persist_calc_memoize c a))" by (rule calc_rel_memoize)
  then have "\<not> use_serialization (snd (immutable_cache_persist_calc_memoize c a))"
    using assms(1) by (simp add: calc_rel_def)
  from assms(2) [OF this] r assms(1) show ?thesis
    by (auto split: prod.splits dest: calc_rel_trans)
qed

lemma calc_ok:
  "rep H z v \<Longrightarrow> psize v \<le> n \<Longrightarrow> \<not> use_serialization c \<Longrightarrow>
    \<exists>c'. immutable_cache_persist_calc_zval n Z m H z c = Inr (True, c') \<and> calc_rel c c'"
  "rep_slots H i zs es \<Longrightarrow> esize es \<le> n \<Longrightarrow> 0 < n \<Longrightarrow> \<not> use_serialization c \<Longrightarrow>
    \<exists>c'. calc_packed (immutable_cache_persist_calc_zval n Z m H) zs c = Inr (True, c') \<and> calc_rel c c'"
  "rep_buckets H bs es \<Longrightarrow> esize es \<le> n \<Longrightarrow> 0 < n \<Longrightarrow> \<not> use_serialization c \<Longrightarrow>
    \<exists>c'. calc_buckets (immutable_cache_persist_calc_zval n Z m H) Z m H bs c = Inr (True, c') \<and> calc_rel c c'"
proof (induction arbitrary: n c and n c and n c rule: rep_rep_slots_rep_buckets.inducts)
  case (rep_string a s)
  then obtain n' where n: "n = Suc n'" by (cases n) auto
  have r: "calc_rel c (snd (immutable_cache_persist_calc_memoize c a))" by (rule calc_rel_memoize)
  with rep_string n show ?case
    by (auto split: prod.splits intro: calc_rel_ADD_SIZE)
next
  case (rep_empty a t)
  then obtain n' where n: "n = Suc n'" by (cases n) auto
  show ?case unfolding n
    by (intro calc_array [OF rep_empty.prems(2)] calc_ht_ok [of H a t]) (use rep_empty in auto)
next
  case (rep_packed a t zs es)
  then obtain n' where n: "n = Suc n'" "esize es \<le> n'" "0 < n'" by (cases n) (auto simp: psize_PArr)
  show ?case unfolding n(1)
    by (intro calc_array [OF rep_packed.prems(2)] calc_ht_ok [of H a t])
      (use rep_packed.hyps rep_packed.IH(1,2) rep_packed.IH(4) [OF n(2,3)] in auto)
next
  case (rep_hash a t bs es)
  then obtain n' where n: "n = Suc n'" "esize es \<le> n'" "0 < n'" by (cases n) (auto simp: psize_PArr)
  show ?case unfolding n(1)
    by (intro calc_array [OF rep_hash.prems(2)] calc_ht_ok [of H a t])
      (use rep_hash.hyps rep_hash.IH(1,2) rep_hash.IH(4) [OF n(2,3)] in auto)
next
  case (slots_undef i zs es)
  then show ?case by (simp add: calc_undef)
next
  case (slots_cons z v i zs es)
  obtain c1 where c1: "immutable_cache_persist_calc_zval n Z m H z c = Inr (True, c1)" "calc_rel c c1"
    using slots_cons by fastforce
  then have "\<not> use_serialization c1" using slots_cons.prems by (simp add: calc_rel_def)
  moreover have "esize es \<le> n" using slots_cons.prems by simp
  ultimately obtain c2 where "calc_packed (immutable_cache_persist_calc_zval n Z m H) zs c1 = Inr (True, c2)" "calc_rel c1 c2"
    using slots_cons.IH(4) slots_cons.prems(2) by blast
  with c1 show ?case
    using calc_packed_step rep_kind [OF slots_cons.IH(1)] calc_rel_trans [OF c1(2)] by auto
next
  case (buckets_undef b bs es)
  then show ?case by simp
next
  case (buckets_int b v bs es)
  obtain c1 where c1: "immutable_cache_persist_calc_zval n Z m H (bval b) c = Inr (True, c1)" "calc_rel c c1"
    using buckets_int by fastforce
  then have "\<not> use_serialization c1" using buckets_int.prems by (simp add: calc_rel_def)
  moreover have "esize es \<le> n" using buckets_int.prems by simp
  ultimately obtain c2 where "calc_buckets (immutable_cache_persist_calc_zval n Z m H) Z m H bs c1 = Inr (True, c2)" "calc_rel c1 c2"
    using buckets_int.IH(4) buckets_int.prems(2) by blast
  with c1 show ?case
    using calc_buckets_step rep_kind [OF buckets_int.IH(1)] calc_rel_trans [OF c1(2)] buckets_int.hyps(1) by auto
next
  case (buckets_str b k s v bs es)
  obtain c0 where c0: "immutable_cache_persist_calc_str Z m H k c = Inr c0" "calc_rel c c0"
    using calc_str_ok [of H k s Z m c] \<open>H k = Some (CStr s)\<close> by blast
  then have u0: "\<not> use_serialization c0" using buckets_str.prems by (simp add: calc_rel_def)
  have "psize v \<le> n" using buckets_str.prems by simp
  from buckets_str.IH(3) [OF this u0] obtain c1 where
    c1: "immutable_cache_persist_calc_zval n Z m H (bval b) c0 = Inr (True, c1)" "calc_rel c0 c1" by blast
  then have "\<not> use_serialization c1" using u0 by (simp add: calc_rel_def)
  moreover have "esize es \<le> n" using buckets_str.prems by simp
  ultimately obtain c2 where c2: "calc_buckets (immutable_cache_persist_calc_zval n Z m H) Z m H bs c1 = Inr (True, c2)" "calc_rel c1 c2"
    using buckets_str.IH(5) buckets_str.prems(2) by blast
  have "calc_rel c c2" by (rule calc_rel_trans [OF calc_rel_trans [OF c0(2) c1(2)] c2(2)])
  moreover have "calc_buckets (immutable_cache_persist_calc_zval n Z m H) Z m H (b # bs) c = Inr (True, c2)"
    using rep_kind [OF \<open>rep H (bval b) v\<close>] buckets_str.hyps(1) c0(1) c1(1) c2(1) by (subst calc_buckets_step) auto
  ultimately show ?case by blast
qed (auto simp: calc_below)

subsection \<open>The second pass matches the first\<close>

text \<open>The arrays under way are larger than the value at hand, so they are not part of it.\<close>

definition busy :: "heap \<Rightarrow> addr set \<Rightarrow> nat \<Rightarrow> bool" where
  "busy H P k \<longleftrightarrow> (\<forall>a \<in> P. (\<exists>t. H a = Some (CHt t)) \<and> (\<forall>w. rep H (IS_ARRAY a) w \<longrightarrow> k < psize w))"

lemma busy_mono: "busy H P k \<Longrightarrow> j \<le> k \<Longrightarrow> busy H P j"
  unfolding busy_def by (meson le_less_trans)

lemma busy_insert:
  assumes "busy H P (psize v)" "rep H (IS_ARRAY a) v" "k < psize v"
  shows "busy H (insert a P) k"
proof -
  have "\<exists>t. H a = Some (CHt t)" using assms(2) by (auto elim!: rep_arrayE)
  moreover have "k < psize w" if "rep H (IS_ARRAY a) w" for w using rep_det(1) [OF assms(2) that] assms(3) by simp
  moreover have "busy H P k" using busy_mono [OF assms(1), of k] assms(3) by simp
  ultimately show ?thesis by (simp add: busy_def)
qed

lemma busy_str: "busy H P k \<Longrightarrow> H a = Some (CStr s) \<Longrightarrow> a \<notin> P"
  by (auto simp: busy_def)

lemma busy_arr: "busy H P (psize v) \<Longrightarrow> rep H (IS_ARRAY a) v \<Longrightarrow> a \<notin> P"
  by (auto simp: busy_def)

text \<open>What the copy of one value, of the slots of a packed array and of the buckets of a hash
  array achieves when the first pass ended in \<open>c'\<close>.\<close>

definition copied :: "zend_abi \<Rightarrow> immutable_cache_sma_t \<Rightarrow> heap \<Rightarrow> addr \<Rightarrow> size_t \<Rightarrow> addr set \<Rightarrow>
  persist_context \<Rightarrow> persist_context \<Rightarrow> heap \<Rightarrow> (heap \<times> persist_context) \<Rightarrow> bool" where
  "copied Z m H A S P c' cc Hc r \<longleftrightarrow> sync Z m H A S P c' (snd r) (fst r) \<and> grown cc Hc (snd r) (fst r)"

lemma copied_sync: "copied Z m H A S P c' cc Hc (H', cc') \<Longrightarrow> sync Z m H A S P c' cc' H'"
  by (simp add: copied_def)

lemma copied_trans:
  "copied Z m H A S P c1 cc Hc (H1, cc1) \<Longrightarrow> copied Z m H A S P c2 cc1 H1 r \<Longrightarrow> copied Z m H A S P c2 cc Hc r"
  by (auto simp: copied_def intro: grown_trans)

lemma copied_map_le: "copied Z m H A S P c' cc Hc (H', cc') \<Longrightarrow> Hc \<subseteq>\<^sub>m H'"
  by (simp add: copied_def grown_def)

lemma sync_weaken:
  "sync Z m H A S P c cc Hc \<Longrightarrow> P \<subseteq> P' \<Longrightarrow> sync Z m H A S P' c cc Hc"
  unfolding sync_def memo_ok_def by blast

text \<open>The array is finished: it leaves the set of arrays under way.\<close>

lemma sync_finish:
  assumes "sync Z m H A S (insert a P) c cc Hc" "dom H \<subseteq> {..<2 ^ 64}" "a \<in> dom H"
    and "memoization_needed cc \<Longrightarrow> already_allocated cc (immutable_cache_pointer_to_hash_key a) = Some p"
    and "immutable_cache_sma_contains_pointer m p" "rep Hc (IS_ARRAY p) v" "rep H (IS_ARRAY a) v"
  shows "sync Z m H A S P c cc Hc"
proof -
  have none: "\<not> memoization_needed cc \<Longrightarrow> already_allocated cc = Map.empty"
    using assms(1) by (simp add: sync_def)
  have "memo_ok m H P cc Hc"
    unfolding memo_ok_def
  proof (intro allI impI)
    fix b q assume b: "already_allocated cc (immutable_cache_pointer_to_hash_key b) = Some q" "b \<in> dom H" "b \<notin> P"
    show "immutable_cache_sma_contains_pointer m q \<and> (\<forall>s. H b = Some (CStr s) \<longrightarrow> str_at Hc q (zstr_val s)) \<and>
        (\<forall>v. rep H (IS_ARRAY b) v \<longrightarrow> rep Hc (IS_ARRAY q) v)"
    proof (cases "b = a")
      case True
      then have "q = p" using assms(4) none b(1) by (cases "memoization_needed cc") auto
      moreover have "\<exists>t. H a = Some (CHt t)" using assms(7) by (auto elim!: rep_arrayE)
      moreover have "rep Hc (IS_ARRAY p) w" if "rep H (IS_ARRAY a) w" for w
        using rep_det(1) [OF assms(7) that] assms(6) by simp
      ultimately show ?thesis using True assms(5) by auto
    next
      case False
      with b assms(1) show ?thesis unfolding sync_def memo_ok_def by simp
    qed
  qed
  with assms(1) show ?thesis unfolding sync_def by blast
qed

end
