(* ===== verification/Persist_Copy.thy ===== *)
theory Persist_Copy
  imports Persist_Laws
begin

text \<open>
  The induction that couples the two passes of \<^verbatim>\<open>immutable_cache_persist.c\<close>: whatever the first
  pass counted, the second pass copies into exactly that many bytes.
\<close>

subsection \<open>One hash table\<close>

text \<open>The last steps of the copy of a table: its data and its header are stored at the addresses
  \<open>d\<close> and \<open>p\<close> reserved before the elements were copied.\<close>

lemma ht_finish:
  assumes st: "setting Z m H A S" and s: "sync Z m H A S (insert a P) c' cc4 H1"
    and p: "A \<le> p" "p < d" "d < alloc_cur cc3" "alloc_cur cc3 \<le> alloc_cur cc4" "Hc p = None" "Hc d = None"
    and H1: "dom H1 \<subseteq> dom Hc \<union> {alloc_cur cc3..}"
    and m: "memoization_needed cc4 \<longrightarrow> already_allocated cc4 (immutable_cache_pointer_to_hash_key a) = Some p"
    and shm: "immutable_cache_sma_contains_pointer m p" "cell_shm Z m (CData dt)" "cell_shm Z m (CHt t)"
    and v: "\<forall>H'. H1 \<subseteq>\<^sub>m H' \<longrightarrow> H' p = Some (CHt t) \<longrightarrow> H' d = Some (CData dt) \<longrightarrow> rep H' (IS_ARRAY p) v"
    and a: "rep H (IS_ARRAY a) v"
  defines "H' \<equiv> H1(d \<mapsto> CData dt, p \<mapsto> CHt t)"
  shows "sync Z m H A S P c' cc4 H'" "H1 \<subseteq>\<^sub>m H'" "rep H' (IS_ARRAY p) v"
proof -
  have n: "H1 d = None" "H1 p = None" using H1 p by auto
  have s1: "sync Z m H A S (insert a P) c' cc4 (H1(d \<mapsto> CData dt))" "H1 \<subseteq>\<^sub>m H1(d \<mapsto> CData dt)"
    using sync_store [OF s _ _ n(1) shm(2)] p by auto
  have n2: "(H1(d \<mapsto> CData dt)) p = None" using n(2) p(2) by simp
  have s2: "sync Z m H A S (insert a P) c' cc4 H'" "H1(d \<mapsto> CData dt) \<subseteq>\<^sub>m H'"
    unfolding H'_def using p by (rule_tac sync_store [OF s1(1) p(1) _ n2 shm(3)]; simp)+
  show le: "H1 \<subseteq>\<^sub>m H'" by (rule map_le_trans [OF s1(2) s2(2)])
  show r: "rep H' (IS_ARRAY p) v" using p(2) v le by (simp add: H'_def)
  have "a \<in> dom H" using a by (auto elim!: rep_arrayE)
  moreover have "dom H \<subseteq> {..<2 ^ 64}" using st by (simp add: setting_def)
  ultimately show "sync Z m H A S P c' cc4 H'"
    by (intro sync_finish [OF s2(1) _ _ mp [OF m] shm(1) r a])
qed

text \<open>The first steps: header allocated, entered as under way, data allocated.\<close>

definition counted_array :: "persist_context \<Rightarrow> addr \<Rightarrow> persist_context" where
  "counted_array c a = (if memoization_needed c
     then c\<lparr>already_counted := insert (immutable_cache_pointer_to_hash_key a) (already_counted c)\<rparr> else c)"

lemma ADD_SIZE_counted: "ADD_SIZE Z n (counted_array c a) = counted_array (ADD_SIZE Z n c) a"
  by (simp add: ADD_SIZE_def counted_array_def)

lemma ht_begin:
  assumes st: "setting Z m H A S" and s: "sync Z m H A S P c cc Hc" and a: "a \<in> dom H"
    and new: "\<not> immutable_cache_sma_contains_pointer m a"
      "\<not> (memoization_needed c \<and> immutable_cache_pointer_to_hash_key a \<in> already_counted c)"
    and c1: "c1 = ADD_SIZE Z (sizeof_HashTable Z) (counted_array c a)" "psize_total c1 \<le> S"
  obtains cc1 cc2 where "immutable_cache_persist_alloc Z (sizeof_HashTable Z) cc = Inr (alloc_cur cc, cc1)"
    "cc2 = immutable_cache_persist_add_already_allocated a (alloc_cur cc) cc1" "sync Z m H A S (insert a P) c1 cc2 Hc"
    "grown cc Hc cc2 Hc" "A \<le> alloc_cur cc" "alloc_cur cc < alloc_cur cc2"
    "immutable_cache_sma_contains_pointer m (alloc_cur cc)" "Hc (alloc_cur cc) = None"
    "memoization_needed cc2 \<longrightarrow> already_allocated cc2 (immutable_cache_pointer_to_hash_key a) = Some (alloc_cur cc)"
proof -
  let ?n = "sizeof_HashTable Z"
  have zok: "zend_ok Z" and dH: "dom H \<subseteq> {..<2 ^ 64}" using st by (simp_all add: setting_def)
  have t: "psize_total c1 = psize_total c + ZEND_MM_ALIGNED_SIZE Z ?n"
    by (simp add: c1 ADD_SIZE_def counted_array_def)
  have le: "psize_total (ADD_SIZE Z ?n c) \<le> S" "psize_total c + ZEND_MM_ALIGNED_SIZE Z ?n \<le> S"
    using c1(2) t by (simp_all add: ADD_SIZE_def)
  obtain cc1 where al: "immutable_cache_persist_alloc Z ?n cc = Inr (alloc_cur cc, cc1)"
    "sync Z m H A S P (ADD_SIZE Z ?n c) cc1 Hc" "alloc_cur cc1 = alloc_cur cc + ZEND_MM_ALIGNED_SIZE Z ?n"
    "already_allocated cc1 = already_allocated cc"
    using alloc_step [OF s refl le(1)] by blast
  note fr = alloc_fresh [OF st s zend_okD(2) [OF zok] le(2)]
  define cc2 where "cc2 = immutable_cache_persist_add_already_allocated a (alloc_cur cc) cc1"
  have s2: "sync Z m H A S (insert a P) c1 cc2 Hc"
    unfolding cc2_def using a dH
    by (intro sync_memo [OF sync_weaken [OF al(2), of "insert a P"]])
      (simp_all add: c1(1) ADD_SIZE_counted [unfolded counted_array_def, symmetric] counted_array_def [symmetric] ADD_SIZE_counted subset_insertI)
  have m: "memoization_needed cc1 = memoization_needed cc" "memoization_needed cc = memoization_needed c"
    using al(2) s by (simp_all add: sync_def ADD_SIZE_def)
  have "memoization_needed cc \<Longrightarrow> already_allocated cc (immutable_cache_pointer_to_hash_key a) = None"
    using new s by (auto simp: sync_def)
  then have g: "grown cc Hc cc2 Hc"
    using al(3,4) m by (auto simp: grown_def cc2_def immutable_cache_persist_add_already_allocated_def map_le_def dom_def)
  have lt: "A \<le> alloc_cur cc" "alloc_cur cc < alloc_cur cc2"
    using s al(3) aligned_pos [OF zok zend_okD(2) [OF zok]]
    by (simp_all add: sync_def cc2_def immutable_cache_persist_add_already_allocated_def)
  show thesis
    by (rule that [OF al(1) cc2_def s2 g lt fr]) (simp add: cc2_def immutable_cache_persist_add_already_allocated_def)
qed

text \<open>The data of a table that is not empty.\<close>

lemma data_begin:
  assumes st: "setting Z m H A S" and s: "sync Z m H A S P c1 cc2 Hc" and n: "0 < n"
    and c2: "psize_total (ADD_SIZE Z n c1) \<le> S"
  obtains cc3 where "immutable_cache_persist_alloc Z n cc2 = Inr (alloc_cur cc2, cc3)"
    "sync Z m H A S P (ADD_SIZE Z n c1) cc3 Hc" "grown cc2 Hc cc3 Hc" "alloc_cur cc2 < alloc_cur cc3"
    "immutable_cache_sma_contains_pointer m (alloc_cur cc2)" "Hc (alloc_cur cc2) = None"
proof -
  have zok: "zend_ok Z" using st by (simp add: setting_def)
  have le: "psize_total c1 + ZEND_MM_ALIGNED_SIZE Z n \<le> S" using c2 by (simp add: ADD_SIZE_def)
  from alloc_step [OF s refl c2] alloc_fresh [OF st s n le] aligned_pos [OF zok n] show thesis using that by auto
qed

text \<open>The loops over the elements, as \<open>ht_step\<close> needs them: \<open>crec\<close> copies what
  \<open>rec\<close> counted.\<close>

definition packed_loop where
  "packed_loop Z m H A S P rec crec v zs \<longleftrightarrow>
     (\<forall>c0 c1. calc_packed rec zs c0 = Inr (True, c1) \<longrightarrow> \<not> use_serialization c0 \<longrightarrow> psize_total c0 \<le> psize_total c1) \<and>
     (\<forall>c0 cc0 H0 c1. sync Z m H A S P c0 cc0 H0 \<longrightarrow> calc_packed rec zs c0 = Inr (True, c1) \<longrightarrow> psize_total c1 \<le> S \<longrightarrow>
       (\<exists>zs' ip nf H1 cc1 es. copy_packed crec 0 zs None 0 H0 cc0 = Inr (zs', ip, nf, H1, cc1) \<and>
          copied Z m H A S P c1 cc0 H0 (H1, cc1) \<and> v = PArr es \<and> rep_slots H1 0 zs' es \<and> length zs' = length zs \<and>
          (\<forall>z \<in> set zs'. zval_shm m z)))"

definition bucket_loop where
  "bucket_loop Z m H A S P rec crec v bs \<longleftrightarrow>
     (\<forall>c0 c1. calc_buckets rec Z m H bs c0 = Inr (True, c1) \<longrightarrow> \<not> use_serialization c0 \<longrightarrow> psize_total c0 \<le> psize_total c1) \<and>
     (\<forall>c0 cc0 H0 c1. sync Z m H A S P c0 cc0 H0 \<longrightarrow> calc_buckets rec Z m H bs c0 = Inr (True, c1) \<longrightarrow> psize_total c1 \<le> S \<longrightarrow>
       (\<exists>bs' ip nf H1 cc1 es. copy_buckets crec Z m 0 bs None 0 H0 cc0 = Inr (bs', ip, nf, H1, cc1) \<and>
          copied Z m H A S P c1 cc0 H0 (H1, cc1) \<and> v = PArr es \<and> rep_buckets H1 bs' es \<and> length bs' = length bs \<and>
          (\<forall>b \<in> set bs'. bucket_shm m b)))"

lemma rep_ht_fields:
  assumes "rep H (IS_ARRAY a) (PArr es)" "H a = Some (CHt t)"
  shows "nNumOfElements t = length es" "nNumUsed t = 0 \<Longrightarrow> es = []"
  using assms by (auto elim!: rep_arrayE)

lemma ht_step_empty:
  assumes st: "setting Z m H A S" and s: "sync Z m H A S P c cc Hc" and a: "rep H (IS_ARRAY a) v"
    and t: "H a = Some (CHt t)" "nNumUsed t = 0"
    and new: "\<not> immutable_cache_sma_contains_pointer m a"
      "\<not> (memoization_needed c \<and> immutable_cache_pointer_to_hash_key a \<in> already_counted c)"
    and calc: "immutable_cache_persist_calc_ht rec Z m H a (counted_array c a) = Inr (True, c')" "psize_total c' \<le> S"
  shows "\<exists>p H' cc'. immutable_cache_persist_copy_ht crec Z m a Hc cc = Inr (p, H', cc') \<and>
    copied Z m H A S P c' cc Hc (H', cc') \<and> rep H' (IS_ARRAY p) v \<and> immutable_cache_sma_contains_pointer m p"
proof -
  have c': "c' = ADD_SIZE Z (sizeof_HashTable Z) (counted_array c a)"
    using calc(1) t by (simp add: immutable_cache_persist_calc_ht_def)
  have ad: "a \<in> dom H" "Hc a = Some (CHt t)" and dH: "dom H \<subseteq> {..<2 ^ 64}"
    using t s st by (auto simp: sync_def setting_def map_le_def dom_def)
  let ?p = "alloc_cur cc"
  obtain cc1 cc2 where b: "immutable_cache_persist_alloc Z (sizeof_HashTable Z) cc = Inr (?p, cc1)"
    "cc2 = immutable_cache_persist_add_already_allocated a ?p cc1" "sync Z m H A S (insert a P) c' cc2 Hc"
    "grown cc Hc cc2 Hc" "A \<le> ?p" "?p < alloc_cur cc2" "immutable_cache_sma_contains_pointer m ?p" "Hc ?p = None"
    "memoization_needed cc2 \<longrightarrow> already_allocated cc2 (immutable_cache_pointer_to_hash_key a) = Some ?p"
    using ht_begin [OF st s ad(1) new c' calc(2)] .
  define t' where "t' = t\<lparr>ht_refcount := 2, ht_immutable := True, ht_has_destructor := False, ht_static_keys := True,
    ht_uninitialized := True, ht_packed := False, ht_static_keys := False, nNextFreeElement := 0, nTableMask := HT_MIN_MASK Z, arData := 0\<rparr>"
  let ?H = "Hc(?p \<mapsto> CHt t')"
  have v: "v = PArr []" "nNumOfElements t = 0" using a t by (auto elim!: rep_arrayE)
  have r: "rep ?H (IS_ARRAY ?p) v"
    unfolding v(1) by (rule rep_empty [where t = t']) (use t v(2) in \<open>simp_all add: t'_def\<close>)
  have cl: "cell_shm Z m (CHt t')" using t by (simp add: t'_def)
  have s2: "sync Z m H A S (insert a P) c' cc2 ?H" "Hc \<subseteq>\<^sub>m ?H"
    by (rule sync_store [OF b(3,5,6,8) cl]; simp)+
  have "sync Z m H A S P c' cc2 ?H"
    by (rule sync_finish [OF s2(1) dH ad(1) _ b(7) r a]) (use b(9) in blast)
  moreover have "grown cc Hc cc2 ?H" using b(4,6) s2(2) by (auto simp: grown_def)
  moreover have "immutable_cache_persist_copy_ht crec Z m a Hc cc = Inr (?p, ?H, cc2)"
    using ad(2) b(1,2) t(2) by (simp add: immutable_cache_persist_copy_ht_def t'_def)
  ultimately show ?thesis using r b(7) by (auto simp: copied_def)
qed

lemma ht_step_close:
  assumes st: "setting Z m H A S" and a: "rep H (IS_ARRAY a) v"
    and p: "A \<le> p" "p < alloc_cur cc2" "Hc p = None" "immutable_cache_sma_contains_pointer m p" "alloc_cur cc \<le> p"
    and gb: "grown cc Hc cc2 Hc" and gd: "grown cc2 Hc cc3 Hc"
    and d: "d = alloc_cur cc2" "d < alloc_cur cc3" "Hc d = None"
    and m: "memoization_needed cc2 \<longrightarrow> already_allocated cc2 (immutable_cache_pointer_to_hash_key a) = Some p"
    and cp: "copied Z m H A S (insert a P) c' cc3 Hc (H1, cc4)" and cl: "cell_shm Z m (CData dt)" "cell_shm Z m (CHt t')"
    and r: "\<forall>H'. H1 \<subseteq>\<^sub>m H' \<longrightarrow> H' p = Some (CHt t') \<longrightarrow> H' d = Some (CData dt) \<longrightarrow> rep H' (IS_ARRAY p) v"
  shows "copied Z m H A S P c' cc Hc (H1(d \<mapsto> CData dt, p \<mapsto> CHt t'), cc4)"
    "rep (H1(d \<mapsto> CData dt, p \<mapsto> CHt t')) (IS_ARRAY p) v"
proof -
  have g: "Hc \<subseteq>\<^sub>m H1" "dom H1 \<subseteq> dom Hc \<union> {alloc_cur cc3..}" "alloc_cur cc3 \<le> alloc_cur cc4"
    and s4: "sync Z m H A S (insert a P) c' cc4 H1"
    using cp by (auto simp: copied_def grown_def)
  have g2: "grown cc2 Hc cc4 H1" using grown_trans [OF gd] cp by (simp add: copied_def)
  have g1: "grown cc Hc cc4 H1" by (rule grown_trans [OF gb g2])
  have mm: "memoization_needed cc4 = memoization_needed cc2" "already_allocated cc2 \<subseteq>\<^sub>m already_allocated cc4"
    using g2 by (simp_all add: grown_def)
  have mp: "memoization_needed cc4 \<longrightarrow> already_allocated cc4 (immutable_cache_pointer_to_hash_key a) = Some p"
    using m mm by (force simp: map_le_def)
  have pd: "p < d" using p(2) d(1) by simp
  note closed = ht_finish [OF st s4 p(1) pd d(2) g(3) p(3) d(3) g(2) mp p(4) cl r a]
  have "grown cc Hc cc4 (H1(d \<mapsto> CData dt, p \<mapsto> CHt t'))"
    using map_le_trans [OF g(1) closed(2)] g1 p(5) pd by (auto simp: grown_def)
  with closed show "copied Z m H A S P c' cc Hc (H1(d \<mapsto> CData dt, p \<mapsto> CHt t'), cc4)"
    "rep (H1(d \<mapsto> CData dt, p \<mapsto> CHt t')) (IS_ARRAY p) v" by (simp_all add: copied_def)
qed

text \<open>Shared by the packed and the hash case: everything around the loop. \<open>closes\<close> says that
  once the loop has copied the elements, storing data and header completes the copy.\<close>

definition closes where
  "closes Z m H A S P cc Hc a p d cc3 v \<longleftrightarrow>
     immutable_cache_sma_contains_pointer m p \<and> immutable_cache_sma_contains_pointer m d \<and>
     (\<forall>c' H1 cc4 dt t'. copied Z m H A S (insert a P) c' cc3 Hc (H1, cc4) \<longrightarrow> cell_shm Z m (CData dt) \<longrightarrow> cell_shm Z m (CHt t') \<longrightarrow>
       (\<forall>H'. H1 \<subseteq>\<^sub>m H' \<longrightarrow> H' p = Some (CHt t') \<longrightarrow> H' d = Some (CData dt) \<longrightarrow> rep H' (IS_ARRAY p) v) \<longrightarrow>
       copied Z m H A S P c' cc Hc (H1(d \<mapsto> CData dt, p \<mapsto> CHt t'), cc4) \<and> rep (H1(d \<mapsto> CData dt, p \<mapsto> CHt t')) (IS_ARRAY p) v)"

lemma ht_step_around:
  assumes st: "setting Z m H A S" and s: "sync Z m H A S P c cc Hc" and a: "rep H (IS_ARRAY a) v"
    and t: "H a = Some (CHt t)" and n: "0 < n"
    and new: "\<not> immutable_cache_sma_contains_pointer m a"
      "\<not> (memoization_needed c \<and> immutable_cache_pointer_to_hash_key a \<in> already_counted c)"
    and c2: "c2 = ADD_SIZE Z n (ADD_SIZE Z (sizeof_HashTable Z) (counted_array c a))" "psize_total c2 \<le> S"
  obtains p d cc1 cc3 where "immutable_cache_persist_alloc Z (sizeof_HashTable Z) cc = Inr (p, cc1)"
    "immutable_cache_persist_alloc Z n (immutable_cache_persist_add_already_allocated a p cc1) = Inr (d, cc3)"
    "sync Z m H A S (insert a P) c2 cc3 Hc" "closes Z m H A S P cc Hc a p d cc3 v"
proof -
  let ?c1 = "ADD_SIZE Z (sizeof_HashTable Z) (counted_array c a)"
  have ad: "a \<in> dom H" using t by auto
  have le1: "psize_total ?c1 \<le> S" using c2 by (simp add: ADD_SIZE_def)
  let ?p = "alloc_cur cc"
  obtain cc1 cc2 where b: "immutable_cache_persist_alloc Z (sizeof_HashTable Z) cc = Inr (?p, cc1)"
    "cc2 = immutable_cache_persist_add_already_allocated a ?p cc1" "sync Z m H A S (insert a P) ?c1 cc2 Hc"
    "grown cc Hc cc2 Hc" "A \<le> ?p" "?p < alloc_cur cc2" "immutable_cache_sma_contains_pointer m ?p" "Hc ?p = None"
    "memoization_needed cc2 \<longrightarrow> already_allocated cc2 (immutable_cache_pointer_to_hash_key a) = Some ?p"
    using ht_begin [OF st s ad new refl le1] .
  let ?d = "alloc_cur cc2"
  obtain cc3 where d: "immutable_cache_persist_alloc Z n cc2 = Inr (?d, cc3)" "sync Z m H A S (insert a P) c2 cc3 Hc"
    "grown cc2 Hc cc3 Hc" "?d < alloc_cur cc3" "immutable_cache_sma_contains_pointer m ?d" "Hc ?d = None"
    using data_begin [OF st b(3) n, folded c2(1), OF c2(2)] .
  note fin = ht_step_close [OF st a b(5,6,8,7) order_refl b(4) d(3) refl d(4,6) b(9)]
  have "closes Z m H A S P cc Hc a ?p ?d cc3 v"
    unfolding closes_def by (intro conjI allI impI) (rule b(7), rule d(5), (rule fin; assumption)+)
  then show thesis by (rule that [OF b(1) d(1) [unfolded b(2)] d(2) [unfolded b(2)], folded b(2)])
qed

text \<open>The header of a table that is not empty keeps its shape.\<close>

definition fresh_ht :: "zend_array \<Rightarrow> zend_array" where
  "fresh_ht t = t\<lparr>ht_refcount := 2, ht_immutable := True, ht_has_destructor := False, ht_static_keys := True\<rparr>"

lemma fresh_ht_sel [simp]:
  "nNumUsed (fresh_ht t) = nNumUsed t" "nTableMask (fresh_ht t) = nTableMask t" "ht_packed (fresh_ht t) = ht_packed t"
  "arData (fresh_ht t) = arData t" "nNumOfElements (fresh_ht t) = nNumOfElements t" "ht_immutable (fresh_ht t)"
  by (simp_all add: fresh_ht_def)

lemma ht_step_packed:
  assumes st: "setting Z m H A S" and s: "sync Z m H A S P c cc Hc" and a: "rep H (IS_ARRAY a) v"
    and t: "H a = Some (CHt t)" "0 < nNumUsed t" "ht_packed t"
    and new: "\<not> immutable_cache_sma_contains_pointer m a"
      "\<not> (memoization_needed c \<and> immutable_cache_pointer_to_hash_key a \<in> already_counted c)"
    and calc: "immutable_cache_persist_calc_ht rec Z m H a (counted_array c a) = Inr (True, c')" "psize_total c' \<le> S"
    and zs: "H (arData t) = Some (CData (Packed zs))" "length zs = nNumUsed t" "nNumOfElements t = length es" "v = PArr es"
    and pl: "packed_loop Z m H A S (insert a P) rec crec v zs"
  shows "\<exists>p H' cc'. immutable_cache_persist_copy_ht crec Z m a Hc cc = Inr (p, H', cc') \<and>
    copied Z m H A S P c' cc Hc (H', cc') \<and> rep H' (IS_ARRAY p) v \<and> immutable_cache_sma_contains_pointer m p"
proof -
  let ?n = "HT_PACKED_USED_SIZE Z t"
  define c2 where "c2 = ADD_SIZE Z ?n (ADD_SIZE Z (sizeof_HashTable Z) (counted_array c a))"
  have zok: "zend_ok Z" and Hc: "Hc a = Some (CHt t)" "Hc (arData t) = Some (CData (Packed zs))"
    using st s t(1) zs(1) by (auto simp: setting_def sync_def map_le_def dom_def)
  have cp: "calc_packed rec zs c2 = Inr (True, c')"
    using calc(1) t zs by (simp add: immutable_cache_persist_calc_ht_def c2_def)
  have "\<not> use_serialization c2" using s by (simp add: sync_def c2_def ADD_SIZE_def counted_array_def)
  then have "psize_total c2 \<le> S" using pl cp calc(2) unfolding packed_loop_def by (meson le_trans)
  from ht_step_around [OF st s a t(1) zend_ok_sizes(2) [OF zok t(2)] new c2_def this] obtain p d cc1 cc3 where
    al: "immutable_cache_persist_alloc Z (sizeof_HashTable Z) cc = Inr (p, cc1)"
      "immutable_cache_persist_alloc Z ?n (immutable_cache_persist_add_already_allocated a p cc1) = Inr (d, cc3)"
    and s3: "sync Z m H A S (insert a P) c2 cc3 Hc" and cl: "closes Z m H A S P cc Hc a p d cc3 v" .
  from pl [unfolded packed_loop_def, THEN conjunct2, rule_format, OF s3 cp calc(2)] zs(4)
  obtain zs' ip nf H1 cc4 where lp: "copy_packed crec 0 zs None 0 Hc cc3 = Inr (zs', ip, nf, H1, cc4)"
    "copied Z m H A S (insert a P) c' cc3 Hc (H1, cc4)" "rep_slots H1 0 zs' es" "length zs' = length zs"
    "\<forall>z \<in> set zs'. zval_shm m z" by auto
  let ?t = "(fresh_ht t)\<lparr>arData := d, nInternalPointer := ip, nNextFreeElement := nf\<rparr>"
  let ?H = "H1(d \<mapsto> CData (Packed zs'), p \<mapsto> CHt ?t)"
  have "rep H' (IS_ARRAY p) v" if "H1 \<subseteq>\<^sub>m H'" "H' p = Some (CHt ?t)" "H' d = Some (CData (Packed zs'))" for H'
    unfolding zs(4) by (rule rep_packed [where t = ?t and zs = zs'])
      (use that t lp(4) zs(2,3) rep_mono(2) [OF lp(3) that(1)] in simp_all)
  then have "copied Z m H A S P c' cc Hc (?H, cc4) \<and> rep ?H (IS_ARRAY p) v \<and> immutable_cache_sma_contains_pointer m p"
    using cl lp(2,5) by (simp add: closes_def)
  moreover have "immutable_cache_persist_copy_ht crec Z m a Hc cc = Inr (p, ?H, cc4)"
    using zend_ok_sizes(4) [OF zok, of "fresh_ht t" t] t(2)
    by (simp add: immutable_cache_persist_copy_ht_def Let_def fresh_ht_def [symmetric] Hc al lp(1) t(1,3) zs(2))
  ultimately show ?thesis by blast
qed

lemma ht_step_hash:
  assumes st: "setting Z m H A S" and s: "sync Z m H A S P c cc Hc" and a: "rep H (IS_ARRAY a) v"
    and t: "H a = Some (CHt t)" "0 < nNumUsed t" "\<not> ht_packed t"
    and new: "\<not> immutable_cache_sma_contains_pointer m a"
      "\<not> (memoization_needed c \<and> immutable_cache_pointer_to_hash_key a \<in> already_counted c)"
    and calc: "immutable_cache_persist_calc_ht rec Z m H a (counted_array c a) = Inr (True, c')" "psize_total c' \<le> S"
    and bs: "H (arData t) = Some (CData (Buckets bs))" "length bs = nNumUsed t" "nNumOfElements t = length es" "v = PArr es"
    and bl: "bucket_loop Z m H A S (insert a P) rec crec v bs"
  shows "\<exists>p H' cc'. immutable_cache_persist_copy_ht crec Z m a Hc cc = Inr (p, H', cc') \<and>
    copied Z m H A S P c' cc Hc (H', cc') \<and> rep H' (IS_ARRAY p) v \<and> immutable_cache_sma_contains_pointer m p"
proof -
  let ?n = "HT_USED_SIZE Z t"
  define c2 where "c2 = ADD_SIZE Z ?n (ADD_SIZE Z (sizeof_HashTable Z) (counted_array c a))"
  have zok: "zend_ok Z" and Hc: "Hc a = Some (CHt t)" "Hc (arData t) = Some (CData (Buckets bs))"
    using st s t(1) bs(1) by (auto simp: setting_def sync_def map_le_def dom_def)
  have cp: "calc_buckets rec Z m H bs c2 = Inr (True, c')"
    using calc(1) t bs by (simp add: immutable_cache_persist_calc_ht_def c2_def)
  have "\<not> use_serialization c2" using s by (simp add: sync_def c2_def ADD_SIZE_def counted_array_def)
  then have "psize_total c2 \<le> S" using bl cp calc(2) unfolding bucket_loop_def by (meson le_trans)
  from ht_step_around [OF st s a t(1) zend_ok_sizes(1) [OF zok t(2)] new c2_def this] obtain p d cc1 cc3 where
    al: "immutable_cache_persist_alloc Z (sizeof_HashTable Z) cc = Inr (p, cc1)"
      "immutable_cache_persist_alloc Z ?n (immutable_cache_persist_add_already_allocated a p cc1) = Inr (d, cc3)"
    and s3: "sync Z m H A S (insert a P) c2 cc3 Hc" and cl: "closes Z m H A S P cc Hc a p d cc3 v" .
  from bl [unfolded bucket_loop_def, THEN conjunct2, rule_format, OF s3 cp calc(2)] bs(4)
  obtain bs' ip nf H1 cc4 where lp: "copy_buckets crec Z m 0 bs None 0 Hc cc3 = Inr (bs', ip, nf, H1, cc4)"
    "copied Z m H A S (insert a P) c' cc3 Hc (H1, cc4)" "rep_buckets H1 bs' es" "length bs' = length bs"
    "\<forall>b \<in> set bs'. bucket_shm m b" by auto
  let ?t = "(fresh_ht t)\<lparr>arData := d, nInternalPointer := ip, nNextFreeElement := nf\<rparr>"
  let ?H = "H1(d \<mapsto> CData (Buckets bs'), p \<mapsto> CHt ?t)"
  have "rep H' (IS_ARRAY p) v" if "H1 \<subseteq>\<^sub>m H'" "H' p = Some (CHt ?t)" "H' d = Some (CData (Buckets bs'))" for H'
    unfolding bs(4) by (rule rep_hash [where t = ?t and bs = bs'])
      (use that t lp(4) bs(2,3) rep_mono(3) [OF lp(3) that(1)] in simp_all)
  then have "copied Z m H A S P c' cc Hc (?H, cc4) \<and> rep ?H (IS_ARRAY p) v \<and> immutable_cache_sma_contains_pointer m p"
    using cl lp(2,5) by (simp add: closes_def)
  moreover have "immutable_cache_persist_copy_ht crec Z m a Hc cc = Inr (p, ?H, cc4)"
    using zend_ok_sizes(3) [OF zok, of "fresh_ht t" t] t(2)
    by (simp add: immutable_cache_persist_copy_ht_def Let_def fresh_ht_def [symmetric] Hc al lp(1) t(1,3) bs(2))
  ultimately show ?thesis by blast
qed

subsection \<open>One value\<close>

text \<open>What is proved of a value, of the slots of a packed array and of the buckets of a hash array.\<close>

definition copy_val where
  "copy_val Z m H A S P n z v c cc Hc c' \<longleftrightarrow>
     (\<exists>z' H' cc'. immutable_cache_persist_copy_zval n Z m z Hc cc = Inr (z', H', cc') \<and>
        copied Z m H A S P c' cc Hc (H', cc') \<and> rep H' z' v \<and> zval_shm m z')"

lemma copy_valE:
  assumes "copy_val Z m H A S P n z v c cc Hc c'"
  obtains z' H' cc' where "immutable_cache_persist_copy_zval n Z m z Hc cc = Inr (z', H', cc')"
    "copied Z m H A S P c' cc Hc (H', cc')" "rep H' z' v" "zval_shm m z'"
  using assms unfolding copy_val_def by blast

lemma copy_string:
  assumes st: "setting Z m H A S" and s: "sync Z m H A S P c cc Hc" and a: "H a = Some (CStr s)" "a \<notin> P"
    and calc: "immutable_cache_persist_calc_zval (Suc n) Z m H (IS_STRING a) c = Inr (True, c')" "psize_total c' \<le> S"
  shows "copy_val Z m H A S P (Suc n) (IS_STRING a) (PStr (zstr_val s)) c cc Hc c'"
proof -
  have u: "\<not> use_serialization c" "\<not> use_serialization cc" using s by (simp_all add: sync_def)
  have "immutable_cache_persist_calc_str Z m H a c = Inr c'"
    using calc(1) u a by (auto simp: immutable_cache_persist_calc_str_def split: if_splits prod.splits)
  with str_step [OF st s a] calc(2) obtain p H' cc' where
    p: "immutable_cache_persist_get_or_copy_zstr Z m a Hc cc = Inr (p, H', cc')" "sync Z m H A S P c' cc' H'"
      "grown cc Hc cc' H'" "immutable_cache_sma_contains_pointer m p" "str_at H' p (zstr_val s)" by auto
  have "immutable_cache_persist_copy_zval (Suc n) Z m (IS_STRING a) Hc cc = Inr (IS_STRING p, H', cc')"
    using u p(1) by (auto simp: immutable_cache_persist_get_or_copy_zstr_def split: option.splits)
  moreover have "rep H' (IS_STRING p) (PStr (zstr_val s))"
    using p(5) rep_string by (fastforce simp: str_at_def)
  ultimately show ?thesis using p by (simp add: copy_val_def copied_def)
qed

text \<open>An array that is in shared memory already, or that was copied before.\<close>

lemma copy_array:
  assumes st: "setting Z m H A S" and s: "sync Z m H A S P c cc Hc" and a: "rep H (IS_ARRAY a) v" "a \<notin> P"
    and calc: "immutable_cache_persist_calc_zval (Suc n) Z m H (IS_ARRAY a) c = Inr (True, c')"
    and new: "\<not> immutable_cache_sma_contains_pointer m a \<Longrightarrow>
      \<not> (memoization_needed c \<and> immutable_cache_pointer_to_hash_key a \<in> already_counted c) \<Longrightarrow>
      immutable_cache_persist_calc_ht (immutable_cache_persist_calc_zval n Z m H) Z m H a (counted_array c a) = Inr (True, c') \<Longrightarrow>
      \<exists>p H' cc'. immutable_cache_persist_copy_ht (immutable_cache_persist_copy_zval n Z m) Z m a Hc cc = Inr (p, H', cc') \<and>
        copied Z m H A S P c' cc Hc (H', cc') \<and> rep H' (IS_ARRAY p) v \<and> immutable_cache_sma_contains_pointer m p"
  shows "copy_val Z m H A S P (Suc n) (IS_ARRAY a) v c cc Hc c'"
proof -
  let ?k = "immutable_cache_pointer_to_hash_key a"
  have u: "\<not> use_serialization c" "\<not> use_serialization cc" "memoization_needed cc = memoization_needed c" "H \<subseteq>\<^sub>m Hc"
    using s by (simp_all add: sync_def)
  have ad: "a \<in> dom H" using a by (auto elim!: rep_arrayE)
  consider (shm) "immutable_cache_sma_contains_pointer m a"
    | (seen) "\<not> immutable_cache_sma_contains_pointer m a" "memoization_needed c" "?k \<in> already_counted c"
    | (new) "\<not> immutable_cache_sma_contains_pointer m a" "\<not> (memoization_needed c \<and> ?k \<in> already_counted c)"
    by blast
  then show ?thesis
  proof cases
    case shm
    then show ?thesis using calc u s rep_mono(1) [OF a(1) u(4)]
      by (simp add: copy_val_def copied_def immutable_cache_persist_get_already_allocated_def)
  next
    case seen
    then have "?k \<in> dom (already_allocated cc)" using s by (simp add: sync_def)
    then obtain p where p: "already_allocated cc ?k = Some p" by blast
    then have "immutable_cache_sma_contains_pointer m p" "rep Hc (IS_ARRAY p) v"
      using s a ad by (auto simp: sync_def memo_ok_def)
    then show ?thesis using seen p u calc s
      by (simp add: copy_val_def copied_def immutable_cache_persist_get_already_allocated_def immutable_cache_persist_calc_memoize_def)
  next
    case new
    have "immutable_cache_persist_calc_ht (immutable_cache_persist_calc_zval n Z m H) Z m H a (counted_array c a) = Inr (True, c')"
      using calc new u(1) by (auto simp: immutable_cache_persist_calc_memoize_def counted_array_def)
    moreover have "immutable_cache_persist_get_already_allocated m cc a = None"
      using new s by (auto simp: immutable_cache_persist_get_already_allocated_def sync_def)
    ultimately show ?thesis using assms(6) [OF new] u(2) by (fastforce simp: copy_val_def)
  qed
qed

lemma copy_below: "0 < n \<Longrightarrow> below_IS_STRING z \<Longrightarrow> immutable_cache_persist_copy_zval n Z m z H c = Inr (z, H, c)"
  by (cases n) auto

lemma copy_val_below:
  assumes "sync Z m H A S P c cc Hc" "rep H z v" "below_IS_STRING z" "0 < n"
    "immutable_cache_persist_calc_zval n Z m H z c = Inr (True, c')"
  shows "copy_val Z m H A S P n z v c cc Hc c'"
proof -
  have "rep Hc z v" using assms(1,2) rep_mono(1) by (auto simp: sync_def)
  moreover have "zval_shm m z" using assms(3) by (cases z) auto
  ultimately show ?thesis using assms by (simp add: copy_val_def copied_def copy_below calc_below)
qed

definition copy_slots where
  "copy_slots Z m H A S P n i zs es c cc Hc c' \<longleftrightarrow> (\<forall>ip nf.
     \<exists>zs' ip' nf' H' cc'. copy_packed (immutable_cache_persist_copy_zval n Z m) i zs ip nf Hc cc = Inr (zs', ip', nf', H', cc') \<and>
        copied Z m H A S P c' cc Hc (H', cc') \<and> rep_slots H' i zs' es \<and> length zs' = length zs \<and> (\<forall>z \<in> set zs'. zval_shm m z))"

definition copy_bkts where
  "copy_bkts Z m H A S P n bs es c cc Hc c' \<longleftrightarrow> (\<forall>i ip nf.
     \<exists>bs' ip' nf' H' cc'. copy_buckets (immutable_cache_persist_copy_zval n Z m) Z m i bs ip nf Hc cc = Inr (bs', ip', nf', H', cc') \<and>
        copied Z m H A S P c' cc Hc (H', cc') \<and> rep_buckets H' bs' es \<and> length bs' = length bs \<and> (\<forall>b \<in> set bs'. bucket_shm m b))"

lemma copied_refl: "sync Z m H A S P c cc Hc \<Longrightarrow> copied Z m H A S P c cc Hc (Hc, cc)"
  by (simp add: copied_def)

text \<open>From the statements on the elements to the loops of \<open>ht_step\<close>.\<close>

lemma packed_loopI:
  assumes es: "rep_slots H 0 zs es" "esize es \<le> n" "0 < n"
    and "\<And>c cc Hc c'. sync Z m H A S P c cc Hc \<Longrightarrow> calc_packed (immutable_cache_persist_calc_zval n Z m H) zs c = Inr (True, c') \<Longrightarrow>
      psize_total c' \<le> S \<Longrightarrow> copy_slots Z m H A S P n 0 zs es c cc Hc c'"
  shows "packed_loop Z m H A S P (immutable_cache_persist_calc_zval n Z m H) (immutable_cache_persist_copy_zval n Z m) (PArr es) zs"
  unfolding packed_loop_def
proof (intro conjI allI impI)
  fix c0 c1 assume "calc_packed (immutable_cache_persist_calc_zval n Z m H) zs c0 = Inr (True, c1)" "\<not> use_serialization c0"
  then show "psize_total c0 \<le> psize_total c1" using calc_ok(2) [OF es, of c0 Z m] by (auto simp: calc_rel_def)
qed (use assms(4) in \<open>simp add: copy_slots_def\<close>)

lemma bucket_loopI:
  assumes es: "rep_buckets H bs es" "esize es \<le> n" "0 < n"
    and "\<And>c cc Hc c'. sync Z m H A S P c cc Hc \<Longrightarrow> calc_buckets (immutable_cache_persist_calc_zval n Z m H) Z m H bs c = Inr (True, c') \<Longrightarrow>
      psize_total c' \<le> S \<Longrightarrow> copy_bkts Z m H A S P n bs es c cc Hc c'"
  shows "bucket_loop Z m H A S P (immutable_cache_persist_calc_zval n Z m H) (immutable_cache_persist_copy_zval n Z m) (PArr es) bs"
  unfolding bucket_loop_def
proof (intro conjI allI impI)
  fix c0 c1 assume "calc_buckets (immutable_cache_persist_calc_zval n Z m H) Z m H bs c0 = Inr (True, c1)" "\<not> use_serialization c0"
  then show "psize_total c0 \<le> psize_total c1" using calc_ok(3) [OF es, of c0 Z m] by (auto simp: calc_rel_def)
qed (use assms(4) in \<open>simp add: copy_bkts_def\<close>)

subsection \<open>One element\<close>

lemma slots_step:
  assumes z: "z \<noteq> IS_UNDEF" "copy_val Z m H A S P n z v c cc Hc c1"
    and zs: "\<And>cc Hc. sync Z m H A S P c1 cc Hc \<Longrightarrow> copy_slots Z m H A S P n (Suc i) zs es c1 cc Hc c'"
  shows "copy_slots Z m H A S P n i (z # zs) ((KInt (of_nat i), v) # es) c cc Hc c'"
  unfolding copy_slots_def
proof (intro allI)
  fix ip :: "nat option" and nf :: zend_ulong
  obtain z' H1 cc1 where 1: "immutable_cache_persist_copy_zval n Z m z Hc cc = Inr (z', H1, cc1)"
    "copied Z m H A S P c1 cc Hc (H1, cc1)" "rep H1 z' v" "zval_shm m z'" using z(2) by (rule copy_valE)
  obtain zs' ip' nf' H2 cc2 where 2: "copy_packed (immutable_cache_persist_copy_zval n Z m) (Suc i) zs (if ip = None then Some i else ip)
      (if sint (word_of_nat i :: zend_ulong) \<ge> sint nf then word_of_nat (i + 1) else nf) H1 cc1 = Inr (zs', ip', nf', H2, cc2)"
    "copied Z m H A S P c' cc1 H1 (H2, cc2)" "rep_slots H2 (Suc i) zs' es" "length zs' = length zs" "\<forall>z \<in> set zs'. zval_shm m z"
    using zs [OF copied_sync [OF 1(2)], unfolded copy_slots_def, THEN spec, THEN spec] by blast
  have "copy_packed (immutable_cache_persist_copy_zval n Z m) i (z # zs) ip nf Hc cc = Inr (z' # zs', ip', nf', H2, cc2)"
    using 1(1) 2(1) z(1) by (simp add: Let_def)
  moreover have "rep_slots H2 i (z' # zs') ((KInt (of_nat i), v) # es)"
    by (rule slots_cons [OF rep_mono(1) [OF 1(3) copied_map_le [OF 2(2)]] 2(3)])
  ultimately show "\<exists>zs' ip' nf' H' cc'. copy_packed (immutable_cache_persist_copy_zval n Z m) i (z # zs) ip nf Hc cc = Inr (zs', ip', nf', H', cc') \<and>
      copied Z m H A S P c' cc Hc (H', cc') \<and> rep_slots H' i zs' ((KInt (of_nat i), v) # es) \<and> length zs' = length (z # zs) \<and>
      (\<forall>z \<in> set zs'. zval_shm m z)"
    using 1(4) 2(4,5) copied_trans [OF 1(2) 2(2)] by auto
qed

text \<open>The key of a bucket: nothing for an integer key, a string for the others.\<close>

lemma bucket_key_step:
  assumes st: "setting Z m H A S" and s: "sync Z m H A S P c cc Hc"
    and k: "case bkey b of None \<Rightarrow> key = KInt (bh b) | Some k \<Rightarrow> k \<notin> P \<and> (\<exists>s. H k = Some (CStr s) \<and> key = KStr (zstr_val s))"
    and calc: "(case bkey b of None \<Rightarrow> Inr c | Some k \<Rightarrow> immutable_cache_persist_calc_str Z m H k c) = Inr c0" "psize_total c0 \<le> S"
  shows "\<exists>b' nf' H0 cc0.
    (case bkey b of
       Some k \<Rightarrow> ebind (immutable_cache_persist_get_or_copy_zstr Z m k Hc cc) (\<lambda>(k, H, c). Inr (b\<lparr>bkey := Some k\<rparr>, nf, H, c))
     | None \<Rightarrow> Inr (b, if sint (bh b) \<ge> sint nf then bh b + 1 else nf, Hc, cc)) = Inr (b', nf', H0, cc0) \<and>
    copied Z m H A S P c0 cc Hc (H0, cc0) \<and> bval b' = bval b \<and>
    (case bkey b' of None \<Rightarrow> True | Some k \<Rightarrow> immutable_cache_sma_contains_pointer m k) \<and>
    (\<forall>H' z' v bs' es. H0 \<subseteq>\<^sub>m H' \<longrightarrow> rep H' z' v \<longrightarrow> rep_buckets H' bs' es \<longrightarrow> rep_buckets H' (b'\<lparr>bval := z'\<rparr> # bs') ((key, v) # es))"
proof (cases "bkey b")
  case None
  have "rep_buckets H' (b\<lparr>bval := z'\<rparr> # bs') ((key, v) # es)" if "rep H' z' v" "rep_buckets H' bs' es" for H' z' v bs' es
    using buckets_int [of "b\<lparr>bval := z'\<rparr>" H' v bs' es] None k that by simp
  with None calc copied_refl [OF s] show ?thesis by auto
next
  case (Some k)
  with k obtain s0 where s0: "k \<notin> P" "H k = Some (CStr s0)" "key = KStr (zstr_val s0)" by auto
  from str_step [OF st s s0(2,1)] Some calc obtain p H' cc' where
    p: "immutable_cache_persist_get_or_copy_zstr Z m k Hc cc = Inr (p, H', cc')" "sync Z m H A S P c0 cc' H'"
      "grown cc Hc cc' H'" "immutable_cache_sma_contains_pointer m p" "str_at H' p (zstr_val s0)" by auto
  have "rep_buckets H2 (b\<lparr>bkey := Some p, bval := z'\<rparr> # bs') ((key, v) # es)"
    if "H' \<subseteq>\<^sub>m H2" "rep H2 z' v" "rep_buckets H2 bs' es" for H2 z' v bs' es
    using str_at_mono [OF p(5) that(1)] buckets_str [of "b\<lparr>bkey := Some p, bval := z'\<rparr>" p H2 _ v bs' es] that(2,3) s0(3)
    by (auto simp: str_at_def)
  with Some p show ?thesis by (auto simp: copied_def)
qed

lemma buckets_step:
  assumes st: "setting Z m H A S" and s: "sync Z m H A S P c cc Hc" and u: "bval b \<noteq> IS_UNDEF"
    and k: "case bkey b of None \<Rightarrow> key = KInt (bh b) | Some k \<Rightarrow> k \<notin> P \<and> (\<exists>s. H k = Some (CStr s) \<and> key = KStr (zstr_val s))"
    and calc: "(case bkey b of None \<Rightarrow> Inr c | Some k \<Rightarrow> immutable_cache_persist_calc_str Z m H k c) = Inr c0" "psize_total c0 \<le> S"
    and z: "\<And>cc Hc. sync Z m H A S P c0 cc Hc \<Longrightarrow> copy_val Z m H A S P n (bval b) v c0 cc Hc c1"
    and bs: "\<And>cc Hc. sync Z m H A S P c1 cc Hc \<Longrightarrow> copy_bkts Z m H A S P n bs es c1 cc Hc c'"
  shows "copy_bkts Z m H A S P n (b # bs) ((key, v) # es) c cc Hc c'"
  unfolding copy_bkts_def
proof (intro allI)
  fix i :: nat and ip :: "nat option" and nf :: zend_ulong
  let ?key = "case bkey b of
       Some k \<Rightarrow> ebind (immutable_cache_persist_get_or_copy_zstr Z m k Hc cc) (\<lambda>(k, H, c). Inr (b\<lparr>bkey := Some k\<rparr>, nf, H, c))
     | None \<Rightarrow> Inr (b, if sint (bh b) \<ge> sint nf then bh b + 1 else nf, Hc, cc)"
  let ?rec = "immutable_cache_persist_copy_zval n Z m"
  from bucket_key_step [OF st s k calc, of nf] obtain b' nf0 H0 cc0 where
    0: "?key = Inr (b', nf0, H0, cc0)" "copied Z m H A S P c0 cc Hc (H0, cc0)" "bval b' = bval b"
      "case bkey b' of None \<Rightarrow> True | Some k \<Rightarrow> immutable_cache_sma_contains_pointer m k"
    and r: "\<And>H' z' v bs' es. H0 \<subseteq>\<^sub>m H' \<Longrightarrow> rep H' z' v \<Longrightarrow> rep_buckets H' bs' es \<Longrightarrow> rep_buckets H' (b'\<lparr>bval := z'\<rparr> # bs') ((key, v) # es)"
    by blast
  obtain z' H1 cc1 where 1: "?rec (bval b) H0 cc0 = Inr (z', H1, cc1)"
    "copied Z m H A S P c1 cc0 H0 (H1, cc1)" "rep H1 z' v" "zval_shm m z'" using z [OF copied_sync [OF 0(2)]] by (rule copy_valE)
  obtain bs' ip' nf' H2 cc2 where 2: "copy_buckets ?rec Z m (Suc i) bs (if ip = None then Some i else ip) nf0 H1 cc1 = Inr (bs', ip', nf', H2, cc2)"
    "copied Z m H A S P c' cc1 H1 (H2, cc2)" "rep_buckets H2 bs' es" "length bs' = length bs" "\<forall>b \<in> set bs'. bucket_shm m b"
    using bs [OF copied_sync [OF 1(2)], unfolded copy_bkts_def, THEN spec, THEN spec, THEN spec] by blast
  have "copy_buckets ?rec Z m i (b # bs) ip nf Hc cc = Inr (b'\<lparr>bval := z'\<rparr> # bs', ip', nf', H2, cc2)"
    using 0(1,3) 1(1) 2(1) u by (simp add: Let_def)
  moreover have "rep_buckets H2 (b'\<lparr>bval := z'\<rparr> # bs') ((key, v) # es)"
    by (rule r [OF map_le_trans [OF copied_map_le [OF 1(2)] copied_map_le [OF 2(2)]] rep_mono(1) [OF 1(3) copied_map_le [OF 2(2)]] 2(3)])
  ultimately show "\<exists>bs' ip' nf' H' cc'. copy_buckets ?rec Z m i (b # bs) ip nf Hc cc = Inr (bs', ip', nf', H', cc') \<and>
      copied Z m H A S P c' cc Hc (H', cc') \<and> rep_buckets H' bs' ((key, v) # es) \<and> length bs' = length (b # bs) \<and>
      (\<forall>b \<in> set bs'. bucket_shm m b)"
    using 0(4) 1(4) 2(4,5) copied_trans [OF 0(2) copied_trans [OF 1(2) 2(2)]] by (auto simp: bucket_shm_def)
qed

text \<open>Empty slots.\<close>

lemma slots_skip:
  assumes "copy_slots Z m H A S P n (Suc i) zs es c cc Hc c'"
  shows "copy_slots Z m H A S P n i (IS_UNDEF # zs) es c cc Hc c'"
  unfolding copy_slots_def
proof (intro allI)
  fix ip nf
  obtain zs' ip' nf' H' cc' where 1: "copy_packed (immutable_cache_persist_copy_zval n Z m) (Suc i) zs ip nf Hc cc = Inr (zs', ip', nf', H', cc')"
    "copied Z m H A S P c' cc Hc (H', cc')" "rep_slots H' (Suc i) zs' es" "length zs' = length zs" "\<forall>z \<in> set zs'. zval_shm m z"
    using assms unfolding copy_slots_def by blast
  then show "\<exists>zs' ip' nf' H' cc'. copy_packed (immutable_cache_persist_copy_zval n Z m) i (IS_UNDEF # zs) ip nf Hc cc = Inr (zs', ip', nf', H', cc') \<and>
      copied Z m H A S P c' cc Hc (H', cc') \<and> rep_slots H' i zs' es \<and> length zs' = length (IS_UNDEF # zs) \<and> (\<forall>z \<in> set zs'. zval_shm m z)"
    using slots_undef [OF 1(3)] by auto
qed

lemma buckets_skip:
  assumes "copy_bkts Z m H A S P n bs es c cc Hc c'" "bval b = IS_UNDEF"
  shows "copy_bkts Z m H A S P n (b # bs) es c cc Hc c'"
  unfolding copy_bkts_def
proof (intro allI)
  fix i ip nf
  obtain bs' ip' nf' H' cc' where 1: "copy_buckets (immutable_cache_persist_copy_zval n Z m) Z m (Suc i) bs ip nf Hc cc = Inr (bs', ip', nf', H', cc')"
    "copied Z m H A S P c' cc Hc (H', cc')" "rep_buckets H' bs' es" "length bs' = length bs" "\<forall>b \<in> set bs'. bucket_shm m b"
    using assms(1) unfolding copy_bkts_def by blast
  then show "\<exists>bs' ip' nf' H' cc'. copy_buckets (immutable_cache_persist_copy_zval n Z m) Z m i (b # bs) ip nf Hc cc = Inr (bs', ip', nf', H', cc') \<and>
      copied Z m H A S P c' cc Hc (H', cc') \<and> rep_buckets H' bs' es \<and> length bs' = length (b # bs) \<and> (\<forall>b \<in> set bs'. bucket_shm m b)"
    using buckets_undef [OF assms(2) 1(3)] assms(2) by (auto simp: bucket_shm_def)
qed

subsection \<open>The induction\<close>

lemma calc_packed_cons:
  assumes "rep H z v" "rep_slots H i zs es" "psize v + esize es \<le> n" "0 < n" "\<not> use_serialization c"
    "calc_packed (immutable_cache_persist_calc_zval n Z m H) (z # zs) c = Inr (True, c')"
  obtains c1 where "immutable_cache_persist_calc_zval n Z m H z c = Inr (True, c1)"
    "calc_packed (immutable_cache_persist_calc_zval n Z m H) zs c1 = Inr (True, c')" "psize_total c1 \<le> psize_total c'"
proof -
  obtain c1 where c1: "immutable_cache_persist_calc_zval n Z m H z c = Inr (True, c1)" "calc_rel c c1"
    using calc_ok(1) [OF assms(1) _ assms(5), of n Z m] assms(3) by auto
  then have u: "\<not> use_serialization c1" using assms(5) by (simp add: calc_rel_def)
  have r: "calc_packed (immutable_cache_persist_calc_zval n Z m H) zs c1 = Inr (True, c')"
    using assms(6) c1(1) rep_kind [OF assms(1)] by (subst (asm) calc_packed_step) auto
  with calc_ok(2) [OF assms(2) _ assms(4) u, of Z m] assms(3) that [OF c1(1)] show thesis by (auto simp: calc_rel_def)
qed

lemma calc_buckets_cons:
  assumes "rep H (bval b) v" "rep_buckets H bs es" "psize v + esize es \<le> n" "0 < n" "\<not> use_serialization c"
    "\<And>k. bkey b = Some k \<Longrightarrow> \<exists>s. H k = Some (CStr s)"
    "calc_buckets (immutable_cache_persist_calc_zval n Z m H) Z m H (b # bs) c = Inr (True, c')"
  obtains c0 c1 where "(case bkey b of None \<Rightarrow> Inr c | Some k \<Rightarrow> immutable_cache_persist_calc_str Z m H k c) = Inr c0"
    "immutable_cache_persist_calc_zval n Z m H (bval b) c0 = Inr (True, c1)"
    "calc_buckets (immutable_cache_persist_calc_zval n Z m H) Z m H bs c1 = Inr (True, c')"
    "psize_total c0 \<le> psize_total c1" "psize_total c1 \<le> psize_total c'"
proof -
  obtain c0 where c0: "(case bkey b of None \<Rightarrow> Inr c | Some k \<Rightarrow> immutable_cache_persist_calc_str Z m H k c) = Inr c0" "calc_rel c c0"
    using assms(6) calc_str_ok [of H _ _ Z m c] by (cases "bkey b") fastforce+
  then have u0: "\<not> use_serialization c0" using assms(5) by (simp add: calc_rel_def)
  obtain c1 where c1: "immutable_cache_persist_calc_zval n Z m H (bval b) c0 = Inr (True, c1)" "calc_rel c0 c1"
    using calc_ok(1) [OF assms(1) _ u0, of n Z m] assms(3) by auto
  then have u1: "\<not> use_serialization c1" using u0 by (simp add: calc_rel_def)
  have r: "calc_buckets (immutable_cache_persist_calc_zval n Z m H) Z m H bs c1 = Inr (True, c')"
    using assms(7) c0(1) c1(1) rep_kind [OF assms(1)] by (subst (asm) calc_buckets_step) auto
  with calc_ok(3) [OF assms(2) _ assms(4) u1, of Z m] assms(3) that [OF c0(1) c1(1)] c1(2) show thesis by (auto simp: calc_rel_def)
qed

lemma sync_use: "sync Z m H A S P c cc Hc \<Longrightarrow> \<not> use_serialization c"
  by (simp add: sync_def)

lemma copy_ok:
  assumes st: "setting Z m H A S"
  shows "rep H z v \<Longrightarrow> psize v \<le> n \<Longrightarrow> busy H P (psize v) \<Longrightarrow> sync Z m H A S P c cc Hc \<Longrightarrow>
      immutable_cache_persist_calc_zval n Z m H z c = Inr (True, c') \<Longrightarrow> psize_total c' \<le> S \<Longrightarrow>
      copy_val Z m H A S P n z v c cc Hc c'"
    and "rep_slots H i zs es \<Longrightarrow> esize es \<le> n \<Longrightarrow> 0 < n \<Longrightarrow> busy H P (esize es) \<Longrightarrow> sync Z m H A S P c cc Hc \<Longrightarrow>
      calc_packed (immutable_cache_persist_calc_zval n Z m H) zs c = Inr (True, c') \<Longrightarrow> psize_total c' \<le> S \<Longrightarrow>
      copy_slots Z m H A S P n i zs es c cc Hc c'"
    and "rep_buckets H bs es \<Longrightarrow> esize es \<le> n \<Longrightarrow> 0 < n \<Longrightarrow> busy H P (esize es) \<Longrightarrow> sync Z m H A S P c cc Hc \<Longrightarrow>
      calc_buckets (immutable_cache_persist_calc_zval n Z m H) Z m H bs c = Inr (True, c') \<Longrightarrow> psize_total c' \<le> S \<Longrightarrow>
      copy_bkts Z m H A S P n bs es c cc Hc c'"
proof (induction arbitrary: n P c cc Hc c' and n P c cc Hc c' and n P c cc Hc c' rule: rep_rep_slots_rep_buckets.inducts)
  case (rep_string a s)
  then obtain n' where n: "n = Suc n'" by (cases n) auto
  show ?case unfolding n
    by (rule copy_string [OF st]) (use rep_string n busy_str in auto)
next
  case (rep_empty a t)
  then obtain n' where n: "n = Suc n'" by (cases n) auto
  have r: "rep H (IS_ARRAY a) (PArr [])" by (rule rep_rep_slots_rep_buckets.rep_empty) (use rep_empty in auto)
  show ?case unfolding n
    by (rule copy_array [OF st rep_empty.prems(3) r busy_arr [OF rep_empty.prems(2) r]])
      (use ht_step_empty [OF st rep_empty.prems(3) r] rep_empty n in auto)
next
  case (rep_packed a t zs es)
  then obtain n' where n: "n = Suc n'" "esize es \<le> n'" "0 < n'" by (cases n) (auto simp: psize_PArr)
  have r: "rep H (IS_ARRAY a) (PArr es)" by (rule rep_rep_slots_rep_buckets.rep_packed [of H a t zs]) (use rep_packed in auto)
  have b: "busy H (insert a P) (esize es)" by (rule busy_insert [OF rep_packed.prems(2) r]) simp
  have pl: "packed_loop Z m H A S (insert a P) (immutable_cache_persist_calc_zval n' Z m H) (immutable_cache_persist_copy_zval n' Z m) (PArr es) zs"
    by (rule packed_loopI [OF _ n(2,3)]) (use rep_packed.IH n(2,3) b in auto)
  show ?case unfolding n(1)
    by (rule copy_array [OF st rep_packed.prems(3) r busy_arr [OF rep_packed.prems(2) r]])
      (use ht_step_packed [OF st rep_packed.prems(3) r _ _ _ _ _ _ _ _ _ _ refl pl] rep_packed.hyps rep_packed.IH(1,2) rep_packed.prems n in auto)
next
  case (rep_hash a t bs es)
  then obtain n' where n: "n = Suc n'" "esize es \<le> n'" "0 < n'" by (cases n) (auto simp: psize_PArr)
  have r: "rep H (IS_ARRAY a) (PArr es)" by (rule rep_rep_slots_rep_buckets.rep_hash [of H a t bs]) (use rep_hash in auto)
  have b: "busy H (insert a P) (esize es)" by (rule busy_insert [OF rep_hash.prems(2) r]) simp
  have bl: "bucket_loop Z m H A S (insert a P) (immutable_cache_persist_calc_zval n' Z m H) (immutable_cache_persist_copy_zval n' Z m) (PArr es) bs"
    by (rule bucket_loopI [OF _ n(2,3)]) (use rep_hash.IH n(2,3) b in auto)
  show ?case unfolding n(1)
    by (rule copy_array [OF st rep_hash.prems(3) r busy_arr [OF rep_hash.prems(2) r]])
      (use ht_step_hash [OF st rep_hash.prems(3) r _ _ _ _ _ _ _ _ _ _ refl bl] rep_hash.hyps rep_hash.IH(1,2) rep_hash.prems n in auto)
next
  case (slots_nil i)
  then show ?case by (auto simp: copy_slots_def copied_refl intro: rep_rep_slots_rep_buckets.slots_nil)
next
  case (slots_undef i zs es)
  have "calc_packed (immutable_cache_persist_calc_zval n Z m H) zs c = Inr (True, c')"
    using slots_undef.prems(2,5) by (simp add: calc_undef)
  from slots_undef.IH(2) [OF slots_undef.prems(1-4) this slots_undef.prems(6)] show ?case
    by (rule slots_skip)
next
  case (slots_cons z v i zs es)
  have sz: "psize v + esize es \<le> n" using slots_cons.prems(1) by simp
  obtain c1 where c1: "immutable_cache_persist_calc_zval n Z m H z c = Inr (True, c1)"
    "calc_packed (immutable_cache_persist_calc_zval n Z m H) zs c1 = Inr (True, c')" "psize_total c1 \<le> psize_total c'"
    using calc_packed_cons [OF slots_cons.IH(1,3) sz slots_cons.prems(2) sync_use [OF slots_cons.prems(4)] slots_cons.prems(5)] .
  show ?case
    by (rule slots_step [where ?c1.0 = c1]) (use slots_cons c1 busy_mono [OF slots_cons.prems(3)] rep_not_undef in auto)
next
  case buckets_nil
  then show ?case by (auto simp: copy_bkts_def copied_refl intro: rep_rep_slots_rep_buckets.buckets_nil)
next
  case (buckets_undef b bs es)
  have "calc_buckets (immutable_cache_persist_calc_zval n Z m H) Z m H bs c = Inr (True, c')"
    using buckets_undef.prems(5) buckets_undef.hyps(1) by simp
  from buckets_undef.IH(2) [OF buckets_undef.prems(1-4) this buckets_undef.prems(6)] buckets_undef.hyps(1) show ?case
    by (rule buckets_skip)
next
  case (buckets_int b v bs es)
  have sz: "psize v + esize es \<le> n" using buckets_int.prems(1) by simp
  obtain c0 c1 where c1: "(case bkey b of None \<Rightarrow> Inr c | Some k \<Rightarrow> immutable_cache_persist_calc_str Z m H k c) = Inr c0"
    "immutable_cache_persist_calc_zval n Z m H (bval b) c0 = Inr (True, c1)"
    "calc_buckets (immutable_cache_persist_calc_zval n Z m H) Z m H bs c1 = Inr (True, c')"
    "psize_total c0 \<le> psize_total c1" "psize_total c1 \<le> psize_total c'"
    using calc_buckets_cons [OF buckets_int.IH(1,3) sz buckets_int.prems(2) sync_use [OF buckets_int.prems(4)] _ buckets_int.prems(5)]
      buckets_int.hyps(1) by auto
  show ?case
    by (rule buckets_step [OF st buckets_int.prems(4) rep_not_undef [OF buckets_int.IH(1)] _ c1(1), where ?c1.0 = c1])
      (use buckets_int c1 busy_mono [OF buckets_int.prems(3)] in auto)
next
  case (buckets_str b k s v bs es)
  have sz: "psize v + esize es \<le> n" using buckets_str.prems(1) by simp
  have kb: "\<exists>s. H j = Some (CStr s)" if "bkey b = Some j" for j using that buckets_str.hyps buckets_str.IH(1) by auto
  obtain c0 c1 where c1: "(case bkey b of None \<Rightarrow> Inr c | Some k \<Rightarrow> immutable_cache_persist_calc_str Z m H k c) = Inr c0"
    "immutable_cache_persist_calc_zval n Z m H (bval b) c0 = Inr (True, c1)"
    "calc_buckets (immutable_cache_persist_calc_zval n Z m H) Z m H bs c1 = Inr (True, c')"
    "psize_total c0 \<le> psize_total c1" "psize_total c1 \<le> psize_total c'"
    using calc_buckets_cons [OF buckets_str.IH(2,4) sz buckets_str.prems(2) sync_use [OF buckets_str.prems(4)] kb buckets_str.prems(5)] .
  have "k \<notin> P" using busy_str [OF buckets_str.prems(3) buckets_str.IH(1)] .
  then show ?case
    by (intro buckets_step [OF st buckets_str.prems(4) rep_not_undef [OF buckets_str.IH(2)] _ c1(1), where ?c1.0 = c1])
      (use buckets_str.hyps buckets_str.IH buckets_str.prems c1 busy_mono [OF buckets_str.prems(3)] in auto)
qed (auto intro: copy_val_below rep_rep_slots_rep_buckets.intros)

end
