(* ===== verification/Sma_Props.thy ===== *)
theory Sma_Props
  imports Sma_Laws
begin

text \<open>
  The properties of the multi-segment allocator: start-up, allocation, release and the reports,
  with a small concrete process for the witnesses.
\<close>

subsection \<open>Start-up\<close>

lemma init_segment_fits:
  assumes "1232 \<le> sz" "sz < 2 ^ 63"
  shows "fits (sma_init_segment sz m) (sz - 1240)"
proof -
  have "ALIGNWORD (sz - 1240 + 32) \<le> sz - 1200"
  proof (cases "sz \<le> 1240")
    case True
    with assms show ?thesis by (simp add: ALIGNWORD_exact)
  next
    case False
    then have "ALIGNWORD (sz - 1240 + 32) < sz - 1240 + 32 + 8" using assms(2) by (intro ALIGNWORD_bounds(2)) auto
    with False show ?thesis by linarith
  qed
  then show ?thesis by (simp add: fits_def seg_wf_blocks [OF sma_init_segment_wf [OF assms]])
qed

text \<open>The state right after start-up is writable; once protected it is in the invariant.\<close>

lemma sma_init_wf:
  assumes "\<not> initialized (sma s)" "sma_last (sma s) = 0" "mmap_result env 0 = Some a0" "mmap_result env 1 = Some a1"
    and "1232 \<le> sz" "sz < 2 ^ 63" "0 < a0" "8 dvd a0" "a0 + sz < 2 ^ 64"
  shows "\<exists>s'. immutable_cache_sma_init env raw n sz None s = Inr s' \<and> sma_wf (immutable_cache_sma_protect_memory True s') \<and>
    sma_regions s' = {} \<and> sma_num (sma s') = 1 \<and> fits (hdrs s' ! 0) (sz - 1240)"
proof -
  define ss where "ss = [\<lparr>seg_size = sz, shmaddr = a0\<rparr>, \<lparr>seg_size = 65536, shmaddr = a1\<rparr>]"
  define hs where "hs = [sma_init_segment sz (raw 0), sma_init_segment 65536 (raw 1)]"
  define s' where "s' = s\<lparr>sma := (sma s)\<lparr>initialized := True, sma_num := 1, sma_size := sz, segs := ss\<rparr>,
      hdrs := hs, writable := (\<lambda>_. True)\<rparr>"
  note wf0 = sma_init_segment_wf [OF assms(5,6), of "raw 0"]
  have init: "immutable_cache_sma_init env raw n sz None s = Inr s'"
    using assms(1,3,4,5)
    by (simp add: immutable_cache_sma_init_def s'_def ss_def hs_def immutable_cache_mmap_def)
  have "sma_wf (immutable_cache_sma_protect_memory True s')"
    using assms seg_wf_ok [OF wf0]
    by (auto simp: sma_wf_def segments_apart_def SMA_ADDR_def s'_def ss_def hs_def
        immutable_cache_sma_protect_memory_def sma_init_segment_def Let_def)
  moreover have "sma_regions s' = {}"
    by (simp add: sma_regions_def s'_def hs_def seg_wf_regions [OF wf0] shifted_def lessThan_Suc)
  moreover have "fits (hdrs s' ! 0) (sz - 1240)" using init_segment_fits [OF assms(5,6)] by (simp add: s'_def hs_def)
  ultimately show ?thesis using init by (auto simp: s'_def)
qed

text \<open>An allocation from the writable state behaves as one from the protected state: the first
  lock makes the segments writable anyway.\<close>

lemma SMA_LOCK_protected:
  assumes "lock_rc s = []"
  shows "SMA_LOCK (immutable_cache_sma_protect_memory True s) = SMA_LOCK s"
  using assms
  by (auto simp: SMA_LOCK_def immutable_cache_sma_protect_memory_def lock_defs Let_def fun_eq_iff)

lemma malloc_protected:
  assumes "lock_rc s = []"
  shows "immutable_cache_sma_malloc_ex (immutable_cache_sma_protect_memory True s) n al =
    immutable_cache_sma_malloc_ex s n al"
proof -
  have "sma (immutable_cache_sma_protect_memory True s) = sma s"
    by (simp add: immutable_cache_sma_protect_memory_def)
  moreover have "malloc_attempt u i n (immutable_cache_sma_protect_memory True s) = malloc_attempt u i n s" for u i
    unfolding malloc_attempt_def SMA_LOCK_protected [OF assms] ..
  ultimately show ?thesis
    by (simp add: immutable_cache_sma_malloc_ex_def Let_def)
qed

subsection \<open>A concrete process\<close>

definition sample_env :: mmap_env where
  "sample_env = \<lparr>mkstemp = (\<lambda>i m. None), ftruncate_ok = (\<lambda>_. True),
     mmap_result = (\<lambda>i. Some (1048576 * (i + 1)))\<rparr>"

definition sample_raw :: "nat \<Rightarrow> nat \<Rightarrow> block_t" where
  "sample_raw = (\<lambda>_ _. \<lparr>bsize = 0, prev_size = 0, fnext = 0, fprev = 0\<rparr>)"

definition empty_sma :: immutable_cache_sma_t where
  "empty_sma = \<lparr>initialized = False, sma_num = 0, sma_size = 0, sma_last = 0, segs = []\<rparr>"

definition sample_start :: proc where
  "sample_start = \<lparr>blocked = 0, held_r = (\<lambda>_. 0), held_w = (\<lambda>_. 0), lock_rc = [], warnings = [],
     protect_memory = True, entry_level = 0, writable = (\<lambda>_. True), sma = empty_sma, hdrs = []\<rparr>"

lemma sample_init:
  "\<exists>s. immutable_cache_sma_init sample_env sample_raw 1 65536 None sample_start = Inr s \<and>
    sma_wf (immutable_cache_sma_protect_memory True s) \<and> sma_regions s = {} \<and>
    fits (hdrs (immutable_cache_sma_protect_memory True s) ! 0) 1000 \<and>
    lock_rc (immutable_cache_sma_protect_memory True s) = [] \<and> sma_num (sma s) = 1"
proof -
  obtain s where s: "immutable_cache_sma_init sample_env sample_raw 1 65536 None sample_start = Inr s"
    "sma_wf (immutable_cache_sma_protect_memory True s)" "sma_regions s = {}" "sma_num (sma s) = 1"
    "fits (hdrs s ! 0) (65536 - 1240)"
    using sma_init_wf [of sample_start sample_env 1048576 2097152 65536 sample_raw 1]
    by (auto simp: sample_start_def sample_env_def empty_sma_def)
  have h: "hdrs (immutable_cache_sma_protect_memory True s) = hdrs s"
    by (simp add: immutable_cache_sma_protect_memory_def)
  have "ALIGNWORD 1032 \<le> ALIGNWORD (65536 - 1240 + 32)"
    by (simp add: ALIGNWORD_exact)
  then have "fits (hdrs s ! 0) 1000"
    using s(5) by (fastforce simp: fits_def)
  moreover have "lock_rc s = []"
    using s(1) by (auto simp: immutable_cache_sma_init_def sample_start_def empty_sma_def Let_def ebind_Inr_iff split: prod.splits)
  ultimately show ?thesis
    using s h by auto
qed

subsection \<open>Properties\<close>

text \<open>After start-up with an anonymous mapping, for every segment size from 1232 bytes up, the
  allocator is well formed once its memory is protected, has no live region, one data segment and
  one lock segment, and room for all but 1240 bytes of the segment in one piece.\<close>

theorem sma_init_correct:
  assumes "\<not> initialized (sma s)" "sma_last (sma s) = 0" "mmap_result env 0 = Some a0" "mmap_result env 1 = Some a1"
    and "1232 \<le> sz" "sz < 2 ^ 63" "0 < a0" "8 dvd a0" "a0 + sz < 2 ^ 64"
  shows "\<exists>s'. immutable_cache_sma_init env raw n sz None s = Inr s' \<and> sma_wf (immutable_cache_sma_protect_memory True s') \<and>
    sma_regions s' = {} \<and> sma_num (sma s') = 1 \<and> fits (hdrs s' ! 0) (sz - 1240)"
  by (rule sma_init_wf [OF assms])

theorem sma_init_correct_witness:
  "\<exists>s. immutable_cache_sma_init sample_env sample_raw 1 65536 None sample_start = Inr s \<and>
    sma_wf (immutable_cache_sma_protect_memory True s) \<and> sma_num (sma s) = 1"
  using sma_init_correct [of sample_start sample_env 1048576 2097152 65536 sample_raw 1]
  by (auto simp: sample_start_def sample_env_def empty_sma_def)

text \<open>C28: An allocation never crashes: no loop diverges and no store hits a protected segment,
  whatever locks cannot be taken. It releases every lock it took, unblocks the interruptions it
  blocked and leaves the protection of the segments as it was. It returns \<^verbatim>\<open>NULL\<close> with the
  live regions unchanged, or the address of a new live region of at least the requested size that
  overlaps no other; and when the locks can be taken, \<^verbatim>\<open>NULL\<close> means that no segment has a
  free block that is large enough.\<close>

theorem sma_malloc_correct:
  assumes "sma_wf s" "n < 2 ^ 64 - 40"
  shows "\<exists>p sz s'. immutable_cache_sma_malloc_ex s n al = Inr (p, sz, s') \<and> sma_wf s' \<and> same_os s s' \<and>
    (if p = 0
     then sma_regions s' = sma_regions s \<and> (lock_rc s = [] \<longrightarrow> (\<forall>i < sma_num (sma s). \<not> fits (hdrs s ! i) n))
     else n \<le> sz \<and> sma_regions s' = insert (p, sz) (sma_regions s) \<and> (\<forall>q \<in> sma_regions s. separate (p, sz) q))"
proof -
  obtain p sz s' where m: "immutable_cache_sma_malloc_ex s n al = Inr (p, sz, s')" "alloc_post s n p sz s'"
    "p = 0 \<longrightarrow> lock_rc s = [] \<longrightarrow> (\<forall>i < sma_num (sma s). \<not> fits (hdrs s ! i) n)"
    using malloc_ex_ok [OF assms] by blast
  have "separate (p, sz) q" if "p \<noteq> 0" "q \<in> sma_regions s" for q
  proof (rule sma_regions_separate [of s'])
    show "sma_wf s'" "(p, sz) \<in> sma_regions s'" "q \<in> sma_regions s'" "(p, sz) \<noteq> q"
      using m(2) that by (force simp: alloc_post_def kept_def)+
  qed
  with m show ?thesis by (auto simp: alloc_post_def kept_def)
qed

theorem sma_malloc_correct_witness:
  "\<exists>s p sz s'. sma_wf s \<and> fits (hdrs s ! 0) 1000 \<and>
    immutable_cache_sma_malloc_ex s 1000 0 = Inr (p, sz, s') \<and> p \<noteq> 0 \<and> sma_regions s' = {(p, sz)} \<and> same_os s (s' :: proc)"
proof -
  obtain s :: proc where s: "sma_wf (immutable_cache_sma_protect_memory True s)" "sma_regions s = {}"
    "fits (hdrs (immutable_cache_sma_protect_memory True s) ! 0) 1000"
    "lock_rc (immutable_cache_sma_protect_memory True s) = []" "sma_num (sma s) = 1"
    using sample_init by blast
  define t :: proc where "t = immutable_cache_sma_protect_memory True s"
  have t: "sma_regions t = {}" "sma_num (sma t) = 1"
    using s(2,5) by (simp_all add: t_def)
  note st = s(1,3,4) [folded t_def]
  have n: "(1000::nat) < 2 ^ 64 - 40" by simp
  obtain p sz u where u: "immutable_cache_sma_malloc_ex t 1000 0 = Inr (p, sz, u)" "same_os t u"
    "if p = 0
     then sma_regions u = sma_regions t \<and> (lock_rc t = [] \<longrightarrow> (\<forall>i < sma_num (sma t). \<not> fits (hdrs t ! i) 1000))
     else 1000 \<le> sz \<and> sma_regions u = insert (p, sz) (sma_regions t) \<and> (\<forall>q \<in> sma_regions t. separate (p, sz) q)"
    using sma_malloc_correct [OF st(1) n] by blast
  have "p \<noteq> 0" using u(3) st(2,3) t(2) by (auto split: if_splits)
  with u t(1) st(1,2) show ?thesis by auto
qed

text \<open>C29: Releasing the address of a live region never crashes and balances locks, interruptions and
  protection; when the lock can be taken it removes exactly this region, otherwise nothing changes.
  The segment is found from the address.\<close>

theorem sma_free_correct:
  assumes "sma_wf s" "(p, n) \<in> sma_regions s"
  shows "\<exists>s'. immutable_cache_sma_free s p = Inr s' \<and> sma_wf s' \<and> same_os s s' \<and>
    (if lock_rc s = [] then sma_regions s' = sma_regions s - {(p, n)}
     else sma_regions s' \<in> {sma_regions s, sma_regions s - {(p, n)}})"
proof -
  obtain s' where "immutable_cache_sma_free s p = Inr s'" "kept s s'"
    "if lock_rc s = [] then sma_regions s' = sma_regions s - {(p, n)}
     else sma_regions s' \<in> {sma_regions s, sma_regions s - {(p, n)}}"
    using sma_free_ok [OF assms] by blast
  then show ?thesis by (intro exI [of _ s']) (simp only: kept_def)
qed

lemma sample_live: "\<exists>s p n. sma_wf (s :: proc) \<and> (p, n) \<in> sma_regions s \<and> lock_rc s = []"
proof -
  obtain s :: proc where s: "sma_wf (immutable_cache_sma_protect_memory True s)"
    "fits (hdrs (immutable_cache_sma_protect_memory True s) ! 0) 1000"
    "lock_rc (immutable_cache_sma_protect_memory True s) = []" "sma_num (sma s) = 1"
    using sample_init by blast
  define t :: proc where "t = immutable_cache_sma_protect_memory True s"
  have t: "sma_wf t" "lock_rc t = []" "sma_num (sma t) = 1" "fits (hdrs t ! 0) 1000"
    using s by (simp_all add: t_def)
  have n: "(1000::nat) < 2 ^ 64 - 40" by simp
  obtain p sz u where u: "alloc_post t 1000 p sz u"
    "p = 0 \<longrightarrow> lock_rc t = [] \<longrightarrow> (\<forall>i < sma_num (sma t). \<not> fits (hdrs t ! i) 1000)"
    using malloc_ex_ok [OF t(1) n] by blast
  have "p \<noteq> 0" using u(2) t by auto
  then have "sma_wf u" "(p, sz) \<in> sma_regions u" "lock_rc u = []"
    using u(1) t(2) by (simp_all add: alloc_post_def kept_def same_os_def)
  then show ?thesis by blast
qed

theorem sma_free_correct_witness:
  "\<exists>s p n s'. (p, n) \<in> sma_regions s \<and> immutable_cache_sma_free s p = Inr s' \<and> (p, n) \<notin> sma_regions (s' :: proc)"
proof -
  obtain s :: proc and p n where s: "sma_wf s" "(p, n) \<in> sma_regions s" "lock_rc s = []" using sample_live by blast
  from sma_free_correct [OF s(1,2)] s show ?thesis by auto
qed

text \<open>C30: Any interleaving of allocations and releases by the processes that share the segments,
  in the order in which the lock serialises them, runs to its end and keeps the allocator well
  formed; a live region stays live until it is freed.\<close>

theorem sma_run_safe:
  assumes "sma_wf s" "mem_legal sma_alloc_op sma_free_op sma_regions (2 ^ 64 - 40) ops s"
  shows "\<exists>s'. mem_run sma_alloc_op sma_free_op ops s = Some s' \<and> sma_wf s' \<and>
    (\<forall>(a, sz) \<in> sma_regions s. Free a \<notin> set ops \<longrightarrow> (a, sz) \<in> sma_regions s') \<and>
    (\<forall>r \<in> sma_regions s'. \<forall>q \<in> sma_regions s'. r \<noteq> q \<longrightarrow> separate r q)"
proof -
  obtain s' where s': "mem_run sma_alloc_op sma_free_op ops s = Some s'" "sma_wf s'"
    "\<forall>(a, sz) \<in> sma_regions s. Free a \<notin> set ops \<longrightarrow> (a, sz) \<in> sma_regions s'"
    using shm.run_ok [OF assms] by blast
  with sma_regions_separate [OF s'(2)] show ?thesis by blast
qed

theorem sma_run_safe_witness:
  "\<exists>s p n s'. sma_wf s \<and> (p, n) \<in> sma_regions s \<and> mem_run sma_alloc_op sma_free_op [Malloc 10, Malloc 20] s = Some s' \<and>
    (p, n) \<in> sma_regions s'"
proof -
  obtain s :: proc and p n where s: "sma_wf s" "(p, n) \<in> sma_regions s" "lock_rc s = []" using sample_live by blast
  have "mem_legal sma_alloc_op sma_free_op sma_regions (2 ^ 64 - 40) [Malloc 10, Malloc 20] s"
    by (simp split: option.splits prod.splits)
  from sma_run_safe [OF s(1) this] obtain u where
    "mem_run sma_alloc_op sma_free_op [Malloc 10, Malloc 20] s = Some u"
    "\<forall>(a, sz) \<in> sma_regions s. Free a \<notin> set [Malloc 10, Malloc 20] \<longrightarrow> (a, sz) \<in> sma_regions u"
    by blast
  moreover from this(2) s(2) have "(p, n) \<in> sma_regions u" by auto
  ultimately show ?thesis using s(1,2) by blast
qed

lemma fold_size_add:
  "a + (\<Sum>x\<leftarrow>xs. f x) < 2 ^ 64 \<Longrightarrow> fold (\<lambda>x acc. size_add acc (f x)) xs a = a + (\<Sum>x\<leftarrow>xs. f x)"
  by (induction xs arbitrary: a) (simp_all add: size_t_simps)

text \<open>The number of available bytes the allocator reports is the number of free bytes plus one
  block header per segment, as long as the sum does not wrap around.\<close>

theorem sma_avail_mem_correct:
  assumes "sma_wf s" "(\<Sum>i\<leftarrow>[0..<sma_num (sma s)]. free_bytes (hdrs s ! i) + 32) < 2 ^ 64"
  shows "immutable_cache_sma_get_avail_mem s = (\<Sum>i\<leftarrow>[0..<sma_num (sma s)]. free_bytes (hdrs s ! i) + 32)"
proof -
  have a: "avail (hdrs s ! i) = free_bytes (hdrs s ! i) + 32" if "i < sma_num (sma s)" for i
  proof -
    have "seg_ok (hdrs s ! i)" using assms(1) that by (simp add: sma_wf_def)
    then show ?thesis by (rule seg_okE) (rule seg_wf_free_bytes)
  qed
  have e: "map (\<lambda>i. avail (hdrs s ! i)) [0..<sma_num (sma s)] = map (\<lambda>i. free_bytes (hdrs s ! i) + 32) [0..<sma_num (sma s)]"
    using a by simp
  then have "(\<Sum>i\<leftarrow>[0..<sma_num (sma s)]. avail (hdrs s ! i)) = (\<Sum>i\<leftarrow>[0..<sma_num (sma s)]. free_bytes (hdrs s ! i) + 32)"
    by (simp only:)
  with assms(2) show ?thesis
    unfolding immutable_cache_sma_get_avail_mem_def by (subst fold_size_add) (simp_all only: add_0)
qed

theorem sma_avail_mem_correct_witness:
  "\<exists>s. sma_wf (s :: proc) \<and> immutable_cache_sma_get_avail_mem s = free_bytes (hdrs s ! 0) + 32"
proof -
  obtain s where s: "immutable_cache_sma_init sample_env sample_raw 1 65536 None sample_start = Inr s"
    "sma_wf (immutable_cache_sma_protect_memory True s)" "sma_num (sma s) = 1"
    using sample_init by blast
  define t :: proc where "t = immutable_cache_sma_protect_memory True s"
  have t: "sma_wf t" "sma_num (sma t) = 1"
    using s(2,3) by (simp_all add: t_def)
  then have ok: "seg_ok (hdrs t ! 0)" by (simp add: sma_wf_def)
  then have "free_bytes (hdrs t ! 0) + 32 < 2 ^ 64"
    by (rule seg_okE) (auto simp: free_bytes_def seg_wf_def LAST_def dest!: tiles_total_le)
  with t show ?thesis using sma_avail_mem_correct [OF t(1)] by auto
qed

subsection \<open>The report over all segments\<close>

lemma SMA_LOCK_succeeds:
  assumes "sma_wf s" "lock_rc s = []"
  shows "\<exists>t. SMA_LOCK s = (True, t) \<and> kept s (SMA_UNLOCK t) \<and> hdrs t = hdrs s \<and> sma t = sma s"
  using assms(1)
proof (cases rule: SMA_LOCK_cases)
  case (ok t)
  have "kept s (SMA_UNLOCK t)"
    using ok SMA_UNLOCK_same [OF assms(1) ok(2)] by (intro keptI_same [OF assms(1)]) simp_all
  with ok show ?thesis by blast
qed (use assms(2) in simp)

lemma sma_info_segs_ok:
  assumes "sma_wf s" "lock_rc s = []" "set is \<subseteq> {..<sma_num (sma s)}"
  shows "\<exists>ls s'. sma_info_segs is s = Inr (ls, s') \<and> kept s s' \<and> sma s' = sma s \<and> hdrs s' = hdrs s \<and>
    list_all2 (\<lambda>l i. sma_info_links (blk (hdrs s ! i)) FIRST [] = Some l) ls is"
  using assms
proof (induction "is" arbitrary: s)
  case Nil
  then show ?case by (simp add: kept_refl)
next
  case (Cons i "is")
  obtain t where t: "SMA_LOCK s = (True, t)" "kept s (SMA_UNLOCK t)" "hdrs t = hdrs s" "sma t = sma s"
    using SMA_LOCK_succeeds [OF Cons.prems(1,2)] by blast
  have "seg_ok (hdrs s ! i)" using Cons.prems(1,3) by (simp add: sma_wf_def)
  then obtain l where l: "sma_info_links (blk (hdrs s ! i)) FIRST [] = Some l"
    using seg_wf_info by (metis seg_okE)
  let ?u = "SMA_UNLOCK t"
  have u: "sma_wf ?u" "lock_rc ?u = []" "set is \<subseteq> {..<sma_num (sma ?u)}"
    using t Cons.prems by (auto simp: kept_def same_os_def)
  obtain ls v where v: "sma_info_segs is ?u = Inr (ls, v)" "kept ?u v" "sma v = sma ?u" "hdrs v = hdrs ?u"
    "list_all2 (\<lambda>l i. sma_info_links (blk (hdrs ?u ! i)) FIRST [] = Some l) ls is"
    using Cons.IH [OF u] by blast
  show ?case
    using t v l kept_trans [OF t(2) v(2)] by (simp add: FIRST_def)
qed

text \<open>When the locks can be taken, \<^verbatim>\<open>immutable_cache_sma_info\<close> reports for every
  data segment exactly its free blocks, changes nothing and releases what it locked.\<close>

theorem sma_info_correct:
  assumes "sma_wf s" "lock_rc s = []"
  shows "\<exists>info s'. immutable_cache_sma_info s False = Inr (Some info, s') \<and> sma_wf s' \<and> same_os s s' \<and>
    hdrs s' = hdrs s \<and> num_seg info = sma_num (sma s) \<and> length (info_list info) = sma_num (sma s) \<and>
    (\<forall>i < sma_num (sma s). sma_info_links (blk (hdrs s ! i)) FIRST [] = Some (info_list info ! i))"
proof -
  let ?is = "[0..<sma_num (sma s)]"
  have "set ?is \<subseteq> {..<sma_num (sma s)}" by auto
  from sma_info_segs_ok [OF assms this] obtain ls s' where
    i: "sma_info_segs ?is s = Inr (ls, s')" "kept s s'" "hdrs s' = hdrs s"
      "list_all2 (\<lambda>l i. sma_info_links (blk (hdrs s ! i)) FIRST [] = Some l) ls ?is" by blast
  have "initialized (sma s)" using assms(1) by (simp add: sma_wf_def)
  moreover have "length ls = sma_num (sma s)" using list_all2_lengthD [OF i(4)] by simp
  moreover have "sma_info_links (blk (hdrs s ! k)) FIRST [] = Some (ls ! k)" if "k < sma_num (sma s)" for k
    using list_all2_nthD2 [OF i(4), of k] that by simp
  ultimately show ?thesis
    using i(1-3) by (auto simp: immutable_cache_sma_info_def Let_def kept_def)
qed

theorem sma_info_correct_witness:
  "\<exists>s info s'. sma_wf (s :: proc) \<and> immutable_cache_sma_info s False = Inr (Some info, s') \<and> num_seg info = sma_num (sma s)"
proof -
  obtain s :: proc where s: "sma_wf s" "lock_rc s = []" using sample_live by blast
  from sma_info_correct [OF s] s show ?thesis by blast
qed

text \<open>C34: When the lock of \<^verbatim>\<open>immutable_cache_sma_info\<close> cannot be taken, the function goes on
  and releases it all the same: the process ends with one release too many, of the lock and of the
  blocked interruptions.\<close>

theorem sma_info_unbalanced:
  assumes "sma_wf s" "sma_num (sma s) = 1" "lock_rc s = [rc]" "rc \<noteq> 0"
  shows "\<exists>info s'. immutable_cache_sma_info s False = Inr (Some info, s') \<and>
    held_w s' (SmaLock 1) = held_w s (SmaLock 1) - 1 \<and> blocked s' = blocked s - 1"
proof -
  have "seg_ok (hdrs s ! 0)" "initialized (sma s)" using assms(1,2) by (simp_all add: sma_wf_def)
  then obtain l where l: "sma_info_links (blk (hdrs s ! 0)) FIRST [] = Some l"
    using seg_wf_info by (metis seg_okE)
  then show ?thesis
    using assms(2-4) \<open>initialized (sma s)\<close>
    by (simp add: immutable_cache_sma_info_def SMA_LOCK_def SMA_UNLOCK_def lock_defs Let_def FIRST_def)
qed

theorem sma_info_unbalanced_witness:
  "\<exists>s info s'. sma_wf (s :: proc) \<and> immutable_cache_sma_info s False = Inr (Some info, s') \<and> blocked s' = blocked s - 1"
proof -
  obtain s :: proc where s: "sma_wf (immutable_cache_sma_protect_memory True s)" "sma_num (sma s) = 1"
    using sample_init by blast
  define t where "t = (immutable_cache_sma_protect_memory True s)\<lparr>lock_rc := [11]\<rparr>"
  have "sma_wf t" using s(1) by (simp add: t_def sma_wf_def segments_apart_def SMA_ADDR_def)
  moreover have "sma_num (sma t) = 1" "lock_rc t = [11]" "(11::int) \<noteq> 0" using s(2) by (simp_all add: t_def)
  ultimately show ?thesis using sma_info_unbalanced [of t 11] by blast
qed

subsection \<open>A file mask with one segment\<close>

text \<open>C35: With one data segment and a file mask, start-up always fails. The first mapping lets
  \<^verbatim>\<open>mkstemp\<close> overwrite the mask, the mask is only restored when there is more than one
  segment, and the mapping of the lock segment then runs \<^verbatim>\<open>mkstemp\<close> on a name without the
  required \<^verbatim>\<open>XXXXXX\<close>. The hypotheses are the documented behaviour of \<^verbatim>\<open>mkstemp\<close>: a template
  that does not end in \<^verbatim>\<open>XXXXXX\<close> is refused, and in an accepted one these characters are
  replaced.\<close>

theorem sma_init_file_mask_fails:
  assumes "\<not> initialized (sma s)" "m \<noteq> []"
    and "\<And>i t. drop (length t - 6) t \<noteq> ''XXXXXX'' \<Longrightarrow> mkstemp env i t = None"
    and "\<And>i t t'. mkstemp env i t = Some t' \<Longrightarrow> drop (length t' - 6) t' \<noteq> ''XXXXXX'' \<and> t' \<noteq> []"
  shows "\<exists>e. immutable_cache_sma_init env raw 1 sz (Some m) s = Inl (CoreError e)"
proof -
  have "\<exists>e. sma_init_segs env raw 1 z 0 2 (Some m) = Inl (CoreError e)" for z
  proof (cases "mkstemp env 0 m")
    case None
    with assms(2) show ?thesis by (simp add: numeral_2_eq_2 immutable_cache_mmap_def)
  next
    case (Some t')
    then have "mkstemp env 1 t' = None" "t' \<noteq> []" using assms(3,4) by blast+
    with Some assms(2) show ?thesis
      by (cases "mmap_result env 0") (simp_all add: numeral_2_eq_2 immutable_cache_mmap_def)
  qed
  then obtain e where "sma_init_segs env raw 1 (if 0 < sz then sz else DEFAULT_SEGSIZE) 0 2 (Some m) = Inl (CoreError e)"
    by blast
  moreover have "(if Some m = None \<or> Some m = Some [] \<or> Some m = Some ''/dev/zero'' then 1
      else if (1::int) > 0 then nat 1 else DEFAULT_NUMSEG) = 1" by simp
  ultimately have "immutable_cache_sma_init env raw 1 sz (Some m) s = Inl (CoreError e)"
    unfolding immutable_cache_sma_init_def Let_def using assms(1) by (simp only: if_False one_add_one ebind_simps)
  then show ?thesis ..
qed

definition mask_env :: mmap_env where
  "mask_env = \<lparr>mkstemp = (\<lambda>i t. if drop (length t - 6) t = ''XXXXXX'' then Some (take (length t - 6) t @ ''abc123'') else None),
     ftruncate_ok = (\<lambda>_. True), mmap_result = (\<lambda>i. Some (1048576 * (i + 1)))\<rparr>"

theorem sma_init_file_mask_fails_witness:
  "\<exists>e. immutable_cache_sma_init mask_env sample_raw 1 65536 (Some ''/tmp/icache.XXXXXX'') sample_start = Inl (CoreError e)"
proof (rule sma_init_file_mask_fails)
  show "\<not> initialized (sma sample_start)" by (simp add: sample_start_def empty_sma_def)
  show "drop (length t' - 6) t' \<noteq> ''XXXXXX'' \<and> t' \<noteq> []" if "mkstemp mask_env i t = Some t'" for i t t'
    using that by (auto simp: mask_env_def split: if_splits)
qed (simp_all add: mask_env_def)

end
