(* ===== verification/Persist_Props.thy ===== *)
theory Persist_Props
  imports Persist_Copy Sma_Props
begin

text \<open>
  The properties of \<^verbatim>\<open>immutable_cache_persist\<close> and \<^verbatim>\<open>immutable_cache_unpersist\<close> as
  a whole: what the cache may rely on when it stores and reads an entry.
\<close>

subsection \<open>The heap and the allocator together\<close>

text \<open>Every object in shared memory lies in a live region of the allocator, caches its hash, is
  immutable and points to shared memory only.\<close>

definition in_regions :: "'a mproc_scheme \<Rightarrow> bool" where
  "in_regions s \<longleftrightarrow> (\<forall>a \<in> dom (mem s). immutable_cache_sma_contains_pointer (sma s) a \<longrightarrow>
     (\<exists>(p, n) \<in> sma_regions s. p \<le> a \<and> a < p + n))"

definition shm_wf :: "zend_abi \<Rightarrow> 'a mproc_scheme \<Rightarrow> bool" where
  "shm_wf Z s \<longleftrightarrow> sma_wf s \<and> zend_ok Z \<and> heap_hashed Z (mem s) \<and> dom (mem s) \<subseteq> {..<2 ^ 64} \<and>
     shm_closed Z (sma s) (mem s) \<and> in_regions s"

lemma contains_pointer_cong:
  "sma_num m' = sma_num m \<Longrightarrow> segs m' = segs m \<Longrightarrow>
    immutable_cache_sma_contains_pointer m' = immutable_cache_sma_contains_pointer m"
  by (simp add: immutable_cache_sma_contains_pointer_def fun_eq_iff)

lemma region_contained:
  assumes "sma_wf s" "(p, n) \<in> sma_regions s" "p \<le> a" "a < p + n"
  shows "immutable_cache_sma_contains_pointer (sma s) a"
proof -
  obtain i b where r: "p = SMA_ADDR s i + b" "i < sma_num (sma s)" "(b, n) \<in> regions (hdrs s ! i)"
    using assms(2) by (rule sma_regionsE)
  have "b + n \<le> seg_size (segs (sma s) ! i)"
    using region_in_segment [OF assms(1) r(2,3)] assms(1) r(2) by (simp add: sma_wf_def)
  with assms(3,4) r(1) have "SMA_ADDR s i \<le> a" "a < SMA_ADDR s i + seg_size (segs (sma s) ! i)" by linarith+
  then show ?thesis using r(2) by (auto simp: immutable_cache_sma_contains_pointer_def SMA_ADDR_def)
qed

text \<open>A region that has just been allocated holds no object.\<close>

lemma fresh_region:
  assumes "in_regions s" "sma_wf s'" "sma_regions s' = insert (p, n) (sma_regions s)" "p \<notin> fst ` sma_regions s"
    and "immutable_cache_sma_contains_pointer (sma s') = immutable_cache_sma_contains_pointer (sma s)" "p \<le> a" "a < p + n"
  shows "a \<notin> dom (mem s)"
proof
  assume a: "a \<in> dom (mem s)"
  have "immutable_cache_sma_contains_pointer (sma s) a"
    using region_contained [OF assms(2), of p n a] assms(3,5,6,7) by simp
  with a assms(1) obtain q k where q: "(q, k) \<in> sma_regions s" "q \<le> a" "a < q + k" by (auto simp: in_regions_def)
  then have "(q, k) \<noteq> (p, n)" using assms(4) by force
  then have "separate (q, k) (p, n)"
    using sma_regions_separate [OF assms(2), of "(q, k)" "(p, n)"] q(1) assms(3) by blast
  with q assms(6,7) show False by (auto simp: separate_def)
qed

subsection \<open>The first pass only asks whether a pointer is in shared memory\<close>

lemma calc_str_cong:
  assumes "immutable_cache_sma_contains_pointer m' = immutable_cache_sma_contains_pointer m"
  shows "immutable_cache_persist_calc_str Z m' = immutable_cache_persist_calc_str Z m"
  by (simp add: immutable_cache_persist_calc_str_def assms fun_eq_iff)

lemma calc_buckets_cong:
  assumes "immutable_cache_sma_contains_pointer m' = immutable_cache_sma_contains_pointer m"
  shows "calc_buckets rec Z m' H bs c = calc_buckets rec Z m H bs c"
proof (induction bs arbitrary: c)
  case (Cons b bs)
  then show ?case unfolding calc_buckets.simps calc_str_cong [OF assms] by (simp only: Cons.IH)
qed simp

lemma calc_ht_cong:
  assumes "immutable_cache_sma_contains_pointer m' = immutable_cache_sma_contains_pointer m"
  shows "immutable_cache_persist_calc_ht rec Z m' = immutable_cache_persist_calc_ht rec Z m"
  unfolding immutable_cache_persist_calc_ht_def calc_buckets_cong [OF assms] ..

lemma calc_zval_cong:
  assumes "immutable_cache_sma_contains_pointer m' = immutable_cache_sma_contains_pointer m"
  shows "immutable_cache_persist_calc_zval n Z m' = immutable_cache_persist_calc_zval n Z m"
proof (induction n)
  case (Suc n)
  show ?case unfolding fun_eq_iff immutable_cache_persist_calc_zval.simps calc_ht_cong [OF assms] assms Suc.IH by blast
qed (simp add: fun_eq_iff)

lemma calc_cong:
  assumes "immutable_cache_sma_contains_pointer m' = immutable_cache_sma_contains_pointer m"
  shows "immutable_cache_persist_calc n Z m' = immutable_cache_persist_calc n Z m"
  unfolding immutable_cache_persist_calc_def calc_str_cong [OF assms] calc_zval_cong [OF assms] ..

lemma zval_shm_cong:
  assumes "immutable_cache_sma_contains_pointer m' = immutable_cache_sma_contains_pointer m"
  shows "zval_shm m' = zval_shm m"
proof
  fix z show "zval_shm m' z = zval_shm m z" by (cases z) (simp_all add: assms)
qed

lemma cell_shm_cong:
  assumes "immutable_cache_sma_contains_pointer m' = immutable_cache_sma_contains_pointer m"
  shows "cell_shm Z m' = cell_shm Z m"
proof
  fix cl
  have "bucket_shm m' b = bucket_shm m b" for b unfolding bucket_shm_def assms zval_shm_cong [OF assms] ..
  then show "cell_shm Z m' cl = cell_shm Z m cl"
    by (cases "(Z, m, cl)" rule: cell_shm.cases) (simp_all add: assms zval_shm_cong [OF assms])
qed

lemma shm_closed_cong:
  assumes "immutable_cache_sma_contains_pointer m' = immutable_cache_sma_contains_pointer m"
  shows "shm_closed Z m' = shm_closed Z m"
  by (simp add: shm_closed_def fun_eq_iff cell_shm_cong [OF assms] assms)

subsection \<open>The copy of a whole entry\<close>

lemma calc_split:
  assumes "immutable_cache_persist_calc n Z m H e c0 = Inr (ok, c')"
  obtains c2 where "immutable_cache_persist_calc_str Z m H (ekey e) (ADD_SIZE Z (sizeof_entry Z) c0) = Inr c2"
    "immutable_cache_persist_calc_zval n Z m H (eval e) c2 = Inr (ok, c')"
  using assms by (auto simp: immutable_cache_persist_calc_def ebind_Inr_iff)

text \<open>A context in which nothing has been counted or copied.\<close>

definition blank :: "persist_context \<Rightarrow> bool" where
  "blank c \<longleftrightarrow> psize_total c = 0 \<and> already_counted c = {} \<and> already_allocated c = Map.empty"

lemma sync_start:
  assumes "blank c0" "\<not> use_serialization c0" "calc_rel c0 c'" "S = psize_total c'"
    and "shm_closed Z m H" "heap_hashed Z H"
  shows "sync Z m H A S {} c0 (c'\<lparr>palloc := A, alloc_cur := A\<rparr>) H"
  using assms by (auto simp: blank_def sync_def calc_rel_def memo_ok_def)

lemma calc_str_rel:
  assumes "immutable_cache_persist_calc_str Z m H k c = Inr c'"
  shows "calc_rel c c'"
  using assms calc_rel_memoize [of c k]
  by (auto simp: immutable_cache_persist_calc_str_def ebind_Inr_iff split: if_splits prod.splits intro: calc_rel_ADD_SIZE)

text \<open>What the copy of an entry delivers, apart from the value: \<open>good\<close> says what the copied zval stands for.\<close>

definition entry_copied where
  "entry_copied Z m H A S orig ks good r \<longleftrightarrow>
     (\<exists>k z H' cc. r = Inr (A, orig\<lparr>ekey := k, eval := z\<rparr>, H', cc) \<and> alloc_cur cc = A + S \<and> palloc cc = A \<and> psize_total cc = S \<and>
        H \<subseteq>\<^sub>m H' \<and> H' A = None \<and> dom H' \<subseteq> dom H \<union> {A..<A + S} \<and> shm_closed Z m H' \<and> heap_hashed Z H' \<and>
        immutable_cache_sma_contains_pointer m k \<and> str_at H' k ks \<and> good H' z)"

lemma persist_copy_plain:
  assumes st: "setting Z m H A S" and cl: "shm_closed Z m H" and c0: "blank c0" "\<not> use_serialization c0"
    and calc: "immutable_cache_persist_calc n Z m H orig c0 = Inr (True, c')" "S = psize_total c'"
    and k: "H (ekey orig) = Some (CStr ks)" and v: "rep H (eval orig) v" "psize v \<le> n"
  shows "entry_copied Z m H A S orig (zstr_val ks) (\<lambda>H' z. rep H' z v \<and> zval_shm m z)
    (immutable_cache_persist_copy n Z m orig H (c'\<lparr>palloc := A, alloc_cur := A\<rparr>))"
proof -
  let ?cc = "c'\<lparr>palloc := A, alloc_cur := A\<rparr>" and ?c1 = "ADD_SIZE Z (sizeof_entry Z) c0"
  have zok: "zend_ok Z" and hh: "heap_hashed Z H" using st by (simp_all add: setting_def)
  obtain c2 where c2: "immutable_cache_persist_calc_str Z m H (ekey orig) ?c1 = Inr c2"
    "immutable_cache_persist_calc_zval n Z m H (eval orig) c2 = Inr (True, c')" using calc(1) by (rule calc_split)
  have r12: "calc_rel ?c1 c2" by (rule calc_str_rel [OF c2(1)])
  then have "\<not> use_serialization c2" using c0(2) by (simp add: calc_rel_def ADD_SIZE_def)
  with calc_ok(1) [OF v this, of Z m] c2(2) have r2: "calc_rel c2 c'" by auto
  have "calc_rel c0 ?c1" by (intro calc_rel_ADD_SIZE) simp
  then have r: "calc_rel c0 c'" using r12 r2 calc_rel_trans by blast
  have le: "psize_total c2 \<le> S" "psize_total ?c1 \<le> S" using r12 r2 calc(2) by (simp_all add: calc_rel_def)
  have s0: "sync Z m H A S {} c0 ?cc H" by (rule sync_start [OF c0 r calc(2) cl hh])
  obtain cc1 where 1: "immutable_cache_persist_alloc Z (sizeof_entry Z) ?cc = Inr (A, cc1)" "sync Z m H A S {} ?c1 cc1 H"
    "alloc_cur cc1 = A + ZEND_MM_ALIGNED_SIZE Z (sizeof_entry Z)" using alloc_step [OF s0 refl le(2)] by auto
  from str_step [OF st 1(2) k] c2(1) le(1) obtain q H1 cc2 where
    2: "immutable_cache_persist_get_or_copy_zstr Z m (ekey orig) H cc1 = Inr (q, H1, cc2)" "sync Z m H A S {} c2 cc2 H1"
      "grown cc1 H cc2 H1" "immutable_cache_sma_contains_pointer m q" "str_at H1 q (zstr_val ks)" by auto
  have "busy H {} (psize v)" by (simp add: busy_def)
  from copy_ok(1) [OF st v this 2(2) c2(2)] calc(2) obtain z H2 cc3 where
    3: "immutable_cache_persist_copy_zval n Z m (eval orig) H1 cc2 = Inr (z, H2, cc3)"
      "copied Z m H A S {} c' cc2 H1 (H2, cc3)" "rep H2 z v" "zval_shm m z" by (auto elim: copy_valE)
  have s3: "sync Z m H A S {} c' cc3 H2" by (rule copied_sync [OF 3(2)])
  have g: "grown cc1 H cc3 H2" using grown_trans [OF 2(3)] 3(2) by (simp add: copied_def)
  have "0 < ZEND_MM_ALIGNED_SIZE Z (sizeof_entry Z)" by (rule aligned_pos [OF zok zend_okD(4) [OF zok]])
  moreover have "H A = None" using alloc_fresh(2) [OF st s0 zend_okD(4) [OF zok]] le(2) c0 by (simp add: ADD_SIZE_def blank_def)
  ultimately have A: "H2 A = None" using g 1(3) by (auto simp: grown_def)
  have "str_at H2 q (zstr_val ks)" by (rule str_at_mono [OF 2(5) copied_map_le [OF 3(2)]])
  then show ?thesis
    using 1(1) 2(1,4) 3(1,3,4) s3 A calc(2) unfolding entry_copied_def
    by (auto simp: immutable_cache_persist_copy_def sync_def)
qed

text \<open>The key is handled the same whether the value is serialized or not.\<close>

lemma calc_str_use:
  "immutable_cache_persist_calc_str Z m H k (c\<lparr>use_serialization := b\<rparr>) =
    ebind (immutable_cache_persist_calc_str Z m H k c) (\<lambda>c. Inr (c\<lparr>use_serialization := b\<rparr>))"
  by (simp add: immutable_cache_persist_calc_str_def immutable_cache_persist_calc_memoize_def ADD_SIZE_def ebind_def split: sum.splits)

lemma alloc_use:
  "immutable_cache_persist_alloc Z n (c\<lparr>use_serialization := b\<rparr>) =
    ebind (immutable_cache_persist_alloc Z n c) (\<lambda>(p, c). Inr (p, c\<lparr>use_serialization := b\<rparr>))"
  by (simp add: immutable_cache_persist_alloc_def)

lemma copy_zstr_use:
  "immutable_cache_persist_get_or_copy_zstr Z m k H (c\<lparr>use_serialization := b\<rparr>) =
    ebind (immutable_cache_persist_get_or_copy_zstr Z m k H c) (\<lambda>(p, H, c). Inr (p, H, c\<lparr>use_serialization := b\<rparr>))"
  by (simp add: immutable_cache_persist_get_or_copy_zstr_def immutable_cache_persist_get_already_allocated_def
      immutable_cache_persist_copy_cstr_def alloc_use immutable_cache_persist_add_already_allocated_def ebind_def
      split: option.splits sum.splits prod.splits)

lemma copy_zstr_serialized:
  "immutable_cache_persist_alloc Z n c = Inr (p, c') \<Longrightarrow> serialized_str c' = serialized_str c"
  "immutable_cache_persist_get_or_copy_zstr Z m k H c = Inr (p, H', c') \<Longrightarrow> serialized_str c' = serialized_str c"
  by (auto simp: immutable_cache_persist_get_or_copy_zstr_def immutable_cache_persist_copy_cstr_def ebind_Inr_iff
      immutable_cache_persist_alloc_def Let_def immutable_cache_persist_add_already_allocated_def split: option.splits if_splits)

definition serializer_of :: "zend_abi \<Rightarrow> immutable_cache_serializer_t option \<Rightarrow> heap \<Rightarrow> zval \<Rightarrow> string option" where
  "serializer_of Z ser = (case ser of None \<Rightarrow> php_var_serialize Z | Some s \<Rightarrow> serialize s)"

text \<open>The bytes of the serializer become a string of shared memory.\<close>

lemma serialized_str_step:
  assumes st: "setting Z m H A S" and s: "sync Z m H A S {} c cc Hc"
    and c': "c' = ADD_SIZE Z (ZSTR_STRUCT_SIZE Z (length buf)) c" "psize_total c' \<le> S"
  shows "\<exists>q H' cc'. immutable_cache_persist_copy_cstr Z buf 0 Hc (cc\<lparr>use_serialization := b\<rparr>) = Inr (q, H', cc'\<lparr>use_serialization := b\<rparr>) \<and>
    sync Z m H A S {} c' cc' H' \<and> grown cc Hc cc' H' \<and> immutable_cache_sma_contains_pointer m q \<and> str_at H' q buf"
proof -
  let ?n = "ZSTR_STRUCT_SIZE Z (length buf)" and ?p = "alloc_cur cc"
  have zok: "zend_ok Z" using st by (simp add: setting_def)
  have le: "psize_total c + ZEND_MM_ALIGNED_SIZE Z ?n \<le> S" using c' by (simp add: ADD_SIZE_def)
  obtain cc' where a: "immutable_cache_persist_alloc Z ?n cc = Inr (?p, cc')" "sync Z m H A S {} c' cc' Hc" "grown cc Hc cc' Hc"
    "alloc_cur cc' = ?p + ZEND_MM_ALIGNED_SIZE Z ?n" using alloc_step [OF s c'] by blast
  note fr = alloc_fresh [OF st s zend_okD(1) [OF zok] le]
  define x where "x = CStr \<lparr>str_refcount = 2, str_immutable = True, zstr_h = zend_string_hash_func Z buf, zstr_val = buf\<rparr>"
  have "A \<le> ?p" "?p < alloc_cur cc'"
    using s a(4) aligned_pos [OF zok zend_okD(1) [OF zok]] by (simp_all add: sync_def)
  from sync_store [OF a(2) this fr(2), of x] have s2: "sync Z m H A S {} c' cc' (Hc(?p \<mapsto> x))" "Hc \<subseteq>\<^sub>m Hc(?p \<mapsto> x)"
    by (simp_all add: x_def str_hashed_def)
  then have "grown cc Hc cc' (Hc(?p \<mapsto> x))" using a(3,4) by (auto simp: grown_def)
  moreover have "immutable_cache_persist_copy_cstr Z buf 0 Hc (cc\<lparr>use_serialization := b\<rparr>) = Inr (?p, Hc(?p \<mapsto> x), cc'\<lparr>use_serialization := b\<rparr>)"
    using a(1) by (simp add: immutable_cache_persist_copy_cstr_def alloc_use x_def)
  ultimately show ?thesis using s2(1) fr(1) by (auto simp: x_def str_at_def)
qed

lemma persist_copy_serialized:
  assumes st: "setting Z m H A S" and cl: "shm_closed Z m H" and c0: "blank c0" "use_serialization c0" "\<not> memoization_needed c0"
    and calc: "immutable_cache_persist_calc (Suc n) Z m H orig c0 = Inr (True, c')" "S = psize_total c'"
    and k: "H (ekey orig) = Some (CStr ks)" and z: "eval orig = IS_ARRAY a \<or> eval orig = IS_OBJECT a"
  shows "\<exists>buf. serializer_of Z (pserializer c0) H (eval orig) = Some buf \<and>
    entry_copied Z m H A S orig (zstr_val ks) (\<lambda>H' z. \<exists>q. z = IS_PTR q \<and> immutable_cache_sma_contains_pointer m q \<and> str_at H' q buf)
      (immutable_cache_persist_copy (Suc n) Z m orig H (c'\<lparr>palloc := A, alloc_cur := A\<rparr>))"
proof -
  let ?off = "\<lambda>c::persist_context. c\<lparr>use_serialization := False\<rparr>" and ?on = "\<lambda>c::persist_context. c\<lparr>use_serialization := True\<rparr>"
  let ?cc = "c'\<lparr>palloc := A, alloc_cur := A\<rparr>" and ?c1 = "ADD_SIZE Z (sizeof_entry Z) c0"
  have zok: "zend_ok Z" and hh: "heap_hashed Z H" using st by (simp_all add: setting_def)
  obtain c2 where c2: "immutable_cache_persist_calc_str Z m H (ekey orig) ?c1 = Inr c2"
    "immutable_cache_persist_calc_zval (Suc n) Z m H (eval orig) c2 = Inr (True, c')" using calc(1) by (rule calc_split)
  have r12: "calc_rel ?c1 c2" by (rule calc_str_rel [OF c2(1)])
  then have f2: "use_serialization c2" "\<not> memoization_needed c2" "pserializer c2 = pserializer c0"
    "already_allocated c2 = Map.empty" using c0 by (simp_all add: calc_rel_def ADD_SIZE_def blank_def)
  then obtain buf where buf: "serializer_of Z (pserializer c0) H (eval orig) = Some buf"
    and c': "c' = ADD_SIZE Z (ZSTR_STRUCT_SIZE Z (length buf)) (c2\<lparr>serialized_str := Some buf\<rparr>)"
    using c2(2) z by (auto simp: immutable_cache_persist_calc_serialize_def serializer_of_def split: option.splits if_splits)
  define d where "d = (?off c2)\<lparr>serialized_str := Some buf\<rparr>"
  have le: "psize_total c2 \<le> S" "psize_total ?c1 \<le> S" using r12 calc(2) by (simp_all add: calc_rel_def c' ADD_SIZE_def)
  have s0: "sync Z m H A S {} (?off c0) (?off ?cc) H"
    using c0 f2 calc(2) cl hh by (auto simp: sync_def blank_def memo_ok_def c' ADD_SIZE_def)
  have off1: "ADD_SIZE Z (sizeof_entry Z) (?off c0) = ?off ?c1" by (simp add: ADD_SIZE_def)
  obtain cc1 where 1: "immutable_cache_persist_alloc Z (sizeof_entry Z) (?off ?cc) = Inr (A, cc1)" "sync Z m H A S {} (?off ?c1) cc1 H"
    "alloc_cur cc1 = A + ZEND_MM_ALIGNED_SIZE Z (sizeof_entry Z)" using alloc_step [OF s0 off1 [symmetric]] le(2) by auto
  have "immutable_cache_persist_calc_str Z m H (ekey orig) (?off ?c1) = Inr (?off c2)" by (simp add: calc_str_use c2(1))
  with str_step [OF st 1(2) k] le(1) obtain q H1 cc2 where
    2: "immutable_cache_persist_get_or_copy_zstr Z m (ekey orig) H cc1 = Inr (q, H1, cc2)" "sync Z m H A S {} (?off c2) cc2 H1"
      "grown cc1 H cc2 H1" "immutable_cache_sma_contains_pointer m q" "str_at H1 q (zstr_val ks)" by auto
  have c'': "?off c' = ADD_SIZE Z (ZSTR_STRUCT_SIZE Z (length buf)) d" by (simp add: d_def c' ADD_SIZE_def)
  have s2: "sync Z m H A S {} d cc2 H1" using 2(2) by (simp add: sync_def d_def)
  from serialized_str_step [OF st s2 c'', of True] calc(2) obtain x H2 cc3 where
    3: "immutable_cache_persist_copy_cstr Z buf 0 H1 (?on cc2) = Inr (x, H2, ?on cc3)" "sync Z m H A S {} (?off c') cc3 H2"
      "grown cc2 H1 cc3 H2" "immutable_cache_sma_contains_pointer m x" "str_at H2 x buf" by auto
  have on: "?cc = ?on (?off ?cc)" using f2(1) by (simp add: c' ADD_SIZE_def)
  have al: "immutable_cache_persist_alloc Z (sizeof_entry Z) ?cc = Inr (A, ?on cc1)"
    by (subst on, subst alloc_use) (simp add: 1(1))
  have ky: "immutable_cache_persist_get_or_copy_zstr Z m (ekey orig) H (?on cc1) = Inr (q, H1, ?on cc2)"
    by (simp add: copy_zstr_use 2(1))
  have "serialized_str cc2 = Some buf" "\<not> memoization_needed cc2"
    using copy_zstr_serialized(1) [OF 1(1)] copy_zstr_serialized(2) [OF 2(1)] 2(2) f2(2) by (simp_all add: c' ADD_SIZE_def sync_def)
  then have vl: "immutable_cache_persist_copy_zval (Suc n) Z m (eval orig) H1 (?on cc2) = Inr (IS_PTR x, H2, ?on cc3)"
    using z 3(1) by (auto simp: immutable_cache_persist_copy_serialize_def)
  have g: "grown cc1 H cc3 H2" by (rule grown_trans [OF 2(3) 3(3)])
  have "0 < ZEND_MM_ALIGNED_SIZE Z (sizeof_entry Z)" by (rule aligned_pos [OF zok zend_okD(4) [OF zok]])
  moreover have "H A = None"
    using alloc_fresh(2) [OF st s0 zend_okD(4) [OF zok]] le(2) c0 by (simp add: ADD_SIZE_def blank_def)
  ultimately have A: "H2 A = None" using g 1(3) by (auto simp: grown_def)
  have "str_at H2 q (zstr_val ks)" using str_at_mono [OF 2(5)] 3(3) by (simp add: grown_def)
  moreover have "immutable_cache_persist_copy (Suc n) Z m orig H ?cc = Inr (A, orig\<lparr>ekey := q, eval := IS_PTR x\<rparr>, H2, ?on cc3)"
    using vl by (simp add: immutable_cache_persist_copy_def al ky del: immutable_cache_persist_copy_zval.simps)
  ultimately show ?thesis
    using buf 2(4) 3(2,4,5) A calc(2) unfolding entry_copied_def by (intro exI [of _ buf]) (auto simp: sync_def)
qed

subsection \<open>Both passes with the allocator\<close>

lemma proc_more_mproc:
  fixes s s' :: "'a mproc_scheme"
  assumes "proc.more s' = proc.more s"
  shows "mem s' = mem s" "mproc.more s' = mproc.more s"
proof -
  obtain b r w l wa p e wr m h x z where s: "s = \<lparr>blocked = b, held_r = r, held_w = w, lock_rc = l, warnings = wa,
      protect_memory = p, entry_level = e, writable = wr, sma = m, hdrs = h, mem = x, \<dots> = z\<rparr>" by (cases s)
  obtain b' r' w' l' wa' p' e' wr' m' h' x' z' where s': "s' = \<lparr>blocked = b', held_r = r', held_w = w', lock_rc = l', warnings = wa',
      protect_memory = p', entry_level = e', writable = wr', sma = m', hdrs = h', mem = x', \<dots> = z'\<rparr>" by (cases s')
  show "mem s' = mem s" "mproc.more s' = mproc.more s" using assms by (simp_all add: s s')
qed

text \<open>What \<^verbatim>\<open>immutable_cache_persist\<close> and its callers keep of the process.\<close>

definition persist_kept :: "zend_abi \<Rightarrow> 'a mproc_scheme \<Rightarrow> 'a mproc_scheme \<Rightarrow> bool" where
  "persist_kept Z s s' \<longleftrightarrow> shm_wf Z s' \<and> same_os s s' \<and> mproc.more s' = mproc.more s \<and>
     sma_num (sma s') = sma_num (sma s) \<and> segs (sma s') = segs (sma s) \<and> sma_size (sma s') = sma_size (sma s)"

lemma malloc_ok:
  assumes "sma_wf s" "n < 2 ^ 64 - 40"
  shows "\<exists>p sz s'. immutable_cache_sma_malloc s n = Inr (p, s') \<and> alloc_post s n p sz s' \<and>
    (p = 0 \<longrightarrow> lock_rc s = [] \<longrightarrow> (\<forall>i < sma_num (sma s). \<not> fits (hdrs s ! i) n))"
  using malloc_ex_ok [OF assms, of 0] by (auto simp: immutable_cache_sma_malloc_def ebind_Inr_iff)

lemma unprotect_writable:
  assumes "sma_wf s"
  shows "shm_writable (immutable_cache_sma_protect_memory False s)"
  using assms by (auto simp: shm_writable_def immutable_cache_sma_protect_memory_def sma_wf_def)

lemma reprotect:
  assumes "sma_wf s" "writable s' = writable (immutable_cache_sma_protect_memory False s)" "protect_memory s' = protect_memory s"
    "sma s' = sma s"
  shows "writable (immutable_cache_sma_protect_memory True s') = writable s"
  using assms by (auto simp: immutable_cache_sma_protect_memory_def sma_wf_def fun_eq_iff)

text \<open>Memory protection says nothing of the objects.\<close>

lemma protect_mem [simp]:
  "mem (immutable_cache_sma_protect_memory b s) = mem s" "mproc.more (immutable_cache_sma_protect_memory b s) = mproc.more s"
  by (simp_all add: immutable_cache_sma_protect_memory_def)

lemma setting_region:
  assumes "shm_wf Z s" "sma_wf t" "sma_regions t = insert (p, n) (sma_regions s)" "p \<notin> fst ` sma_regions s" "S \<le> n"
    "immutable_cache_sma_contains_pointer (sma t) = immutable_cache_sma_contains_pointer (sma s)"
  shows "setting Z (sma t) (mem s) p S"
proof -
  have "immutable_cache_sma_contains_pointer (sma t) a \<and> a \<notin> dom (mem s)" if "p \<le> a" "a < p + S" for a
    using region_contained [OF assms(2), of p n a] fresh_region [OF _ assms(2-4,6) that(1)] that assms(1,3,5)
    by (auto simp: shm_wf_def)
  with assms(1) show ?thesis by (simp add: setting_def shm_wf_def)
qed

text \<open>The state after a copy: the new objects lie in the new region.\<close>

lemma shm_wf_extend:
  assumes wf: "shm_wf Z s" and t: "sma_wf t" "sma_regions t = insert (p, n) (sma_regions s)" "S \<le> n"
    "immutable_cache_sma_contains_pointer (sma t) = immutable_cache_sma_contains_pointer (sma s)"
    and H: "dom (mem t) \<subseteq> dom (mem s) \<union> {p..<p + S}" "shm_closed Z (sma t) (mem t)" "heap_hashed Z (mem t)"
  shows "shm_wf Z t"
proof -
  have "p + n < 2 ^ 64" using sma_regions_bounds(2) [OF t(1), of p n] t(2) by simp
  then have "dom (mem t) \<subseteq> {..<2 ^ 64}" using wf H(1) t(3) by (fastforce simp: shm_wf_def)
  moreover have "in_regions t"
    unfolding in_regions_def
  proof (intro ballI impI)
    fix a assume a: "a \<in> dom (mem t)" "immutable_cache_sma_contains_pointer (sma t) a"
    show "\<exists>(q, k) \<in> sma_regions t. q \<le> a \<and> a < q + k"
    proof (cases "a \<in> dom (mem s)")
      case True
      with a(2) t(4) wf show ?thesis unfolding t(2) shm_wf_def in_regions_def by fastforce
    next
      case False
      with a(1) H(1) t(3) show ?thesis unfolding t(2) by auto
    qed
  qed
  ultimately show ?thesis using wf t(1) H(2,3) by (simp add: shm_wf_def)
qed

text \<open>The new entry: \<open>good\<close> says what its zval stands for.\<close>

definition persisted where
  "persisted s orig ks S good p s' \<longleftrightarrow> mem s \<subseteq>\<^sub>m mem s' \<and>
     dom (mem s') \<subseteq> dom (mem s) \<union> {p..<p + S} \<and> dom (mem s) \<inter> {p..<p + S} = {} \<and> 0 < S \<and>
     (\<exists>sz. S \<le> sz \<and> p \<notin> fst ` sma_regions s \<and> sma_regions s' = insert (p, sz) (sma_regions s)) \<and>
     (\<exists>k z. mem s' p = Some (CEntry (orig\<lparr>ekey := k, eval := z, emem_size := int S\<rparr>)) \<and>
        str_at (mem s') k ks \<and> good (mem s') z)"

text \<open>The outcome of a store: a failure that changes nothing, or a new entry.\<close>

definition persist_post where
  "persist_post Z s orig ks S good p s' \<longleftrightarrow> persist_kept Z s s' \<and>
     (if p = 0 then mem s' = mem s \<and> sma_regions s' = sma_regions s \<and>
        (lock_rc s = [] \<longrightarrow> (\<forall>i < sma_num (sma s). \<not> fits (hdrs s ! i) S))
      else persisted s orig ks S good p s')"

lemma persist_finish:
  assumes wf: "shm_wf Z s" and size: "persist_size n Z (sma s) (mem s) ser orig (warnings s) = Inr (Some c, ws)"
    and S: "psize_total c < 2 ^ 64 - 40" "0 < psize_total c" and nx: "enext orig = 0"
    and copy: "\<And>m A. setting Z m (mem s) A (psize_total c) \<Longrightarrow>
      immutable_cache_sma_contains_pointer m = immutable_cache_sma_contains_pointer (sma s) \<Longrightarrow>
      entry_copied Z m (mem s) A (psize_total c) orig ks good
        (immutable_cache_persist_copy n Z m orig (mem s) (c\<lparr>palloc := A, alloc_cur := A\<rparr>))"
    and good: "\<And>H H' z. good H z \<Longrightarrow> H \<subseteq>\<^sub>m H' \<Longrightarrow> good H' z"
    and shm: "\<And>H z. good H z \<Longrightarrow> zval_shm (sma s) z \<or> (\<exists>q. z = IS_PTR q \<and> immutable_cache_sma_contains_pointer (sma s) q)"
  shows "\<exists>p s'. immutable_cache_persist n Z ser orig s = Inr (p, s') \<and> persist_post Z s orig ks (psize_total c) good p s'"
proof -
  let ?S = "psize_total c" and ?s = "s\<lparr>warnings := ws\<rparr>"
  have wf1: "sma_wf ?s" using wf by (auto simp: shm_wf_def intro!: sma_wf_keep [of s ?s] simp: same_os_def)
  have reg: "sma_regions ?s = sma_regions s" by (rule sma_regions_keep) simp_all
  obtain p sz t where t: "immutable_cache_sma_malloc ?s ?S = Inr (p, t)" "alloc_post ?s ?S p sz t"
    and full: "p = 0 \<longrightarrow> lock_rc s = [] \<longrightarrow> (\<forall>i < sma_num (sma s). \<not> fits (hdrs s ! i) ?S)"
    using malloc_ok [OF wf1 S(1)] by auto
  have k: "sma_wf t" "same_os s t" "segs (sma t) = segs (sma s)" "sma_num (sma t) = sma_num (sma s)"
    "sma_size (sma t) = sma_size (sma s)" "mem t = mem s" "mproc.more t = mproc.more s"
    using t(2) proc_more_mproc [of t ?s] by (simp_all add: alloc_post_def kept_def same_os_def)
  have cp: "immutable_cache_sma_contains_pointer (sma t) = immutable_cache_sma_contains_pointer (sma s)"
    by (rule contains_pointer_cong [OF k(4,3)])
  show ?thesis
  proof (cases "p = 0")
    case True
    then have r: "sma_regions t = sma_regions s" using t(2) reg by (simp add: alloc_post_def)
    have "shm_wf Z t"
      using wf k(1,6) r shm_closed_cong [OF cp] cp by (simp add: shm_wf_def in_regions_def)
    with True size t(1) k r full show ?thesis by (simp add: immutable_cache_persist_def persist_kept_def persist_post_def)
  next
    case False
    then have r: "?S \<le> sz" "p \<notin> fst ` sma_regions s" "sma_regions t = insert (p, sz) (sma_regions s)"
      using t(2) reg by (simp_all add: alloc_post_def)
    let ?u = "immutable_cache_sma_protect_memory False t"
    have st: "setting Z (sma t) (mem s) p ?S" by (rule setting_region [OF wf k(1) r(3,2,1) cp])
    obtain kp z H' cc where e: "immutable_cache_persist_copy n Z (sma t) orig (mem s) (c\<lparr>palloc := p, alloc_cur := p\<rparr>) =
        Inr (p, orig\<lparr>ekey := kp, eval := z\<rparr>, H', cc)" "alloc_cur cc = p + ?S" "palloc cc = p" "psize_total cc = ?S"
      "mem s \<subseteq>\<^sub>m H'" "H' p = None" "dom H' \<subseteq> dom (mem s) \<union> {p..<p + ?S}" "shm_closed Z (sma t) H'" "heap_hashed Z H'"
      "immutable_cache_sma_contains_pointer (sma t) kp" "str_at H' kp ks" "good H' z"
      using copy [OF st cp] unfolding entry_copied_def by blast
    define en where "en = CEntry (orig\<lparr>ekey := kp, eval := z, emem_size := int ?S\<rparr>)"
    let ?H = "H'(p \<mapsto> en)"
    define s' where "s' = immutable_cache_sma_protect_memory True (?u\<lparr>mem := ?H\<rparr>)"
    have res: "immutable_cache_persist n Z ser orig s = Inr (p, s')"
      using size t(1) False e(1-4) unprotect_writable [OF k(1)]
      by (simp add: immutable_cache_persist_def k(6) s'_def en_def)
    have le: "H' \<subseteq>\<^sub>m ?H" using e(6) by (auto simp: map_le_def dom_def)
    have os: "same_os t s'" using reprotect [OF k(1), of "?u\<lparr>mem := ?H\<rparr>"] by (simp add: same_os_def s'_def)
    have sm: "sma s' = sma t" "hdrs s' = hdrs t" "mem s' = ?H" "mproc.more s' = mproc.more s" "sma_regions s' = sma_regions t"
      using k(7) sma_regions_keep [of s' t] by (simp_all add: s'_def)
    have "zval_shm (sma t) z \<or> (\<exists>q. z = IS_PTR q \<and> immutable_cache_sma_contains_pointer (sma t) q)"
      using shm [OF e(12)] by (simp only: zval_shm_cong [OF cp] cp)
    then have "shm_closed Z (sma t) ?H" using e(8,10) nx by (intro shm_closed_upd) (simp_all add: en_def)
    then have "shm_wf Z s'"
      using sma_wf_keep [OF k(1) sm(1,2) os] r e(7,9) S(2) sm cp
      by (intro shm_wf_extend [OF wf, of s' p sz ?S]) (auto simp: heap_hashed_def en_def)
    moreover have "persisted s orig ks ?S good p s'"
      unfolding persisted_def
    proof (intro conjI)
      show "mem s \<subseteq>\<^sub>m mem s'" using map_le_trans [OF e(5) le] sm(3) by simp
      show "dom (mem s') \<subseteq> dom (mem s) \<union> {p..<p + ?S}" using e(7) S(2) sm(3) by auto
      show "dom (mem s) \<inter> {p..<p + ?S} = {}" using st by (auto simp: setting_def)
      show "\<exists>sz. ?S \<le> sz \<and> p \<notin> fst ` sma_regions s \<and> sma_regions s' = insert (p, sz) (sma_regions s)" using r sm(5) by auto
    qed (use S(2) sm(3) str_at_mono [OF e(11) le] good [OF e(12) le] in \<open>auto simp: en_def\<close>)
    ultimately show ?thesis
      using res False k sm same_os_trans [OF k(2) os] by (auto simp: persist_kept_def persist_post_def)
  qed
qed

subsection \<open>Plain values and serialized values\<close>

text \<open>A successful first pass does not change its mind about serialization, on any heap.\<close>

lemma calc_packed_use:
  assumes "\<And>z c c'. rec z c = Inr (True, c') \<Longrightarrow> use_serialization c' = use_serialization c"
  shows "calc_packed rec zs c = Inr (True, c') \<Longrightarrow> use_serialization c' = use_serialization c"
proof (induction zs arbitrary: c)
  case (Cons z zs)
  then show ?case using assms by (fastforce simp: ebind_Inr_iff split: zval.splits if_splits)
qed simp

lemma calc_buckets_use:
  assumes "\<And>z c c'. rec z c = Inr (True, c') \<Longrightarrow> use_serialization c' = use_serialization c"
  shows "calc_buckets rec Z m H bs c = Inr (True, c') \<Longrightarrow> use_serialization c' = use_serialization c"
proof (induction bs arbitrary: c)
  case (Cons b bs)
  show ?case
  proof (cases "bval b = IS_UNDEF \<or> (\<exists>x. bval b = IS_INDIRECT x)")
    case True
    with Cons show ?thesis by auto
  next
    case False
    then have nu: "bval b \<noteq> IS_UNDEF" "bval b \<noteq> IS_INDIRECT (Z_PTR (bval b))" by auto
    with Cons.prems obtain c0 c1 where
      c: "(case bkey b of None \<Rightarrow> Inr c | Some k \<Rightarrow> immutable_cache_persist_calc_str Z m H k c) = Inr c0"
        "rec (bval b) c0 = Inr (True, c1)" "calc_buckets rec Z m H bs c1 = Inr (True, c')"
      unfolding calc_buckets_step [OF nu] by (auto simp: ebind_Inr_iff split: if_splits)
    have "use_serialization c0 = use_serialization c"
      using c(1) calc_str_rel [of Z m H _ c c0] by (auto simp: calc_rel_def split: option.splits)
    with Cons.IH [OF c(3)] assms [OF c(2)] show ?thesis by simp
  qed
qed simp

lemma calc_ht_use:
  assumes "\<And>z c c'. rec z c = Inr (True, c') \<Longrightarrow> use_serialization c' = use_serialization c"
    and "immutable_cache_persist_calc_ht rec Z m H a c = Inr (True, c')"
  shows "use_serialization c' = use_serialization c"
proof -
  have A: "use_serialization (ADD_SIZE Z n d) = use_serialization d" for n d by (simp add: ADD_SIZE_def)
  have P: "calc_packed rec zs d = Inr (True, d') \<Longrightarrow> use_serialization d' = use_serialization d" for zs d d'
    using calc_packed_use [of rec] assms(1) by blast
  have B: "calc_buckets rec Z m H bs d = Inr (True, d') \<Longrightarrow> use_serialization d' = use_serialization d" for bs d d'
    using calc_buckets_use [of rec] assms(1) by blast
  from assms(2) show ?thesis
    unfolding immutable_cache_persist_calc_ht_def ebind_Inr_iff Let_def
    by (auto simp: ebind_Inr_iff A split: if_splits dest!: P B)
qed

lemma memoize_use: "immutable_cache_persist_calc_memoize c p = (b, c') \<Longrightarrow> use_serialization c' = use_serialization c"
  using calc_rel_memoize [of c p] by (auto simp: calc_rel_def)

lemma calc_zval_use:
  "immutable_cache_persist_calc_zval n Z m H z c = Inr (True, c') \<Longrightarrow> use_serialization c' = use_serialization c"
proof (induction n arbitrary: z c c')
  case (Suc n)
  have ht: "immutable_cache_persist_calc_ht (immutable_cache_persist_calc_zval n Z m H) Z m H a d = Inr (True, d') \<Longrightarrow>
      use_serialization d' = use_serialization d" for a d d'
    using calc_ht_use [of "immutable_cache_persist_calc_zval n Z m H"] Suc.IH by blast
  obtain b d where d: "immutable_cache_persist_calc_memoize c (Z_PTR z) = (b, d)" by fastforce
  show ?case
    using Suc.prems memoize_use [OF d] d
    by (cases z) (auto simp: ebind_Inr_iff ADD_SIZE_def immutable_cache_persist_calc_serialize_def Let_def
        split: if_splits option.splits dest: ht)
qed simp

lemma calc_use:
  assumes "immutable_cache_persist_calc n Z m H e c = Inr (True, c')"
  shows "use_serialization c' = use_serialization c"
  using assms
proof (rule calc_split)
  fix c2 assume c2: "immutable_cache_persist_calc_str Z m H (ekey e) (ADD_SIZE Z (sizeof_entry Z) c) = Inr c2"
    "immutable_cache_persist_calc_zval n Z m H (eval e) c2 = Inr (True, c')"
  show ?thesis using calc_zval_use [OF c2(2)] calc_str_rel [OF c2(1)] by (simp add: calc_rel_def ADD_SIZE_def)
qed

lemma calc_size_pos:
  assumes "zend_ok Z" "rep H (eval e) v \<or> use_serialization c"
    "immutable_cache_persist_calc n Z m H e c = Inr (True, c')" "rep H (eval e) v \<Longrightarrow> psize v \<le> n"
  shows "0 < psize_total c'"
  using assms(3)
proof (rule calc_split)
  fix c2 assume c2: "immutable_cache_persist_calc_str Z m H (ekey e) (ADD_SIZE Z (sizeof_entry Z) c) = Inr c2"
    "immutable_cache_persist_calc_zval n Z m H (eval e) c2 = Inr (True, c')"
  have r: "calc_rel (ADD_SIZE Z (sizeof_entry Z) c) c2" by (rule calc_str_rel [OF c2(1)])
  then have "0 < psize_total c2"
    using aligned_pos [OF assms(1) zend_okD(4) [OF assms(1)]] by (simp add: calc_rel_def ADD_SIZE_def)
  moreover have "psize_total c2 \<le> psize_total c'"
  proof (cases "use_serialization c2")
    case True
    then show ?thesis using c2(2)
      by (cases n) (auto simp: immutable_cache_persist_calc_serialize_def ADD_SIZE_def Let_def split: if_splits option.splits)
  next
    case False
    then have "rep H (eval e) v" using assms(2) r by (simp add: calc_rel_def ADD_SIZE_def)
    with calc_ok(1) [OF this _ False, of n Z m] assms(4) c2(2) show ?thesis by (auto simp: calc_rel_def)
  qed
  ultimately show ?thesis by simp
qed

lemma persist_size_plain:
  assumes k: "H (ekey orig) = Some (CStr ks)" and v: "rep H (eval orig) v" "psize v \<le> n" and ser: "ser = None \<or> (\<forall>es. v \<noteq> PArr es)"
  shows "\<exists>c0 c. persist_size n Z m H ser orig ws = Inr (Some c, ws) \<and> blank c0 \<and> \<not> use_serialization c0 \<and>
    immutable_cache_persist_calc n Z m H orig c0 = Inr (True, c)"
proof -
  let ?arr = "case eval orig of IS_ARRAY _ \<Rightarrow> True | _ \<Rightarrow> False"
  define c0 where "c0 = (immutable_cache_persist_init_context ser ws)\<lparr>memoization_needed := (ser = None \<and> ?arr)\<rparr>"
  have c0: "blank c0" "\<not> use_serialization c0" "pwarnings c0 = ws"
    by (simp_all add: c0_def blank_def immutable_cache_persist_init_context_def)
  have nk: "\<not> (ser \<noteq> None \<and> ?arr)" "(case eval orig of IS_OBJECT _ \<Rightarrow> True | _ \<Rightarrow> False) = False"
    "\<And>a. eval orig \<noteq> IS_REFERENCE a"
    using ser v by (auto split: zval.splits elim: rep.cases)
  obtain c2 where c2: "immutable_cache_persist_calc_str Z m H (ekey orig) (ADD_SIZE Z (sizeof_entry Z) c0) = Inr c2"
    "calc_rel (ADD_SIZE Z (sizeof_entry Z) c0) c2" using calc_str_ok [of H "ekey orig" ks Z m] k by blast
  then have "\<not> use_serialization c2" using c0 by (simp add: calc_rel_def ADD_SIZE_def)
  with calc_ok(1) [OF v] obtain c where c: "immutable_cache_persist_calc_zval n Z m H (eval orig) c2 = Inr (True, c)" "calc_rel c2 c"
    by blast
  have calc: "immutable_cache_persist_calc n Z m H orig c0 = Inr (True, c)"
    using c2 c by (simp add: immutable_cache_persist_calc_def)
  have "pwarnings c = ws" using c2(2) c(2) c0(3) by (simp add: calc_rel_def ADD_SIZE_def)
  moreover have "c0 = (immutable_cache_persist_init_context ser ws)\<lparr>memoization_needed := (ser = None \<and> ?arr), use_serialization := False\<rparr>"
    by (simp add: c0_def immutable_cache_persist_init_context_def)
  ultimately have "persist_size n Z m H ser orig ws = Inr (Some c, ws)"
    using nk calc by (cases "eval orig") (auto simp: persist_size_def)
  then show ?thesis using c0 calc by blast
qed

lemma persist_size_serialized:
  assumes "persist_size n Z m H ser orig ws = Inr (Some c, ws')" "use_serialization c"
  shows "\<exists>c0. blank c0 \<and> use_serialization c0 \<and> \<not> memoization_needed c0 \<and> pserializer c0 = ser \<and>
    immutable_cache_persist_calc n Z m H orig c0 = Inr (True, c)"
proof -
  let ?ic = "immutable_cache_persist_init_context ser"
  define mm where "mm = (ser = None \<and> (case eval orig of IS_ARRAY _ \<Rightarrow> True | _ \<Rightarrow> False))"
  define uu where "uu = ((case eval orig of IS_OBJECT _ \<Rightarrow> True | _ \<Rightarrow> False) \<or>
    (ser \<noteq> None \<and> (case eval orig of IS_ARRAY _ \<Rightarrow> True | _ \<Rightarrow> False)))"
  have mu: "uu \<Longrightarrow> \<not> mm" by (auto simp: mm_def uu_def split: zval.splits)
  have nr: "eval orig \<noteq> IS_REFERENCE a" for a using assms(1) by (auto simp: persist_size_def)
  have "persist_size n Z m H ser orig ws =
       ebind (immutable_cache_persist_calc n Z m H orig ((?ic ws)\<lparr>memoization_needed := mm, use_serialization := uu\<rparr>)) (\<lambda>(ok, c).
              if ok then Inr (Some c, pwarnings c)
              else if \<not> use_serialization c then Inr (None, pwarnings c)
              else ebind (immutable_cache_persist_calc n Z m H orig ((?ic (pwarnings c))\<lparr>use_serialization := True\<rparr>))
                     (\<lambda>(ok, c). if ok then Inr (Some c, pwarnings c) else Inr (None, pwarnings c)))"
    using nr [of "Z_PTR (eval orig)"] by (cases "eval orig") (simp_all add: persist_size_def mm_def uu_def)
  with assms(1) consider "immutable_cache_persist_calc n Z m H orig ((?ic ws)\<lparr>memoization_needed := mm, use_serialization := uu\<rparr>) = Inr (True, c)"
    | d where "immutable_cache_persist_calc n Z m H orig ((?ic d)\<lparr>use_serialization := True\<rparr>) = Inr (True, c)"
    by (auto simp: ebind_Inr_iff split: if_splits)
  then show ?thesis
  proof cases
    case 1
    with calc_use [OF 1] assms(2) mu show ?thesis
      by (intro exI [of _ "(?ic ws)\<lparr>memoization_needed := mm, use_serialization := uu\<rparr>"])
        (simp add: blank_def immutable_cache_persist_init_context_def)
  next
    case 2
    then show ?thesis
      by (intro exI [of _ "(?ic d)\<lparr>use_serialization := True\<rparr>"]) (simp add: blank_def immutable_cache_persist_init_context_def)
  qed
qed

text \<open>What the zval of a stored entry stands for: the value itself, or the bytes of the serializer.\<close>

definition plain_in :: "immutable_cache_sma_t \<Rightarrow> php \<Rightarrow> heap \<Rightarrow> zval \<Rightarrow> bool" where
  "plain_in m v H z \<longleftrightarrow> rep H z v \<and> zval_shm m z"

definition bytes_in :: "immutable_cache_sma_t \<Rightarrow> string \<Rightarrow> heap \<Rightarrow> zval \<Rightarrow> bool" where
  "bytes_in m buf H z \<longleftrightarrow> (\<exists>q. z = IS_PTR q \<and> immutable_cache_sma_contains_pointer m q \<and> str_at H q buf)"

lemma stored_mono:
  "plain_in m v H z \<Longrightarrow> H \<subseteq>\<^sub>m H' \<Longrightarrow> plain_in m v H' z"
  "bytes_in m buf H z \<Longrightarrow> H \<subseteq>\<^sub>m H' \<Longrightarrow> bytes_in m buf H' z"
  by (auto simp: plain_in_def bytes_in_def rep_mono(1) str_at_mono)

lemma stored_cong:
  assumes "immutable_cache_sma_contains_pointer m' = immutable_cache_sma_contains_pointer m"
  shows "plain_in m' = plain_in m" "bytes_in m' = bytes_in m"
  by (simp_all add: fun_eq_iff plain_in_def bytes_in_def assms zval_shm_cong [OF assms])

lemma persist_plain_ok:
  assumes wf: "shm_wf Z s" and k: "mem s (ekey orig) = Some (CStr ks)" and v: "rep (mem s) (eval orig) v" "psize v \<le> n"
    and ser: "ser = None \<or> (\<forall>es. v \<noteq> PArr es)" and nx: "enext orig = 0"
  shows "\<exists>c. persist_size n Z (sma s) (mem s) ser orig (warnings s) = Inr (Some c, warnings s) \<and>
    (psize_total c < 2 ^ 64 - 40 \<longrightarrow> (\<exists>p s'. immutable_cache_persist n Z ser orig s = Inr (p, s') \<and> persist_post Z s orig (zstr_val ks) (psize_total c) (plain_in (sma s) v) p s'))"
proof -
  obtain c0 c where c: "persist_size n Z (sma s) (mem s) ser orig (warnings s) = Inr (Some c, warnings s)"
    "blank c0" "\<not> use_serialization c0" "immutable_cache_persist_calc n Z (sma s) (mem s) orig c0 = Inr (True, c)"
    using persist_size_plain [OF k v ser] by blast
  have pos: "0 < psize_total c" using calc_size_pos [OF _ _ c(4), of v] wf v by (auto simp: shm_wf_def)
  have cp: "entry_copied Z m (mem s) A (psize_total c) orig (zstr_val ks) (plain_in (sma s) v)
      (immutable_cache_persist_copy n Z m orig (mem s) (c\<lparr>palloc := A, alloc_cur := A\<rparr>))"
    if "setting Z m (mem s) A (psize_total c)" "immutable_cache_sma_contains_pointer m = immutable_cache_sma_contains_pointer (sma s)" for m A
    using persist_copy_plain [OF that(1) _ c(2,3) _ refl k v] wf c(4) shm_closed_cong [OF that(2)] calc_cong [OF that(2)]
    by (simp add: shm_wf_def plain_in_def [abs_def] zval_shm_cong [OF that(2)])
  show ?thesis
    by (intro exI [of _ c] conjI impI c(1) persist_finish [OF wf c(1) _ pos nx cp stored_mono(1)]) (simp_all add: plain_in_def)
qed

lemma persist_serialized_ok:
  assumes wf: "shm_wf Z s" and k: "mem s (ekey orig) = Some (CStr ks)" and z: "eval orig = IS_ARRAY a \<or> eval orig = IS_OBJECT a"
    and size: "persist_size (Suc n) Z (sma s) (mem s) ser orig (warnings s) = Inr (Some c, ws)" "use_serialization c"
    and S: "psize_total c < 2 ^ 64 - 40" and nx: "enext orig = 0"
  shows "\<exists>buf. serializer_of Z ser (mem s) (eval orig) = Some buf \<and>
    (\<exists>p s'. immutable_cache_persist (Suc n) Z ser orig s = Inr (p, s') \<and> persist_post Z s orig (zstr_val ks) (psize_total c) (bytes_in (sma s) buf) p s')"
proof -
  obtain c0 where c: "blank c0" "use_serialization c0" "\<not> memoization_needed c0" "pserializer c0 = ser"
    "immutable_cache_persist_calc (Suc n) Z (sma s) (mem s) orig c0 = Inr (True, c)"
    using persist_size_serialized [OF size] by blast
  have zok: "zend_ok Z" and cls: "shm_closed Z (sma s) (mem s)" using wf by (simp_all add: shm_wf_def)
  have pos: "0 < psize_total c"
    using calc_size_pos [OF zok _ c(5), of PNull] c(2) z by (auto elim: rep.cases)
  obtain c2 where "immutable_cache_persist_calc_zval (Suc n) Z (sma s) (mem s) (eval orig) c2 = Inr (True, c)"
    "use_serialization c2" "pserializer c2 = ser"
    using c(5)
  proof (rule calc_split)
    fix c2 assume c2: "immutable_cache_persist_calc_str Z (sma s) (mem s) (ekey orig) (ADD_SIZE Z (sizeof_entry Z) c0) = Inr c2"
      "immutable_cache_persist_calc_zval (Suc n) Z (sma s) (mem s) (eval orig) c2 = Inr (True, c)"
    from that [OF c2(2)] calc_str_rel [OF c2(1)] c(2,4) show thesis by (simp add: calc_rel_def ADD_SIZE_def)
  qed
  then obtain buf where buf: "serializer_of Z ser (mem s) (eval orig) = Some buf"
    using z by (auto simp: immutable_cache_persist_calc_serialize_def serializer_of_def split: option.splits)
  have cp: "entry_copied Z m (mem s) A (psize_total c) orig (zstr_val ks) (bytes_in (sma s) buf)
      (immutable_cache_persist_copy (Suc n) Z m orig (mem s) (c\<lparr>palloc := A, alloc_cur := A\<rparr>))"
    if "setting Z m (mem s) A (psize_total c)" "immutable_cache_sma_contains_pointer m = immutable_cache_sma_contains_pointer (sma s)" for m A
    using persist_copy_serialized [OF that(1) _ c(1-3) _ refl k z] cls c(4,5) buf shm_closed_cong [OF that(2)] calc_cong [OF that(2)]
    by (simp add: bytes_in_def [abs_def] that(2))
  show ?thesis
    by (intro exI [of _ buf] conjI buf persist_finish [OF wf size(1) S pos nx cp stored_mono(2)])
      (auto simp: bytes_in_def)
qed

subsection \<open>Reading back\<close>

text \<open>What a fetched value stands for.\<close>

fun fetched_is :: "heap \<Rightarrow> fetched \<Rightarrow> php \<Rightarrow> bool" where
  "fetched_is H (FZval z) v = rep H z v"
| "fetched_is H (FValue w) v = (w = v)"

lemma unpersist_plain:
  assumes "shm_closed Z m H" "plain_in m v H z"
  shows "\<exists>r. immutable_cache_unpersist Z H z ser = Inr (True, r) \<and> fetched_is H r v"
proof -
  have r: "rep H z v" and z: "zval_shm m z" using assms(2) by (simp_all add: plain_in_def)
  consider (b) "below_IS_STRING z" | (s) a s where "z = IS_STRING a" "H a = Some (CStr s)" "v = PStr (zstr_val s)"
    | (h) a t es where "z = IS_ARRAY a" "H a = Some (CHt t)" "v = PArr es" "nNumOfElements t = length es"
    using r by (cases rule: rep.cases) auto
  then show ?thesis
  proof cases
    case b
    with r show ?thesis by (cases z) (auto simp: immutable_cache_unpersist_def immutable_cache_unpersist_zval_def)
  next
    case s
    with shm_closedD [OF assms(1) s(2)] z r show ?thesis
      by (simp add: immutable_cache_unpersist_def immutable_cache_unpersist_zval_def)
  next
    case h
    with shm_closedD [OF assms(1) h(2)] z r show ?thesis
      by (cases es) (simp_all add: immutable_cache_unpersist_def immutable_cache_unpersist_zval_def)
  qed
qed

definition unserializer_of :: "zend_abi \<Rightarrow> immutable_cache_serializer_t option \<Rightarrow> string \<Rightarrow> php option" where
  "unserializer_of Z ser = (case ser of None \<Rightarrow> php_var_unserialize Z | Some s \<Rightarrow> unserialize s)"

lemma unpersist_bytes:
  assumes "bytes_in m buf H z"
  shows "immutable_cache_unpersist Z H z ser =
    Inr (case unserializer_of Z ser buf of Some v \<Rightarrow> (True, FValue v) | None \<Rightarrow> (False, FZval IS_NULL))"
  using assms
  by (auto simp: bytes_in_def str_at_def immutable_cache_unpersist_def immutable_cache_unpersist_serialized_def
      unserializer_of_def split: option.splits)

subsection \<open>A concrete process\<close>

text \<open>A freshly started process with protected memory and a heap below the segments.\<close>

definition sample_mproc :: "heap \<Rightarrow> 'a \<Rightarrow> 'a mproc_scheme" where
  "sample_mproc H x = \<lparr>blocked = 0, held_r = (\<lambda>_. 0), held_w = (\<lambda>_. 0), lock_rc = [], warnings = [],
     protect_memory = True, entry_level = 0, writable = (\<lambda>_. True), sma = empty_sma, hdrs = [], mem = H, \<dots> = x\<rparr>"

lemma sample_mproc_wf:
  assumes Z: "zend_ok Z" "heap_hashed Z H" and H: "dom H \<subseteq> {..<1048576}"
  shows "\<exists>s. shm_wf Z s \<and> mem s = H \<and> mproc.more s = x \<and> lock_rc s = [] \<and> sma_num (sma s) = 1 \<and> fits (hdrs s ! 0) 64000 \<and>
    sma_regions s = {} \<and> (\<forall>a < 1048576. \<not> immutable_cache_sma_contains_pointer (sma s) a) \<and> protect_memory s \<and> warnings s = [] \<and> entry_level s = 0"
proof -
  obtain s where s: "immutable_cache_sma_init sample_env sample_raw 1 65536 None (sample_mproc H x) = Inr s"
    "sma_wf (immutable_cache_sma_protect_memory True s)" "sma_regions s = {}" "sma_num (sma s) = 1"
    "fits (hdrs s ! 0) (65536 - 1240)"
    using sma_init_wf [of "sample_mproc H x" sample_env 1048576 2097152 65536 sample_raw 1]
    by (auto simp: sample_mproc_def sample_env_def empty_sma_def)
  define t where "t = immutable_cache_sma_protect_memory True s"
  have e: "segs (sma s) ! 0 = \<lparr>seg_size = 65536, shmaddr = 1048576\<rparr>" "mem s = H" "mproc.more s = x" "lock_rc s = []"
    "protect_memory s" "warnings s = []" "entry_level s = 0"
    using s(1) by (auto simp: immutable_cache_sma_init_def sample_mproc_def empty_sma_def immutable_cache_mmap_def sample_env_def)
  have c: "\<not> immutable_cache_sma_contains_pointer (sma t) a" if "a < 1048576" for a
    using that e(1) s(4) by (simp add: immutable_cache_sma_contains_pointer_def t_def)
  have "ALIGNWORD (64000 + 32) \<le> ALIGNWORD (65536 - 1240 + 32)" by (simp add: ALIGNWORD_exact)
  then have "fits (hdrs s ! 0) 64000" using s(5) by (fastforce simp: fits_def)
  moreover have "shm_wf Z t"
    unfolding shm_wf_def
  proof (intro conjI)
    show "dom (mem t) \<subseteq> {..<2 ^ 64}" using H e(2) by (auto simp: t_def)
    show "shm_closed Z (sma t) (mem t)" "in_regions t"
      using H e(2) c by (auto simp: shm_closed_def in_regions_def t_def)
  qed (use Z s(2) e(2) in \<open>simp_all add: t_def\<close>)
  moreover have "warnings t = []" "entry_level t = 0" using e(6,7) by (simp_all add: t_def immutable_cache_sma_protect_memory_def)
  ultimately show ?thesis using s(3,4) e c by (intro exI [of _ t]) (simp add: t_def)
qed

end
