(* ===== verification/Cache.thy ===== *)
theory Cache
  imports Persist_Props "HOL-Library.Monad_Syntax"
begin

unbundle bit_operations_syntax

text \<open>
  \<^verbatim>\<open>immutable_cache_cache.c\<close>: the hash table in shared memory. The structure of the process
  (\<^verbatim>\<open>immutable_cache_cache_t\<close>), the shared header and the array of slots are fields of the
  state; the entries are objects of the heap, linked through \<open>enext\<close>. Every store into shared
  memory asks whether the segments are writable, as the hardware does.

  A walk along a chain is a \<^verbatim>\<open>while\<close> loop over memory, so it is a partial function:
  \<open>None\<close> when it does not end. The counters are integers; they are only ever incremented.
\<close>

subsection \<open>Data\<close>

record immutable_cache_cache_header_t =
  nhits :: int
  nmisses :: int
  ninserts :: int
  nentries :: int
  hmem_size :: int
  stime :: int
  state :: nat

text \<open>\<^verbatim>\<open>header\<close>, \<^verbatim>\<open>slots\<close> and \<^verbatim>\<open>sma\<close> of the C structure are the fields of the
  state below.\<close>

record immutable_cache_cache_t =
  cshmaddr :: addr
  serializer :: "immutable_cache_serializer_t option"
  nslots :: nat
  loaded_serializer :: bool

record cproc = mproc +
  cache :: "immutable_cache_cache_t option"
  header :: immutable_cache_cache_header_t
  slots :: "addr list"

definition sizeof_cache_header :: size_t where
  "sizeof_cache_header = 56"

subsection \<open>Hash slots\<close>

definition primes :: "int list" where
  "primes = [257, 521, 1031, 2053, 3079, 4099, 5147, 6151, 7177, 8209, 9221, 10243, 11273, 12289, 13313, 14341,
     15361, 16411, 17417, 18433, 19457, 20483, 30727, 40961, 61441, 81929, 122887, 163841, 245771, 327689,
     491527, 655373, 983063]"

text \<open>The loop of \<^verbatim>\<open>make_prime\<close>: \<open>prev\<close> is the number before the current one.\<close>

fun make_prime_loop :: "int \<Rightarrow> int \<Rightarrow> int list \<Rightarrow> int" where
  "make_prime_loop n prev [] = prev"
| "make_prime_loop n prev (k # ks) = (if k > n then k else make_prime_loop n k ks)"

definition make_prime :: "int \<Rightarrow> int" where
  "make_prime n = make_prime_loop n 0 primes"

definition immutable_cache_cache_hash_slot :: "zend_abi \<Rightarrow> nat \<Rightarrow> zend_string \<Rightarrow> zend_ulong \<times> nat" where
  "immutable_cache_cache_hash_slot Z n key = (let h = ZSTR_HASH Z key in (h, unat h mod n))"

definition immutable_cache_entry_key_equals ::
  "heap \<Rightarrow> immutable_cache_cache_entry_t \<Rightarrow> zend_string \<Rightarrow> zend_ulong \<Rightarrow> crash + bool" where
  "immutable_cache_entry_key_equals H entry key h =
     ebind (read_str H (ekey entry)) (\<lambda>k.
       Inr (zstr_h k = h \<and> length (zstr_val k) = length (zstr_val key) \<and> zstr_val k = zstr_val key))"

subsection \<open>Creating the cache\<close>

text \<open>The allocation of the header, rounded up to a cache line.\<close>

definition immutable_cache_cache_alloc_aligned_header ::
  "'a proc_scheme \<Rightarrow> size_t \<Rightarrow> crash + (addr \<times> 'a proc_scheme)" where
  "immutable_cache_cache_alloc_aligned_header s cache_size =
     ebind (immutable_cache_sma_malloc s (cache_size + 64)) (\<lambda>(p, s).
       Inr (unat ((word_of_nat p + 63 :: 64 word) AND NOT 63), s))"

text \<open>\<open>size_hint\<close> is a \<^verbatim>\<open>zend_long\<close>, the argument of \<^verbatim>\<open>make_prime\<close> an
  \<^verbatim>\<open>int\<close>. \<open>now\<close> is the clock.\<close>

definition immutable_cache_cache_create ::
  "immutable_cache_serializer_t option \<Rightarrow> int \<Rightarrow> int \<Rightarrow> 'a cproc_scheme \<Rightarrow> crash + 'a cproc_scheme" where
  "immutable_cache_cache_create ser size_hint now s =
     (let n = nat (make_prime (signed_take_bit 31 (if size_hint > 0 then size_hint else 2000)));
          cache_size = sizeof_cache_header + n * 8
      in ebind (immutable_cache_cache_alloc_aligned_header s cache_size) (\<lambda>(p, s).
           if p = 0 then Inl (CoreError ''Unable to allocate shared memory for cache structures'')
           else (let s = immutable_cache_sma_protect_memory False s
                 in if \<not> shm_writable s then Inl Segfault
                    else Inr (immutable_cache_sma_protect_memory True
                           (s\<lparr>header := \<lparr>nhits = 0, nmisses = 0, ninserts = 0, nentries = 0, hmem_size = 0, stime = now, state = 0\<rparr>,
                              slots := replicate n 0,
                              cache := Some \<lparr>cshmaddr = p, serializer = ser, nslots = n, loaded_serializer = False\<rparr>\<rparr>)))))"

definition immutable_cache_cache_detach :: "'a cproc_scheme \<Rightarrow> 'a cproc_scheme" where
  "immutable_cache_cache_detach s = (case cache s of None \<Rightarrow> s | Some c \<Rightarrow> s\<lparr>cache := None\<rparr>)"

subsection \<open>Locks of the cache\<close>

definition immutable_cache_cache_wlock :: "zend_ulong \<Rightarrow> 'a proc_scheme \<Rightarrow> bool \<times> 'a proc_scheme" where
  "immutable_cache_cache_wlock h s =
     (if entry_level s = 0
      then (let (ok, s) = SMA_LOCK s
            in if \<not> ok then (False, s)
               else (let (ok, s) = immutable_cache_lock_wlock (immutable_cache_sma_lookup_fine_grained_lock s h) s
                     in if \<not> ok then (False, SMA_UNLOCK s) else (True, s)))
      else (True, s))"

definition immutable_cache_cache_wunlock :: "zend_ulong \<Rightarrow> 'a proc_scheme \<Rightarrow> 'a proc_scheme" where
  "immutable_cache_cache_wunlock h s =
     (if entry_level s = 0 then SMA_UNLOCK (WUNLOCK (immutable_cache_sma_lookup_fine_grained_lock s h) s) else s)"

definition immutable_cache_cache_rlock :: "zend_ulong \<Rightarrow> 'a proc_scheme \<Rightarrow> bool \<times> 'a proc_scheme" where
  "immutable_cache_cache_rlock h s =
     (if entry_level s = 0 then immutable_cache_lock_rlock (immutable_cache_sma_lookup_fine_grained_lock s h) s else (True, s))"

definition immutable_cache_cache_runlock :: "zend_ulong \<Rightarrow> 'a proc_scheme \<Rightarrow> 'a proc_scheme" where
  "immutable_cache_cache_runlock h s =
     (if entry_level s = 0 then RUNLOCK (immutable_cache_sma_lookup_fine_grained_lock s h) s else s)"

definition immutable_cache_cache_rlock_global :: "'a proc_scheme \<Rightarrow> bool \<times> 'a proc_scheme" where
  "immutable_cache_cache_rlock_global s = (if entry_level s = 0 then SMA_RLOCK s else (True, s))"

definition immutable_cache_cache_runlock_global :: "'a proc_scheme \<Rightarrow> 'a proc_scheme" where
  "immutable_cache_cache_runlock_global s = (if entry_level s = 0 then SMA_RUNLOCK s else s)"

subsection \<open>Insertion\<close>

text \<open>The walk to the end of a chain: \<open>Inr None\<close> when the key is there already, otherwise the
  last entry (\<open>0\<close>: the slot itself is empty).\<close>

partial_function (option) insert_position ::
  "heap \<Rightarrow> zend_string \<Rightarrow> zend_ulong \<Rightarrow> addr \<Rightarrow> addr \<Rightarrow> (crash + addr option) option" where
  [code]: "insert_position H key h p prev =
     (if p = 0 then Some (Inr (Some prev))
      else case read_entry H p of
             Inl err \<Rightarrow> Some (Inl err)
           | Inr e \<Rightarrow>
               (case immutable_cache_entry_key_equals H e key h of
                  Inl err \<Rightarrow> Some (Inl err)
                | Inr eq \<Rightarrow> if eq then Some (Inr None) else insert_position H key h (enext e) p))"

text \<open>\<^verbatim>\<open>*entry = new_entry\<close>: in the slot or in the last entry.\<close>

definition link_entry :: "nat \<Rightarrow> addr \<Rightarrow> addr \<Rightarrow> 'a cproc_scheme \<Rightarrow> crash + 'a cproc_scheme" where
  "link_entry i prev new s =
     (if prev = 0 then Inr (s\<lparr>slots := (slots s)[i := new]\<rparr>)
      else ebind (read_entry (mem s) prev) (\<lambda>e. Inr (s\<lparr>mem := (mem s)(prev \<mapsto> CEntry (e\<lparr>enext := new\<rparr>))\<rparr>)))"

definition immutable_cache_cache_wlocked_insert_exclusive ::
  "zend_abi \<Rightarrow> immutable_cache_cache_t \<Rightarrow> addr \<Rightarrow> 'a cproc_scheme \<Rightarrow> crash + (bool \<times> 'a cproc_scheme)" where
  "immutable_cache_cache_wlocked_insert_exclusive Z c new s =
     ebind (read_entry (mem s) new) (\<lambda>e.
     ebind (read_str (mem s) (ekey e)) (\<lambda>key.
       let (h, i) = immutable_cache_cache_hash_slot Z (nslots c) key
       in case insert_position (mem s) key h (slots s ! i) 0 of
            None \<Rightarrow> Inl Diverges
          | Some r \<Rightarrow> ebind r (\<lambda>pos.
              case pos of
                None \<Rightarrow> Inr (False, s)
              | Some prev \<Rightarrow>
                  if \<not> shm_writable s then Inl Segfault
                  else ebind (link_entry i prev new (s\<lparr>mem := (mem s)(new \<mapsto> CEntry (e\<lparr>enext := 0\<rparr>))\<rparr>)) (\<lambda>s.
                    Inr (True, s\<lparr>header := (header s)\<lparr>hmem_size := hmem_size (header s) + emem_size e,
                                        nentries := nentries (header s) + 1, ninserts := ninserts (header s) + 1\<rparr>\<rparr>)))))"

text \<open>The objects of a released region are no longer part of the heap.\<close>

definition free_entry :: "addr \<Rightarrow> 'a mproc_scheme \<Rightarrow> crash + 'a mproc_scheme" where
  "free_entry p s =
     ebind (read_entry (mem s) p) (\<lambda>e.
     ebind (immutable_cache_sma_free s p) (\<lambda>s.
       Inr (s\<lparr>mem := (mem s) |` (- {p..<p + nat (emem_size e)})\<rparr>)))"

definition immutable_cache_cache_init_entry :: "addr \<Rightarrow> zval \<Rightarrow> int \<Rightarrow> immutable_cache_cache_entry_t" where
  "immutable_cache_cache_init_entry key val t =
     \<lparr>ekey = key, eval = val, enext = 0, enhits = 0, ectime = t, eatime = t, emem_size = 0\<rparr>"

text \<open>\<open>fuel\<close> is the bound of the recursion of \<^verbatim>\<open>immutable_cache_persist\<close>.\<close>

definition immutable_cache_cache_store ::
  "nat \<Rightarrow> zend_abi \<Rightarrow> int \<Rightarrow> addr \<Rightarrow> zval \<Rightarrow> 'a cproc_scheme \<Rightarrow> crash + (bool \<times> 'a cproc_scheme)" where
  "immutable_cache_cache_store fuel Z t key val s =
     (case cache s of
        None \<Rightarrow> Inr (False, s)
      | Some c \<Rightarrow>
          ebind (immutable_cache_persist fuel Z (serializer c) (immutable_cache_cache_init_entry key val t) s) (\<lambda>(entry, s).
            if entry = 0 then Inr (False, s)
            else ebind (read_str (mem s) key) (\<lambda>ks.
              let h = ZSTR_HASH Z ks;
                  (ok, s) = immutable_cache_cache_wlock h s
              in if \<not> ok then ebind (free_entry entry s) (\<lambda>s. Inr (False, s))
                 else ebind (immutable_cache_cache_wlocked_insert_exclusive Z c entry s) (\<lambda>(ret, s).
                   let s = immutable_cache_cache_wunlock h s
                   in if \<not> ret then ebind (free_entry entry s) (\<lambda>s. Inr (ret, s)) else Inr (ret, s)))))"

subsection \<open>Lookup\<close>

text \<open>The loop shared by \<^verbatim>\<open>find_nostat\<close>, \<^verbatim>\<open>find\<close> and \<^verbatim>\<open>stat\<close>: the address of the
  matching entry, or \<open>0\<close>.\<close>

partial_function (option) find_in_chain ::
  "heap \<Rightarrow> zend_string \<Rightarrow> zend_ulong \<Rightarrow> addr \<Rightarrow> (crash + addr) option" where
  [code]: "find_in_chain H key h p =
     (if p = 0 then Some (Inr 0)
      else case read_entry H p of
             Inl err \<Rightarrow> Some (Inl err)
           | Inr e \<Rightarrow>
               (case immutable_cache_entry_key_equals H e key h of
                  Inl err \<Rightarrow> Some (Inl err)
                | Inr eq \<Rightarrow> if eq then Some (Inr p) else find_in_chain H key h (enext e)))"

definition immutable_cache_cache_rlocked_find_nostat ::
  "zend_abi \<Rightarrow> immutable_cache_cache_t \<Rightarrow> zend_string \<Rightarrow> 'a cproc_scheme \<Rightarrow> crash + addr" where
  "immutable_cache_cache_rlocked_find_nostat Z c key s =
     (let (h, i) = immutable_cache_cache_hash_slot Z (nslots c) key
      in case find_in_chain (mem s) key h (slots s ! i) of None \<Rightarrow> Inl Diverges | Some r \<Rightarrow> r)"

text \<open>With statistics, unless the memory is protected.\<close>

definition immutable_cache_cache_rlocked_find ::
  "zend_abi \<Rightarrow> immutable_cache_cache_t \<Rightarrow> zend_string \<Rightarrow> int \<Rightarrow> 'a cproc_scheme \<Rightarrow> crash + (addr \<times> 'a cproc_scheme)" where
  "immutable_cache_cache_rlocked_find Z c key t s =
     (let (h, i) = immutable_cache_cache_hash_slot Z (nslots c) key
      in case find_in_chain (mem s) key h (slots s ! i) of
           None \<Rightarrow> Inl Diverges
         | Some r \<Rightarrow> ebind r (\<lambda>p.
             if p \<noteq> 0
             then if \<not> protect_memory s
                  then if \<not> shm_writable s then Inl Segfault
                       else ebind (read_entry (mem s) p) (\<lambda>e.
                         Inr (p, s\<lparr>header := (header s)\<lparr>nhits := nhits (header s) + 1\<rparr>,
                                   mem := (mem s)(p \<mapsto> CEntry (e\<lparr>enhits := enhits e + 1, eatime := t\<rparr>))\<rparr>))
                  else Inr (p, s)
             else if \<not> protect_memory s
                  then if \<not> shm_writable s then Inl Segfault
                       else Inr (0, s\<lparr>header := (header s)\<lparr>nmisses := nmisses (header s) + 1\<rparr>\<rparr>)
                  else Inr (0, s)))"

definition immutable_cache_cache_rlocked_find_incref ::
  "zend_abi \<Rightarrow> immutable_cache_cache_t \<Rightarrow> zend_string \<Rightarrow> int \<Rightarrow> 'a cproc_scheme \<Rightarrow> crash + (addr \<times> 'a cproc_scheme)" where
  "immutable_cache_cache_rlocked_find_incref Z c key t s =
     ebind (immutable_cache_cache_rlocked_find Z c key t s) (\<lambda>(p, s). if p = 0 then Inr (0, s) else Inr (p, s))"

definition immutable_cache_cache_find ::
  "zend_abi \<Rightarrow> addr \<Rightarrow> int \<Rightarrow> 'a cproc_scheme \<Rightarrow> crash + (addr \<times> 'a cproc_scheme)" where
  "immutable_cache_cache_find Z key t s =
     (case cache s of
        None \<Rightarrow> Inr (0, s)
      | Some c \<Rightarrow>
          ebind (read_str (mem s) key) (\<lambda>ks.
            let h = ZSTR_HASH Z ks;
                (ok, s) = immutable_cache_cache_rlock h s
            in if \<not> ok then Inr (0, s)
               else ebind (immutable_cache_cache_rlocked_find_incref Z c ks t s) (\<lambda>(p, s).
                 Inr (p, immutable_cache_cache_runlock h s))))"

definition immutable_cache_cache_entry_fetch_zval ::
  "zend_abi \<Rightarrow> immutable_cache_cache_t \<Rightarrow> addr \<Rightarrow> heap \<Rightarrow> crash + (bool \<times> fetched)" where
  "immutable_cache_cache_entry_fetch_zval Z c p H =
     ebind (read_entry H p) (\<lambda>e. immutable_cache_unpersist Z H (eval e) (serializer c))"

text \<open>The value behind \<^verbatim>\<open>dst\<close>: \<open>None\<close> when it is not written.\<close>

definition immutable_cache_cache_fetch ::
  "zend_abi \<Rightarrow> addr \<Rightarrow> int \<Rightarrow> 'a cproc_scheme \<Rightarrow> crash + (bool \<times> fetched option \<times> 'a cproc_scheme)" where
  "immutable_cache_cache_fetch Z key t s =
     (case cache s of
        None \<Rightarrow> Inr (False, None, s)
      | Some c \<Rightarrow>
          ebind (read_str (mem s) key) (\<lambda>ks.
            let h = ZSTR_HASH Z ks;
                (ok, s) = immutable_cache_cache_rlock h s
            in if \<not> ok then Inr (False, None, s)
               else ebind (immutable_cache_cache_rlocked_find_incref Z c ks t s) (\<lambda>(p, s).
                 let s = immutable_cache_cache_runlock h s
                 in if p = 0 then Inr (False, None, s)
                    else ebind (immutable_cache_cache_entry_fetch_zval Z c p (mem s)) (\<lambda>(r, v). Inr (r, Some v, s)))))"

definition immutable_cache_cache_exists ::
  "zend_abi \<Rightarrow> addr \<Rightarrow> int \<Rightarrow> 'a cproc_scheme \<Rightarrow> crash + (bool \<times> 'a cproc_scheme)" where
  "immutable_cache_cache_exists Z key t s =
     (case cache s of
        None \<Rightarrow> Inr (False, s)
      | Some c \<Rightarrow>
          ebind (read_str (mem s) key) (\<lambda>ks.
            let h = ZSTR_HASH Z ks;
                (ok, s) = immutable_cache_cache_rlock h s
            in if \<not> ok then Inr (False, s)
               else ebind (immutable_cache_cache_rlocked_find_nostat Z c ks s) (\<lambda>p.
                 Inr (p \<noteq> 0, immutable_cache_cache_runlock h s))))"

subsection \<open>Reports\<close>

text \<open>One element of \<^verbatim>\<open>cache_list\<close>.\<close>

record link_info =
  l_info :: addr
  l_num_hits :: int
  l_creation_time :: int
  l_access_time :: int
  l_mem_size :: int

definition immutable_cache_cache_link_info :: "immutable_cache_cache_entry_t \<Rightarrow> link_info" where
  "immutable_cache_cache_link_info p =
     \<lparr>l_info = ekey p, l_num_hits = enhits p, l_creation_time = ectime p, l_access_time = eatime p, l_mem_size = emem_size p\<rparr>"

record cache_info =
  num_slots :: nat
  num_hits :: int
  num_misses :: int
  num_inserts :: int
  num_entries :: int
  start_time :: int
  info_mem_size :: int
  memory_type :: string
  cache_list :: "link_info list option"
  slot_distribution :: "(nat \<times> nat) list option"

text \<open>The inner loop over one chain.\<close>

partial_function (option) chain_links :: "heap \<Rightarrow> addr \<Rightarrow> (crash + link_info list) option" where
  [code]: "chain_links H p =
     (if p = 0 then Some (Inr [])
      else case read_entry H p of
             Inl err \<Rightarrow> Some (Inl err)
           | Inr e \<Rightarrow>
               do {
                 r \<leftarrow> chain_links H (enext e);
                 Some (ebind r (\<lambda>ls. Inr (immutable_cache_cache_link_info e # ls)))
               })"

text \<open>The outer loop over the slots, from slot \<open>i\<close>.\<close>

fun info_slots :: "heap \<Rightarrow> nat \<Rightarrow> addr list \<Rightarrow> crash + (link_info list \<times> (nat \<times> nat) list)" where
  "info_slots H i [] = Inr ([], [])"
| "info_slots H i (p # ps) =
     (case chain_links H p of
        None \<Rightarrow> Inl Diverges
      | Some r \<Rightarrow> ebind r (\<lambda>ls.
          ebind (info_slots H (Suc i) ps) (\<lambda>(ls', d).
            Inr (ls @ ls', if ls \<noteq> [] then (i, length ls) # d else d))))"

definition immutable_cache_cache_info ::
  "bool \<Rightarrow> 'a cproc_scheme \<Rightarrow> crash + (cache_info option \<times> 'a cproc_scheme)" where
  "immutable_cache_cache_info limited s =
     (case cache s of
        None \<Rightarrow> Inr (None, s)
      | Some c \<Rightarrow>
          (let (ok, s) = immutable_cache_cache_rlock_global s
           in if \<not> ok then Inr (None, s)
              else (let h = header s;
                        info = \<lparr>num_slots = nslots c, num_hits = nhits h, num_misses = nmisses h, num_inserts = ninserts h,
                          num_entries = nentries h, start_time = stime h, info_mem_size = hmem_size h, memory_type = ''mmap'',
                          cache_list = None, slot_distribution = None\<rparr>
                    in if limited then Inr (Some info, immutable_cache_cache_runlock_global s)
                       else ebind (info_slots (mem s) 0 (take (nslots c) (slots s))) (\<lambda>(ls, d).
                         Inr (Some (info\<lparr>cache_list := Some ls, slot_distribution := Some d\<rparr>),
                              immutable_cache_cache_runlock_global s)))))"

record key_stat =
  st_hits :: int
  st_access_time :: int
  st_creation_time :: int

definition immutable_cache_cache_stat ::
  "zend_abi \<Rightarrow> addr \<Rightarrow> 'a cproc_scheme \<Rightarrow> crash + (key_stat option \<times> 'a cproc_scheme)" where
  "immutable_cache_cache_stat Z key s =
     (case cache s of
        None \<Rightarrow> Inr (None, s)
      | Some c \<Rightarrow>
          ebind (read_str (mem s) key) (\<lambda>ks.
            let (h, i) = immutable_cache_cache_hash_slot Z (nslots c) ks;
                (ok, s) = immutable_cache_cache_rlock h s
            in if \<not> ok then Inr (None, s)
               else case find_in_chain (mem s) ks h (slots s ! i) of
                      None \<Rightarrow> Inl Diverges
                    | Some r \<Rightarrow> ebind r (\<lambda>p.
                        if p = 0 then Inr (None, immutable_cache_cache_runlock h s)
                        else ebind (read_entry (mem s) p) (\<lambda>e.
                          Inr (Some \<lparr>st_hits = enhits e, st_access_time = eatime e, st_creation_time = ectime e\<rparr>,
                               immutable_cache_cache_runlock h s)))))"

end
