(* ===== verification/Stack.thy ===== *)
theory Stack
  imports Prelude
begin

text \<open>
  The pointer stack of \<^verbatim>\<open>immutable_cache_stack.c\<close>, which buffers the items of one iterator
  chunk. The C array \<^verbatim>\<open>data\<close> is a function from indices to cells (\<open>None\<close>: never
  written) together with the number of cells \<^verbatim>\<open>emalloc\<close> and \<^verbatim>\<open>erealloc\<close> were asked
  for: the byte count \<^verbatim>\<open>sizeof(void*) * capacity\<close> is a \<open>size_t\<close> product and can wrap,
  so the number of cells is not always the capacity. An access outside the cells is the error
  \<open>OutOfBounds\<close>, a failed \<^verbatim>\<open>assert\<close> the error \<open>AssertionFailure\<close>.
\<close>

datatype stack_error = AssertionFailure | OutOfBounds

record 'a immutable_cache_stack_t =
  data :: "nat \<Rightarrow> 'a option"
  cells :: size_t
  capacity :: size_t
  ssize :: size_t

text \<open>Cells of a buffer of \<^verbatim>\<open>sizeof(void*) * n\<close> bytes.\<close>

definition ptr_cells :: "size_t \<Rightarrow> size_t" where
  "ptr_cells n = size_mul 8 n div 8"

definition immutable_cache_stack_create :: "size_t \<Rightarrow> 'a immutable_cache_stack_t" where
  "immutable_cache_stack_create size_hint =
     (let cap = (if size_hint > 0 then size_hint else 10)
      in \<lparr>data = (\<lambda>_. None), cells = ptr_cells cap, capacity = cap, ssize = 0\<rparr>)"

definition immutable_cache_stack_clear :: "'a immutable_cache_stack_t \<Rightarrow> 'a immutable_cache_stack_t" where
  "immutable_cache_stack_clear stack = stack\<lparr>ssize := 0\<rparr>"

definition immutable_cache_stack_push ::
  "'a immutable_cache_stack_t \<Rightarrow> 'a \<Rightarrow> stack_error + 'a immutable_cache_stack_t" where
  "immutable_cache_stack_push stack item =
     (let stack' =
        (if ssize stack = capacity stack
         then (let cap = size_mul (capacity stack) 2;
                   n = ptr_cells cap
               in stack\<lparr>capacity := cap, cells := n,
                    data := (\<lambda>i. if i < n then data stack i else None)\<rparr>)
         else stack)
      in if ssize stack' < cells stack'
         then Inr (stack'\<lparr>data := (data stack')(ssize stack' := Some item),
                        ssize := size_add (ssize stack') 1\<rparr>)
         else Inl OutOfBounds)"

definition stack_read :: "'a immutable_cache_stack_t \<Rightarrow> nat \<Rightarrow> stack_error + 'a" where
  "stack_read stack n =
     (if n < cells stack
      then (case data stack n of None \<Rightarrow> Inl OutOfBounds | Some x \<Rightarrow> Inr x)
      else Inl OutOfBounds)"

definition immutable_cache_stack_pop ::
  "'a immutable_cache_stack_t \<Rightarrow> stack_error + ('a \<times> 'a immutable_cache_stack_t)" where
  "immutable_cache_stack_pop stack =
     (if ssize stack > 0
      then (let n = size_sub (ssize stack) 1
            in case stack_read stack n of
                 Inl e \<Rightarrow> Inl e
               | Inr x \<Rightarrow> Inr (x, stack\<lparr>ssize := n\<rparr>))
      else Inl AssertionFailure)"

definition immutable_cache_stack_top :: "'a immutable_cache_stack_t \<Rightarrow> stack_error + 'a" where
  "immutable_cache_stack_top stack =
     (if ssize stack > 0 then stack_read stack (size_sub (ssize stack) 1)
      else Inl AssertionFailure)"

definition immutable_cache_stack_get :: "'a immutable_cache_stack_t \<Rightarrow> nat \<Rightarrow> stack_error + 'a" where
  "immutable_cache_stack_get stack n =
     (if ssize stack > n then stack_read stack n else Inl AssertionFailure)"

text \<open>The result type is \<^verbatim>\<open>int\<close>: the \<open>size_t\<close> is cut to 32 bits.\<close>

definition immutable_cache_stack_size :: "'a immutable_cache_stack_t \<Rightarrow> int" where
  "immutable_cache_stack_size stack = sint (word_of_nat (ssize stack) :: 32 word)"

subsection \<open>Invariant and abstraction\<close>

definition stack_invar :: "'a immutable_cache_stack_t \<Rightarrow> bool" where
  "stack_invar s \<longleftrightarrow>
     0 < capacity s \<and> capacity s < 2 ^ 61 \<and> cells s = capacity s \<and> ssize s \<le> capacity s \<and>
     (\<forall>i < ssize s. data s i \<noteq> None)"

definition stack_list :: "'a immutable_cache_stack_t \<Rightarrow> 'a list" where
  "stack_list s = map (\<lambda>i. the (data s i)) [0..<ssize s]"

lemma length_stack_list [simp]: "length (stack_list s) = ssize s"
  by (simp add: stack_list_def)

lemma ptr_cells_exact: "n < 2 ^ 61 \<Longrightarrow> ptr_cells n = n"
  by (simp add: ptr_cells_def size_t_simps)

lemma stack_create_ok:
  assumes "size_hint < 2 ^ 61"
  shows "stack_invar (immutable_cache_stack_create size_hint)"
    and "stack_list (immutable_cache_stack_create size_hint) = []"
  using assms
  by (simp_all add: stack_invar_def stack_list_def immutable_cache_stack_create_def ptr_cells_exact Let_def)

lemma stack_clear_ok:
  "stack_invar s \<Longrightarrow> stack_invar (immutable_cache_stack_clear s)"
  "stack_list (immutable_cache_stack_clear s) = []"
  by (simp_all add: stack_invar_def stack_list_def immutable_cache_stack_clear_def)

text \<open>Below \<open>2 ^ 60\<close> items the doubled capacity does not wrap, and a push appends.\<close>

lemma stack_push_ok:
  assumes "stack_invar s" "ssize s < 2 ^ 60"
  shows "\<exists>s'. immutable_cache_stack_push s x = Inr s' \<and> stack_invar s' \<and> stack_list s' = stack_list s @ [x]"
proof -
  have cap: "ssize s = capacity s \<Longrightarrow> size_mul (capacity s) 2 = 2 * capacity s"
    using assms by (simp add: size_t_simps)
  have "ssize s = capacity s \<Longrightarrow> ptr_cells (2 * capacity s) = 2 * capacity s"
    using assms by (intro ptr_cells_exact) simp
  moreover have "size_add (ssize s) (Suc 0) = Suc (ssize s)"
    using assms by (simp add: size_t_simps)
  ultimately show ?thesis
    using assms cap
    by (auto simp: immutable_cache_stack_push_def stack_invar_def stack_list_def Let_def less_Suc_eq)
qed

lemma stack_read_ok: "stack_invar s \<Longrightarrow> n < ssize s \<Longrightarrow> stack_read s n = Inr (stack_list s ! n)"
  by (auto simp: stack_read_def stack_invar_def stack_list_def split: option.splits)

lemma stack_get_ok:
  "stack_invar s \<Longrightarrow> n < ssize s \<Longrightarrow> immutable_cache_stack_get s n = Inr (stack_list s ! n)"
  by (simp add: immutable_cache_stack_get_def stack_read_ok)

lemma stack_pop_ok:
  assumes "stack_invar s" "0 < ssize s"
  shows "\<exists>s'. immutable_cache_stack_pop s = Inr (last (stack_list s), s') \<and> stack_invar s' \<and>
    stack_list s' = butlast (stack_list s)"
proof -
  have n: "size_sub (ssize s) (Suc 0) = ssize s - 1"
    using assms size_sub_exact [of 1 "ssize s"] by (simp add: stack_invar_def)
  have "stack_list s \<noteq> []"
    using assms by (simp add: stack_list_def)
  then have "last (stack_list s) = stack_list s ! (ssize s - 1)"
    by (simp add: last_conv_nth)
  then have "stack_read s (ssize s - 1) = Inr (last (stack_list s))"
    using assms by (simp add: stack_read_ok)
  moreover have "butlast (stack_list s) = map (\<lambda>i. the (data s i)) [0..<ssize s - 1]"
    by (simp add: stack_list_def butlast_conv_take take_map)
  ultimately show ?thesis
    using assms by (simp add: immutable_cache_stack_pop_def n stack_list_def) (auto simp: stack_invar_def)
qed

lemma stack_size_ok: "ssize s < 2 ^ 31 \<Longrightarrow> immutable_cache_stack_size s = int (ssize s)"
  by (simp add: immutable_cache_stack_size_def signed_of_nat signed_take_bit_int_eq_self)

subsection \<open>The interface of a stack\<close>

text \<open>What a user of the stack relies on: items are read back in the order in which they were
  pushed, up to a number \<open>lim\<close> of items.\<close>

fun push_all :: "('s \<Rightarrow> 'a \<Rightarrow> stack_error + 's) \<Rightarrow> 'a list \<Rightarrow> 's \<Rightarrow> stack_error + 's" where
  "push_all push [] s = Inr s"
| "push_all push (x # xs) s = ebind (push s x) (push_all push xs)"

locale stack_interface =
  fixes ok :: "'s \<Rightarrow> bool" and items :: "'s \<Rightarrow> 'a list" and create :: "size_t \<Rightarrow> 's"
    and push :: "'s \<Rightarrow> 'a \<Rightarrow> stack_error + 's" and get :: "'s \<Rightarrow> nat \<Rightarrow> stack_error + 'a"
    and hint_lim lim :: nat
  assumes create_empty: "n < hint_lim \<Longrightarrow> ok (create n) \<and> items (create n) = []"
    and push_appends: "ok s \<Longrightarrow> length (items s) < lim \<Longrightarrow> \<exists>s'. push s x = Inr s' \<and> ok s' \<and> items s' = items s @ [x]"
    and get_reads: "ok s \<Longrightarrow> i < length (items s) \<Longrightarrow> get s i = Inr (items s ! i)"
begin

lemma push_all_ok:
  "ok s \<Longrightarrow> length (items s) + length xs \<le> lim \<Longrightarrow>
    \<exists>s'. push_all push xs s = Inr s' \<and> ok s' \<and> items s' = items s @ xs"
proof (induction xs arbitrary: s)
  case (Cons x xs)
  obtain t where t: "push s x = Inr t" "ok t" "items t = items s @ [x]"
    using push_appends [of s x] Cons.prems by auto
  with Cons.IH [of t] Cons.prems show ?case by auto
qed simp

lemma read_back:
  assumes "n < hint_lim" "length xs \<le> lim"
  shows "\<exists>s. push_all push xs (create n) = Inr s \<and> items s = xs \<and> (\<forall>i < length xs. get s i = Inr (xs ! i))"
proof -
  obtain s where "push_all push xs (create n) = Inr s" "ok s" "items s = xs"
    using push_all_ok [of "create n" xs] create_empty [of n] assms by auto
  with get_reads [of s] show ?thesis by auto
qed

end

interpretation ptrs: stack_interface stack_invar stack_list immutable_cache_stack_create
  immutable_cache_stack_push immutable_cache_stack_get "2 ^ 61" "2 ^ 60"
proof unfold_locales
  show "stack_invar (immutable_cache_stack_create n) \<and> stack_list (immutable_cache_stack_create n) = []"
    if "n < 2 ^ 61" for n
    using stack_create_ok [OF that] by blast
  show "\<exists>s'. immutable_cache_stack_push s x = Inr s' \<and> stack_invar s' \<and> stack_list s' = stack_list s @ [x]"
    if "stack_invar s" "length (stack_list s) < 2 ^ 60" for s and x :: 'a
    using stack_push_ok that by simp
  show "immutable_cache_stack_get s i = Inr (stack_list s ! i)"
    if "stack_invar s" "i < length (stack_list s)" for s :: "'a immutable_cache_stack_t" and i
    using that by (simp add: stack_get_ok)
qed

subsection \<open>Properties\<close>

text \<open>With a size hint below \<open>2 ^ 61\<close>, up to \<open>2 ^ 60\<close> items can be pushed, the array
  growing as needed, without an access outside it; they are read back by index in the order of the
  pushes, and popped in the reverse order.\<close>

theorem stack_read_back:
  fixes xs :: "'a list"
  assumes "n < 2 ^ 61" "length xs \<le> 2 ^ 60"
  shows "\<exists>s. push_all immutable_cache_stack_push xs (immutable_cache_stack_create n) = Inr s \<and> stack_list s = xs \<and>
    (\<forall>i < length xs. immutable_cache_stack_get s i = Inr (xs ! i)) \<and>
    (xs \<noteq> [] \<longrightarrow> (\<exists>s'. immutable_cache_stack_pop s = Inr (last xs, s') \<and> stack_list s' = butlast xs))"
proof -
  let ?c = "immutable_cache_stack_create n :: 'a immutable_cache_stack_t"
  have c: "stack_invar ?c" "stack_list ?c = []" by (rule stack_create_ok [OF assms(1)])+
  then have "length (stack_list ?c) + length xs \<le> 2 ^ 60" using assms(2) by (simp only: list.size add_0)
  from ptrs.push_all_ok [OF c(1) this] obtain s where
    s: "push_all immutable_cache_stack_push xs ?c = Inr s" "stack_invar s" "stack_list s = xs"
    using c(2) by auto
  have "\<exists>s'. immutable_cache_stack_pop s = Inr (last xs, s') \<and> stack_list s' = butlast xs" if "xs \<noteq> []"
  proof -
    have "0 < ssize s" using that s(3) length_stack_list [of s] by (cases "ssize s") auto
    with stack_pop_ok [OF s(2)] s(3) show ?thesis by blast
  qed
  with s ptrs.get_reads [OF s(2)] show ?thesis by auto
qed

theorem stack_read_back_witness:
  "\<exists>s. push_all immutable_cache_stack_push [True, False, True] (immutable_cache_stack_create 2) = Inr s \<and>
    immutable_cache_stack_get s 1 = Inr False"
  using stack_read_back [of 2 "[True, False, True]"] by auto

text \<open>With the size hint \<open>2 ^ 61\<close> the byte count of the array wraps around to zero, and
  the first push writes outside the array.\<close>

theorem stack_hint_wraps: "immutable_cache_stack_push (immutable_cache_stack_create (2 ^ 61)) x = Inl OutOfBounds"
  by (simp add: immutable_cache_stack_push_def immutable_cache_stack_create_def ptr_cells_def size_mul_def Let_def)

end
