(* ===== verification/Hash_Each.thy ===== *)
theory Hash_Each
  imports Zend
begin

text \<open>
  Loops over the hash tables a script passes in (\<^verbatim>\<open>ZEND_HASH_FOREACH_KEY_VAL\<close>), and
  \<^verbatim>\<open>immutable_cache_flip_hash\<close> of \<^verbatim>\<open>immutable_cache.c\<close>, which turns a list of keys into a set.

  The cells behind PHP references are not objects of the heap of the model: \<open>R\<close> gives the
  value of each.
\<close>

type_synonym ref_cells = "addr \<Rightarrow> zval"

fun ZVAL_DEREF :: "ref_cells \<Rightarrow> zval \<Rightarrow> zval" where
  "ZVAL_DEREF R (IS_REFERENCE a) = R a"
| "ZVAL_DEREF R z = z"

text \<open>One element: the numeric key or hash, the string key, the value.\<close>

type_synonym elem = "zend_ulong \<times> addr option \<times> zval"

definition packed_elems :: "zval list \<Rightarrow> elem list" where
  "packed_elems zs = map (\<lambda>(i, z). (of_nat i, None, z)) (filter (\<lambda>(i, z). z \<noteq> IS_UNDEF) (enumerate 0 zs))"

definition bucket_elems :: "bucket list \<Rightarrow> elem list" where
  "bucket_elems bs = map (\<lambda>b. (bh b, bkey b, bval b)) (filter (\<lambda>b. bval b \<noteq> IS_UNDEF) bs)"

definition ZEND_HASH_FOREACH :: "heap \<Rightarrow> addr \<Rightarrow> crash + elem list" where
  "ZEND_HASH_FOREACH H a =
     ebind (read_ht H a) (\<lambda>t.
       if nNumUsed t = 0 then Inr []
       else if ht_packed t then ebind (read_packed H (arData t)) (\<lambda>zs. Inr (packed_elems zs))
       else ebind (read_buckets H (arData t)) (\<lambda>bs. Inr (bucket_elems bs)))"

subsection \<open>What a loop visits\<close>

text \<open>The elements of the array that a hash table stands for, in its order.\<close>

definition elem_rep :: "heap \<Rightarrow> elem \<Rightarrow> pkey \<times> php \<Rightarrow> bool" where
  "elem_rep H x e \<longleftrightarrow> (case x of (h, k, z) \<Rightarrow> rep H z (snd e) \<and>
     (case k of None \<Rightarrow> fst e = KInt h | Some a \<Rightarrow> \<exists>s. H a = Some (CStr s) \<and> fst e = KStr (zstr_val s)))"

lemma packed_elems_rep:
  "rep_slots H i zs es \<Longrightarrow>
    list_all2 (elem_rep H) (map (\<lambda>(i, z). (of_nat i, None, z)) (filter (\<lambda>(i, z). z \<noteq> IS_UNDEF) (enumerate i zs))) es"
proof (induction zs arbitrary: i es)
  case (Cons z zs)
  from Cons.prems show ?case
    by (rule slots_consE) (use Cons.IH rep_not_undef in \<open>auto simp: elem_rep_def\<close>)
qed auto

lemma bucket_elems_rep: "rep_buckets H bs es \<Longrightarrow> list_all2 (elem_rep H) (bucket_elems bs) es"
proof (induction bs arbitrary: es)
  case (Cons b bs)
  from Cons.prems show ?case
    by (rule buckets_consE) (use Cons.IH rep_not_undef in \<open>auto simp: elem_rep_def bucket_elems_def\<close>)
qed (auto simp: bucket_elems_def)

lemma foreach_rep:
  assumes "rep H (IS_ARRAY a) (PArr es)"
  shows "\<exists>xs. ZEND_HASH_FOREACH H a = Inr xs \<and> list_all2 (elem_rep H) xs es"
  using assms
  by (rule rep_arrayE) (use packed_elems_rep [of H 0] bucket_elems_rep in \<open>auto simp: ZEND_HASH_FOREACH_def packed_elems_def\<close>)

subsection \<open>Flipping\<close>

text \<open>\<^verbatim>\<open>Z_LVAL\<close>: the bits of the value, whatever its type. For null and the booleans the engine
  leaves them open; they are \<open>0\<close> here.\<close>

fun Z_LVAL :: "zval \<Rightarrow> zend_ulong" where
  "Z_LVAL (IS_LONG n) = n"
| "Z_LVAL (IS_DOUBLE d) = d"
| "Z_LVAL z = of_nat (Z_PTR z)"

definition flip_key :: "heap \<Rightarrow> zval \<Rightarrow> crash + pkey" where
  "flip_key H z = (case z of IS_STRING a \<Rightarrow> ebind (read_str H a) (\<lambda>s. Inr (KStr (zstr_val s))) | _ \<Rightarrow> Inr (KInt (Z_LVAL z)))"

text \<open>\<^verbatim>\<open>zend_hash_update\<close> of a key with the value 1: the order is that of the first insertion.\<close>

definition update_key :: "pkey \<Rightarrow> pkey list \<Rightarrow> pkey list" where
  "update_key k ks = (if k \<in> set ks then ks else ks @ [k])"

fun flip_elems :: "ref_cells \<Rightarrow> heap \<Rightarrow> elem list \<Rightarrow> pkey list \<Rightarrow> crash + pkey list" where
  "flip_elems R H [] ks = Inr ks"
| "flip_elems R H ((h, key, z) # xs) ks =
     ebind (flip_key H (ZVAL_DEREF R z)) (\<lambda>k. flip_elems R H xs (update_key k ks))"

definition immutable_cache_flip_hash :: "ref_cells \<Rightarrow> heap \<Rightarrow> addr \<Rightarrow> crash + pkey list option" where
  "immutable_cache_flip_hash R H a =
     (if a = 0 then Inr None
      else ebind (ZEND_HASH_FOREACH H a) (\<lambda>xs. ebind (flip_elems R H xs []) (\<lambda>ks. Inr (Some ks))))"

text \<open>An array of strings becomes the set of its strings.\<close>

lemma flip_elems_strings:
  assumes "list_all2 (elem_rep H) xs es" "\<forall>e \<in> set es. \<exists>v. snd e = PStr v"
  shows "\<exists>ks. flip_elems R H xs acc = Inr ks \<and> set ks = set acc \<union> {KStr v | v. PStr v \<in> snd ` set es}"
  using assms
proof (induction xs arbitrary: es acc)
  case (Cons x xs)
  then obtain e es' v where es: "es = e # es'" "elem_rep H x e" "list_all2 (elem_rep H) xs es'" "snd e = PStr v"
    by (auto simp: list_all2_Cons1)
  obtain h k z where x: "x = (h, k, z)" by (cases x)
  obtain a s where z: "z = IS_STRING a" "H a = Some (CStr s)" "zstr_val s = v"
    using es(2,4) x by (auto simp: elem_rep_def elim: rep.cases)
  have str: "\<forall>e \<in> set es'. \<exists>v. snd e = PStr v" using Cons.prems(2) es(1) by simp
  obtain ks where ks: "flip_elems R H xs (update_key (KStr v) acc) = Inr ks"
    "set ks = set (update_key (KStr v) acc) \<union> {KStr v | v. PStr v \<in> snd ` set es'}"
    using Cons.IH [OF es(3) str, of "update_key (KStr v) acc"] by (elim exE conjE)
  have "set (update_key (KStr v) acc) = insert (KStr v) (set acc)" by (auto simp: update_key_def)
  with ks es(1,4) x z show ?case by (auto simp: flip_key_def)
qed simp

lemma flip_hash_strings:
  assumes "rep H (IS_ARRAY a) (PArr es)" "a \<noteq> 0" "\<forall>e \<in> set es. \<exists>v. snd e = PStr v"
  shows "\<exists>ks. immutable_cache_flip_hash R H a = Inr (Some ks) \<and> set ks = {KStr v | v. PStr v \<in> snd ` set es}"
proof -
  obtain xs where xs: "ZEND_HASH_FOREACH H a = Inr xs" "list_all2 (elem_rep H) xs es" using foreach_rep [OF assms(1)] by blast
  from flip_elems_strings [OF xs(2) assms(3), of R "[]"] xs(1) assms(2) show ?thesis
    by (auto simp: immutable_cache_flip_hash_def)
qed

end
