(* ===== verification/Iterator.thy ===== *)
theory Iterator
  imports Cache Stack Hash_Each
begin

unbundle bit_operations_syntax

text \<open>
  \<^verbatim>\<open>immutable_cache_iterator.c\<close>: the class \<^verbatim>\<open>ImmutableCacheIterator\<close>. An iterator
  buffers the entries of some slots on a stack and steps through it; when the stack is used up the
  next slots are read. A compiled regular expression is a predicate on keys. The global
  \<^verbatim>\<open>immutable_cache_user_cache\<close> is the cache of the state.
\<close>

subsection \<open>Data\<close>

datatype iter_field = IStr string | IKey addr | IVal fetched | ILong int

record immutable_cache_iterator_item_t =
  ikey :: addr
  ivalue :: "(string \<times> iter_field) list"

record immutable_cache_iterator_t =
  it_initialized :: bool
  format :: zend_ulong
  slot_idx :: size_t
  chunk_size :: size_t
  stack :: "immutable_cache_iterator_item_t immutable_cache_stack_t"
  stack_idx :: int
  regex :: "(string \<Rightarrow> bool) option"
  search_hash :: "pkey list option"
  key_idx :: int
  totals_flag :: bool
  hits :: int
  isize :: int
  icount :: int

definition IMMUTABLE_CACHE_DEFAULT_CHUNK_SIZE :: size_t where
  "IMMUTABLE_CACHE_DEFAULT_CHUNK_SIZE = 100"

definition IMMUTABLE_CACHE_LIST_ACTIVE :: int where
  "IMMUTABLE_CACHE_LIST_ACTIVE = 1"

definition IMMUTABLE_CACHE_ITER_ALL :: zend_ulong where
  "IMMUTABLE_CACHE_ITER_ALL = 0xffffffff"

text \<open>Errors of the stack as crashes of the process.\<close>

definition of_stack :: "stack_error + 'a \<Rightarrow> crash + 'a" where
  "of_stack r = (case r of Inl AssertionFailure \<Rightarrow> Inl AssertFailed | Inl OutOfBounds \<Rightarrow> Inl BadAccess | Inr x \<Rightarrow> Inr x)"

lemma of_stack_simps [simp]: "of_stack (Inr x) = Inr x" "of_stack (Inl OutOfBounds) = Inl BadAccess" "of_stack (Inl AssertionFailure) = Inl AssertFailed"
  by (simp_all add: of_stack_def)

subsection \<open>Items\<close>

text \<open>The array of an item, in the order of the assignments.\<close>

definition immutable_cache_iterator_item_ctor ::
  "zend_abi \<Rightarrow> immutable_cache_cache_t \<Rightarrow> heap \<Rightarrow> zend_ulong \<Rightarrow> addr \<Rightarrow> crash + immutable_cache_iterator_item_t" where
  "immutable_cache_iterator_item_ctor Z c H fmt p =
     ebind (read_entry H p) (\<lambda>e.
     ebind (if bit fmt 2 then ebind (immutable_cache_cache_entry_fetch_zval Z c p H) (\<lambda>(_, v). Inr [(''value'', IVal v)]) else Inr []) (\<lambda>vs.
       Inr \<lparr>ikey = ekey e,
            ivalue = (if bit fmt 0 then [(''type'', IStr ''user'')] else []) @
              (if bit fmt 1 then [(''key'', IKey (ekey e))] else []) @ vs @
              (if bit fmt 3 then [(''num_hits'', ILong (enhits e))] else []) @
              (if bit fmt 5 then [(''creation_time'', ILong (ectime e))] else []) @
              (if bit fmt 7 then [(''access_time'', ILong (eatime e))] else []) @
              (if bit fmt 9 then [(''mem_size'', ILong (emem_size e))] else [])\<rparr>))"

text \<open>The assertion of the destructor: the key is interned.\<close>

definition immutable_cache_iterator_item_dtor :: "heap \<Rightarrow> immutable_cache_iterator_item_t \<Rightarrow> crash + unit" where
  "immutable_cache_iterator_item_dtor H item =
     ebind (read_str H (ikey item)) (\<lambda>k. if str_immutable k then Inr () else Inl AssertFailed)"

lemma ebind_cong [fundef_cong]: "r = r' \<Longrightarrow> (\<And>x. r' = Inr x \<Longrightarrow> f x = g x) \<Longrightarrow> ebind r f = ebind r' g"
  by (cases r') (simp_all add: ebind_def)

lemma pop_decreases: "immutable_cache_stack_pop s = Inr (x, s') \<Longrightarrow> ssize s' < ssize s"
proof -
  assume "immutable_cache_stack_pop s = Inr (x, s')"
  then have s': "0 < ssize s" "ssize s' = size_sub (ssize s) 1"
    by (auto simp: immutable_cache_stack_pop_def Let_def split: if_splits sum.splits)
  have "size_sub (ssize s) 1 = (ssize s - 1) mod 2 ^ 64"
    using s'(1) by (cases "ssize s") (simp_all add: size_sub_def)
  with s' show ?thesis by (metis diff_less le_less_trans mod_less_eq_dividend zero_less_one)
qed

text \<open>Emptying the stack.\<close>

function drain_stack ::
  "heap \<Rightarrow> immutable_cache_iterator_item_t immutable_cache_stack_t \<Rightarrow> crash + immutable_cache_iterator_item_t immutable_cache_stack_t" where
  "drain_stack H st =
     (if immutable_cache_stack_size st > 0
      then ebind (of_stack (immutable_cache_stack_pop st)) (\<lambda>(item, st').
             ebind (immutable_cache_iterator_item_dtor H item) (\<lambda>_. drain_stack H st'))
      else Inr st)"
  by pat_completeness auto
termination
proof (relation "measure (\<lambda>(H, st). ssize st)")
  fix H st x item st'
  assume "of_stack (immutable_cache_stack_pop st) = Inr x" "(item, st') = x"
  then have "immutable_cache_stack_pop st = Inr (item, st')"
    by (cases "immutable_cache_stack_pop st") (auto simp: of_stack_def split: stack_error.splits)
  then show "((H, st'), H, st) \<in> measure (\<lambda>(H, st). ssize st)" using pop_decreases by simp
qed simp

declare drain_stack.simps [simp del]

definition immutable_cache_iterator_free :: "heap \<Rightarrow> immutable_cache_iterator_t \<Rightarrow> crash + immutable_cache_iterator_t" where
  "immutable_cache_iterator_free H it =
     (if \<not> it_initialized it then Inr it
      else ebind (drain_stack H (stack it)) (\<lambda>st.
             Inr (it\<lparr>stack := st, regex := None, search_hash := None, it_initialized := False\<rparr>)))"

text \<open>The object comes from \<^verbatim>\<open>emalloc\<close>: the fields that are not assigned keep the bytes
  \<open>raw\<close> of that memory. \<^verbatim>\<open>stack = NULL\<close> is a stack without cells.\<close>

definition immutable_cache_iterator_create :: "immutable_cache_iterator_t \<Rightarrow> immutable_cache_iterator_t" where
  "immutable_cache_iterator_create raw =
     raw\<lparr>it_initialized := False, stack := \<lparr>data = (\<lambda>_. None), cells = 0, capacity = 0, ssize = 0\<rparr>, regex := None, search_hash := None\<rparr>"

subsection \<open>Search\<close>

definition immutable_cache_iterator_search_match ::
  "heap \<Rightarrow> (string \<Rightarrow> bool) option \<Rightarrow> pkey list option \<Rightarrow> immutable_cache_cache_entry_t \<Rightarrow> crash + bool" where
  "immutable_cache_iterator_search_match H re hash e =
     ebind (read_str H (ekey e)) (\<lambda>k.
       let rval = (case re of None \<Rightarrow> True | Some f \<Rightarrow> f (zstr_val k));
           rval = (case hash of None \<Rightarrow> rval | Some ks \<Rightarrow> KStr (zstr_val k) \<in> set ks)
       in Inr rval)"

text \<open>The inner loop: the entries of one chain.\<close>

partial_function (option) fetch_chain ::
  "zend_abi \<Rightarrow> immutable_cache_cache_t \<Rightarrow> heap \<Rightarrow> immutable_cache_iterator_t \<Rightarrow> addr \<Rightarrow> nat \<Rightarrow>
   immutable_cache_iterator_item_t immutable_cache_stack_t \<Rightarrow>
   (crash + (nat \<times> immutable_cache_iterator_item_t immutable_cache_stack_t)) option" where
  [code]: "fetch_chain Z c H it p count st =
     (if p = 0 then Some (Inr (count, st))
      else case read_entry H p of
             Inl err \<Rightarrow> Some (Inl err)
           | Inr e \<Rightarrow>
               (case immutable_cache_iterator_search_match H (regex it) (search_hash it) e of
                  Inl err \<Rightarrow> Some (Inl err)
                | Inr m \<Rightarrow>
                    if m
                    then case ebind (immutable_cache_iterator_item_ctor Z c H (format it) p) (\<lambda>item.
                                of_stack (immutable_cache_stack_push st item)) of
                           Inl err \<Rightarrow> Some (Inl err)
                         | Inr st' \<Rightarrow> fetch_chain Z c H it (enext e) (count + 1) st'
                    else fetch_chain Z c H it (enext e) count st))"

text \<open>The outer loop: slots \<open>i, i + 1, \<dots>\<close> until the chunk is full.\<close>

function fetch_slots ::
  "zend_abi \<Rightarrow> immutable_cache_cache_t \<Rightarrow> heap \<Rightarrow> addr list \<Rightarrow> immutable_cache_iterator_t \<Rightarrow> nat \<Rightarrow> nat \<Rightarrow>
   immutable_cache_iterator_item_t immutable_cache_stack_t \<Rightarrow>
   crash + (nat \<times> nat \<times> immutable_cache_iterator_item_t immutable_cache_stack_t)" where
  "fetch_slots Z c H sl it i count st =
     (if count \<le> chunk_size it \<and> i < nslots c
      then case fetch_chain Z c H it (sl ! i) count st of
             None \<Rightarrow> Inl Diverges
           | Some r \<Rightarrow> ebind r (\<lambda>(count, st). fetch_slots Z c H sl it (Suc i) count st)
      else Inr (count, i, st))"
  by pat_completeness auto
termination by (relation "measure (\<lambda>(Z, c, H, sl, it, i, count, st). nslots c - i)") auto

declare fetch_slots.simps [simp del]

definition immutable_cache_iterator_fetch_active ::
  "zend_abi \<Rightarrow> immutable_cache_iterator_t \<Rightarrow> 'a cproc_scheme \<Rightarrow> crash + (nat \<times> immutable_cache_iterator_t \<times> 'a cproc_scheme)" where
  "immutable_cache_iterator_fetch_active Z it s =
     ebind (drain_stack (mem s) (stack it)) (\<lambda>st.
       let it = it\<lparr>stack := st\<rparr>
       in case cache s of
            None \<Rightarrow> Inl BadAccess
          | Some c \<Rightarrow>
              (let (ok, s) = immutable_cache_cache_rlock_global s
               in if \<not> ok then Inr (0, it, s)
                  else ebind (fetch_slots Z c (mem s) (slots s) it (slot_idx it) 0 st) (\<lambda>(count, i, st).
                    Inr (count, it\<lparr>slot_idx := i, stack := st, stack_idx := 0\<rparr>, immutable_cache_cache_runlock_global s))))"

subsection \<open>Totals\<close>

partial_function (option) totals_chain ::
  "heap \<Rightarrow> immutable_cache_iterator_t \<Rightarrow> addr \<Rightarrow> (crash + immutable_cache_iterator_t) option" where
  [code]: "totals_chain H it p =
     (if p = 0 then Some (Inr it)
      else case read_entry H p of
             Inl err \<Rightarrow> Some (Inl err)
           | Inr e \<Rightarrow>
               (case immutable_cache_iterator_search_match H (regex it) (search_hash it) e of
                  Inl err \<Rightarrow> Some (Inl err)
                | Inr m \<Rightarrow>
                    totals_chain H (if m then it\<lparr>isize := isize it + emem_size e, hits := hits it + enhits e, icount := icount it + 1\<rparr> else it)
                      (enext e)))"

fun totals_slots :: "heap \<Rightarrow> immutable_cache_iterator_t \<Rightarrow> addr list \<Rightarrow> crash + immutable_cache_iterator_t" where
  "totals_slots H it [] = Inr it"
| "totals_slots H it (p # ps) =
     (case totals_chain H it p of None \<Rightarrow> Inl Diverges | Some r \<Rightarrow> ebind r (\<lambda>it. totals_slots H it ps))"

definition immutable_cache_iterator_totals ::
  "immutable_cache_iterator_t \<Rightarrow> 'a cproc_scheme \<Rightarrow> crash + (immutable_cache_iterator_t \<times> 'a cproc_scheme)" where
  "immutable_cache_iterator_totals it s =
     (case cache s of
        None \<Rightarrow> Inl BadAccess
      | Some c \<Rightarrow>
          (let (ok, s) = immutable_cache_cache_rlock_global s
           in if \<not> ok then Inr (it, s)
              else ebind (totals_slots (mem s) it (take (nslots c) (slots s))) (\<lambda>it.
                Inr (it\<lparr>totals_flag := True\<rparr>, immutable_cache_cache_runlock_global s))))"

subsection \<open>Methods\<close>

text \<open>The outcome of a method: a PHP exception, a fatal error or a value.\<close>

datatype 'a outcome = Throw string | Fatal string | Return 'a

text \<open>\<open>enabled\<close> is the setting of the module, \<open>compile\<close> the engine's
  \<^verbatim>\<open>pcre_get_compiled_regex_cache\<close>: the set of the strings a pattern matches, or nothing. The fatal
  error of a pattern that does not compile ends the request.\<close>

definition immutable_cache_iterator_obj_init ::
  "ref_cells \<Rightarrow> (string \<Rightarrow> (string \<Rightarrow> bool) option) \<Rightarrow> bool \<Rightarrow> zval option \<Rightarrow> zend_ulong \<Rightarrow> size_t \<Rightarrow> int \<Rightarrow>
   immutable_cache_iterator_t \<Rightarrow> 'a mproc_scheme \<Rightarrow> crash + (unit outcome \<times> immutable_cache_iterator_t \<times> 'a mproc_scheme)" where
  "immutable_cache_iterator_obj_init R compile enabled srch fmt chunk lst it s =
     (if \<not> enabled then Inr (Throw ''ImmutableCache must be enabled to use ImmutableCacheIterator'', it, s)
      else if fmt > IMMUTABLE_CACHE_ITER_ALL then Inr (Fatal ''ImmutableCacheIterator format is invalid'', it, s)
      else if lst \<noteq> IMMUTABLE_CACHE_LIST_ACTIVE
      then Inr (Return (), it, immutable_cache_warning ''ImmutableCacheIterator invalid list type'' s)
      else (let it = it\<lparr>slot_idx := 0, stack_idx := 0, key_idx := 0,
                  chunk_size := (if chunk = 0 then IMMUTABLE_CACHE_DEFAULT_CHUNK_SIZE else chunk),
                  stack := immutable_cache_stack_create chunk, format := fmt, totals_flag := False, icount := 0, isize := 0, hits := 0,
                  regex := None, search_hash := None\<rparr>
            in case srch of
                 Some (IS_STRING a) \<Rightarrow>
                   ebind (read_str (mem s) a) (\<lambda>str.
                     if zstr_val str = [] then Inr (Return (), it\<lparr>it_initialized := True\<rparr>, s)
                     else case compile (zstr_val str) of
                            None \<Rightarrow> Inr (Fatal ''Could not compile regular expression'', it, s)
                          | Some f \<Rightarrow> Inr (Return (), it\<lparr>regex := Some f, it_initialized := True\<rparr>, s))
               | Some (IS_ARRAY a) \<Rightarrow>
                   ebind (immutable_cache_flip_hash R (mem s) a) (\<lambda>ks.
                     Inr (Return (), it\<lparr>search_hash := ks, it_initialized := True\<rparr>, s))
               | _ \<Rightarrow> Inr (Return (), it\<lparr>it_initialized := True\<rparr>, s)))"

text \<open>The arguments are PHP integers: 64 bits, signed, and \<^verbatim>\<open>format\<close> is passed on unsigned.\<close>

definition iterator_construct ::
  "ref_cells \<Rightarrow> (string \<Rightarrow> (string \<Rightarrow> bool) option) \<Rightarrow> bool \<Rightarrow> zval option \<Rightarrow> int \<Rightarrow> int \<Rightarrow> int \<Rightarrow>
   immutable_cache_iterator_t \<Rightarrow> 'a mproc_scheme \<Rightarrow> crash + (unit outcome \<times> immutable_cache_iterator_t \<times> 'a mproc_scheme)" where
  "iterator_construct R compile enabled srch fmt chunk lst it s =
     (if chunk < 0 then Inr (Fatal ''ImmutableCacheIterator chunk size must be 0 or greater'', it, s)
      else immutable_cache_iterator_obj_init R compile enabled srch (of_int fmt) (nat chunk) lst it s)"

definition uninitialized_error :: string where
  "uninitialized_error = ''Trying to use uninitialized ImmutableCacheIterator''"

definition iterator_rewind ::
  "zend_abi \<Rightarrow> immutable_cache_iterator_t \<Rightarrow> 'a cproc_scheme \<Rightarrow> crash + (unit outcome \<times> immutable_cache_iterator_t \<times> 'a cproc_scheme)" where
  "iterator_rewind Z it s =
     (if \<not> it_initialized it then Inr (Throw uninitialized_error, it, s)
      else ebind (immutable_cache_iterator_fetch_active Z (it\<lparr>slot_idx := 0, stack_idx := 0, key_idx := 0\<rparr>) s) (\<lambda>(_, it, s).
             Inr (Return (), it, s)))"

definition iterator_valid ::
  "zend_abi \<Rightarrow> immutable_cache_iterator_t \<Rightarrow> 'a cproc_scheme \<Rightarrow> crash + (bool outcome \<times> immutable_cache_iterator_t \<times> 'a cproc_scheme)" where
  "iterator_valid Z it s =
     (if \<not> it_initialized it then Inr (Throw uninitialized_error, it, s)
      else ebind (if immutable_cache_stack_size (stack it) = stack_idx it
                  then ebind (immutable_cache_iterator_fetch_active Z it s) (\<lambda>(_, it, s). Inr (it, s))
                  else Inr (it, s)) (\<lambda>(it, s).
             Inr (Return (immutable_cache_stack_size (stack it) \<noteq> 0), it, s)))"

text \<open>The common part of \<^verbatim>\<open>current\<close> and \<^verbatim>\<open>key\<close>; the stack index is passed as an
  unsigned number.\<close>

definition iterator_item ::
  "zend_abi \<Rightarrow> string \<Rightarrow> immutable_cache_iterator_t \<Rightarrow> 'a cproc_scheme \<Rightarrow>
   crash + (immutable_cache_iterator_item_t outcome \<times> immutable_cache_iterator_t \<times> 'a cproc_scheme)" where
  "iterator_item Z msg it s =
     (if \<not> it_initialized it then Inr (Throw uninitialized_error, it, s)
      else ebind (if immutable_cache_stack_size (stack it) = stack_idx it
                  then immutable_cache_iterator_fetch_active Z it s
                  else Inr (1, it, s)) (\<lambda>(n, it, s).
             if n = 0 then Inr (Throw msg, it, s)
             else ebind (of_stack (immutable_cache_stack_get (stack it) (nat (stack_idx it mod 2 ^ 64)))) (\<lambda>item.
               Inr (Return item, it, s))))"

definition iterator_current ::
  "zend_abi \<Rightarrow> immutable_cache_iterator_t \<Rightarrow> 'a cproc_scheme \<Rightarrow>
   crash + ((string \<times> iter_field) list outcome \<times> immutable_cache_iterator_t \<times> 'a cproc_scheme)" where
  "iterator_current Z it s =
     ebind (iterator_item Z ''Cannot call current() on invalid iterator'' it s) (\<lambda>(r, it, s).
       Inr (case r of Return item \<Rightarrow> Return (ivalue item) | Throw m \<Rightarrow> Throw m | Fatal m \<Rightarrow> Fatal m, it, s))"

text \<open>An item always has a key, so the numeric key is never returned.\<close>

definition iterator_key ::
  "zend_abi \<Rightarrow> immutable_cache_iterator_t \<Rightarrow> 'a cproc_scheme \<Rightarrow>
   crash + (iter_field outcome \<times> immutable_cache_iterator_t \<times> 'a cproc_scheme)" where
  "iterator_key Z it s =
     ebind (iterator_item Z ''Cannot call key() on invalid iterator'' it s) (\<lambda>(r, it, s).
       Inr (case r of Return item \<Rightarrow> Return (if ikey item \<noteq> 0 then IKey (ikey item) else ILong (key_idx it))
                    | Throw m \<Rightarrow> Throw m | Fatal m \<Rightarrow> Fatal m, it, s))"

definition iterator_next :: "immutable_cache_iterator_t \<Rightarrow> unit outcome \<times> immutable_cache_iterator_t" where
  "iterator_next it =
     (if \<not> it_initialized it then (Throw uninitialized_error, it)
      else if immutable_cache_stack_size (stack it) = 0 then (Return (), it)
      else (Return (), it\<lparr>stack_idx := stack_idx it + 1, key_idx := key_idx it + 1\<rparr>))"

text \<open>The three totals. The integers of an iterator are not cut to their width: each counts
  entries or bytes of the table.\<close>

definition iterator_total ::
  "(immutable_cache_iterator_t \<Rightarrow> int) \<Rightarrow> immutable_cache_iterator_t \<Rightarrow> 'a cproc_scheme \<Rightarrow>
   crash + (int outcome \<times> immutable_cache_iterator_t \<times> 'a cproc_scheme)" where
  "iterator_total sel it s =
     (if \<not> it_initialized it then Inr (Throw uninitialized_error, it, s)
      else ebind (if \<not> totals_flag it then immutable_cache_iterator_totals it s else Inr (it, s)) (\<lambda>(it, s).
             Inr (Return (sel it), it, s)))"

definition iterator_getTotalHits ::
  "immutable_cache_iterator_t \<Rightarrow> 'a cproc_scheme \<Rightarrow> crash + (int outcome \<times> immutable_cache_iterator_t \<times> 'a cproc_scheme)" where
  "iterator_getTotalHits = iterator_total hits"

definition iterator_getTotalSize ::
  "immutable_cache_iterator_t \<Rightarrow> 'a cproc_scheme \<Rightarrow> crash + (int outcome \<times> immutable_cache_iterator_t \<times> 'a cproc_scheme)" where
  "iterator_getTotalSize = iterator_total isize"

definition iterator_getTotalCount ::
  "immutable_cache_iterator_t \<Rightarrow> 'a cproc_scheme \<Rightarrow> crash + (int outcome \<times> immutable_cache_iterator_t \<times> 'a cproc_scheme)" where
  "iterator_getTotalCount = iterator_total icount"

end
