(* ===== verification/Cache_Chain.thy ===== *)
theory Cache_Chain
  imports Cache
begin

text \<open>
  Chains of the hash table: the walks of insertion and lookup end, and find exactly what is in
  the chain.
\<close>

fun chain :: "heap \<Rightarrow> addr \<Rightarrow> addr list \<Rightarrow> bool" where
  "chain H p [] \<longleftrightarrow> p = 0"
| "chain H p (a # as) \<longleftrightarrow> p = a \<and> a \<noteq> 0 \<and> (\<exists>e. H a = Some (CEntry e) \<and> chain H (enext e) as)"

text \<open>The key of the entry at an address, with its hash cached.\<close>

definition key_at :: "zend_abi \<Rightarrow> heap \<Rightarrow> addr \<Rightarrow> string \<Rightarrow> bool" where
  "key_at Z H a k \<longleftrightarrow> (\<exists>e s. H a = Some (CEntry e) \<and> H (ekey e) = Some (CStr s) \<and> zstr_val s = k \<and>
     zstr_h s = zend_string_hash_func Z k)"

lemma key_at_det: "key_at Z H a k \<Longrightarrow> key_at Z H a j \<Longrightarrow> k = j"
  by (auto simp: key_at_def)

lemma key_at_entry: "key_at Z H a k \<Longrightarrow> \<exists>e. H a = Some (CEntry e)"
  by (auto simp: key_at_def)

lemma chain_mono: "chain H p as \<Longrightarrow> H \<subseteq>\<^sub>m H' \<Longrightarrow> chain H' p as"
  by (induction as arbitrary: p) (auto simp: map_le_def dom_def)

lemma key_at_mono: "key_at Z H a k \<Longrightarrow> H \<subseteq>\<^sub>m H' \<Longrightarrow> key_at Z H' a k"
  unfolding key_at_def map_le_def by (metis domI)

lemma chain_det: "chain H p as \<Longrightarrow> chain H p bs \<Longrightarrow> as = bs"
proof (induction as arbitrary: p bs)
  case Nil
  then show ?case by (cases bs) auto
next
  case (Cons a as)
  then show ?case by (cases bs) auto
qed

lemma chain_entry: "chain H p as \<Longrightarrow> a \<in> set as \<Longrightarrow> a \<noteq> 0 \<and> (\<exists>e. H a = Some (CEntry e))"
  by (induction as arbitrary: p) auto

subsection \<open>The comparison of keys\<close>

definition keyed :: "zend_abi \<Rightarrow> heap \<Rightarrow> addr list \<Rightarrow> bool" where
  "keyed Z H as \<longleftrightarrow> (\<forall>a \<in> set as. \<exists>k. key_at Z H a k)"

lemma key_equals:
  assumes "key_at Z H a k" "H a = Some (CEntry e)" "h = zend_string_hash_func Z (zstr_val key)"
  shows "immutable_cache_entry_key_equals H e key h = Inr (k = zstr_val key)"
  using assms by (auto simp: key_at_def immutable_cache_entry_key_equals_def)

subsection \<open>The walks\<close>

lemma insert_position_ok:
  assumes "chain H p as" "keyed Z H as" "h = zend_string_hash_func Z (zstr_val key)"
  shows "insert_position H key h p prev =
    Some (Inr (if \<exists>a \<in> set as. key_at Z H a (zstr_val key) then None else Some (last (prev # as))))"
  using assms(1,2)
proof (induction as arbitrary: p prev)
  case Nil
  then show ?case by (simp add: insert_position.simps)
next
  case (Cons a as)
  then obtain e k where e: "p = a" "a \<noteq> 0" "H a = Some (CEntry e)" "chain H (enext e) as" "key_at Z H a k" "keyed Z H as"
    by (auto simp: keyed_def)
  have eq: "immutable_cache_entry_key_equals H e key h = Inr (k = zstr_val key)"
    by (rule key_equals [OF e(5,3) assms(3)])
  have "key_at Z H a (zstr_val key) \<longleftrightarrow> k = zstr_val key" using e(5) key_at_det by blast
  with Cons.IH [OF e(4,6), of a] eq e(1-3) show ?case
    by (subst insert_position.simps) auto
qed

lemma find_in_chain_ok:
  assumes "chain H p as" "keyed Z H as" "h = zend_string_hash_func Z (zstr_val key)"
  shows "\<exists>a. find_in_chain H key h p = Some (Inr a) \<and>
    (if a = 0 then \<forall>b \<in> set as. \<not> key_at Z H b (zstr_val key) else a \<in> set as \<and> key_at Z H a (zstr_val key))"
  using assms(1,2)
proof (induction as arbitrary: p)
  case Nil
  then show ?case by (simp add: find_in_chain.simps)
next
  case (Cons a as)
  then obtain e k where e: "p = a" "a \<noteq> 0" "H a = Some (CEntry e)" "chain H (enext e) as" "key_at Z H a k" "keyed Z H as"
    by (auto simp: keyed_def)
  have eq: "immutable_cache_entry_key_equals H e key h = Inr (k = zstr_val key)"
    by (rule key_equals [OF e(5,3) assms(3)])
  show ?case
  proof (cases "k = zstr_val key")
    case True
    with eq e show ?thesis by (intro exI [of _ a]) (subst find_in_chain.simps, simp)
  next
    case False
    then have nk: "\<not> key_at Z H a (zstr_val key)" using e(5) key_at_det by blast
    obtain b where "find_in_chain H key h (enext e) = Some (Inr b)"
      "if b = 0 then \<forall>b \<in> set as. \<not> key_at Z H b (zstr_val key) else b \<in> set as \<and> key_at Z H b (zstr_val key)"
      using Cons.IH [OF e(4,6)] by blast
    with False nk eq e show ?thesis by (intro exI [of _ b]) (subst find_in_chain.simps, simp)
  qed
qed

lemma chain_links_ok:
  assumes "chain H p as"
  shows "chain_links H p = Some (Inr (map (\<lambda>a. case H a of Some (CEntry e) \<Rightarrow> immutable_cache_cache_link_info e) as))"
  using assms
proof (induction as arbitrary: p)
  case Nil
  then show ?case by (simp add: chain_links.simps)
next
  case (Cons a as)
  then show ?case by (subst chain_links.simps) auto
qed

subsection \<open>Appending an entry\<close>

text \<open>Storing at an address outside the chain.\<close>

lemma chain_upd: "chain H p as \<Longrightarrow> a \<notin> set as \<Longrightarrow> chain (H(a \<mapsto> cl)) p as"
  by (induction as arbitrary: p) auto

lemma chain_append:
  assumes "chain H p (as @ [l])" "distinct (as @ [l])" "H l = Some (CEntry le)"
    "H new = Some (CEntry e)" "enext e = 0" "new \<noteq> 0" "new \<notin> set (as @ [l])"
  shows "chain (H(l \<mapsto> CEntry (le\<lparr>enext := new\<rparr>))) p ((as @ [l]) @ [new])"
  using assms(1,2,7)
proof (induction as arbitrary: p)
  case Nil
  with assms(3-6) show ?case by auto
next
  case (Cons a as)
  then show ?case by auto
qed

text \<open>Updating statistics of an entry leaves the chain and the keys alone.\<close>

lemma chain_stats:
  assumes "chain H p as" "H a = Some (CEntry e)" "enext e' = enext e"
  shows "chain (H(a \<mapsto> CEntry e')) p as"
  using assms(1)
proof (induction as arbitrary: p)
  case (Cons b bs)
  then show ?case using assms(2,3) by (cases "b = a") auto
qed simp

lemma key_at_upd:
  assumes "H a = Some (CEntry e)" "ekey e' = ekey e"
  shows "key_at Z (H(a \<mapsto> CEntry e')) b k = key_at Z H b k"
proof -
  have "(H(a \<mapsto> CEntry e')) x = Some (CStr s) \<longleftrightarrow> H x = Some (CStr s)" for x s using assms(1) by auto
  then show ?thesis unfolding key_at_def using assms by (cases "b = a") simp_all
qed

end
