(* ===== verification/Cache_Laws.thy ===== *)
theory Cache_Laws
  imports Cache_Chain
begin

text \<open>
  The invariant of the cache and what every operation keeps of it.
\<close>

subsection \<open>Locks of the cache\<close>

text \<open>The state between \<^verbatim>\<open>immutable_cache_cache_wlock\<close> and its release.\<close>

definition wlocked_os :: "'a proc_scheme \<Rightarrow> zend_ulong \<Rightarrow> 'a proc_scheme \<Rightarrow> bool" where
  "wlocked_os s h t \<longleftrightarrow>
     (let L = SmaLock (sma_num (sma s)); F = immutable_cache_sma_lookup_fine_grained_lock s h
      in blocked t = blocked s + 2 \<and> held_w t = (held_w s)(L := held_w s L + 1, F := held_w s F + 1) \<and> held_r t = held_r s \<and>
         protect_memory t = protect_memory s \<and> entry_level t = entry_level s \<and>
         writable t = (\<lambda>i. i < sma_num (sma s) \<or> writable s i) \<and> (lock_rc s = [] \<longrightarrow> lock_rc t = []))"

lemma UNLOCK_proc [simp]:
  "sma (WUNLOCK l s) = sma s" "hdrs (WUNLOCK l s) = hdrs s" "proc.more (WUNLOCK l s) = proc.more s"
  "sma (RUNLOCK l s) = sma s" "hdrs (RUNLOCK l s) = hdrs s" "proc.more (RUNLOCK l s) = proc.more s"
  by (simp_all add: lock_defs)

lemma fine_lock_cong:
  "sma_num (sma t) = sma_num (sma s) \<Longrightarrow> immutable_cache_sma_lookup_fine_grained_lock t h = immutable_cache_sma_lookup_fine_grained_lock s h"
  by (simp add: immutable_cache_sma_lookup_fine_grained_lock_def)

lemma fine_lock_neq: "immutable_cache_sma_lookup_fine_grained_lock s h \<noteq> SmaLock i"
  by (simp add: immutable_cache_sma_lookup_fine_grained_lock_def)

lemma cache_wlock_cases:
  assumes wf: "sma_wf s" and lv: "entry_level s = 0"
  obtains (fail) s' where "immutable_cache_cache_wlock h s = (False, s')" "same_os s s'" "sma s' = sma s" "hdrs s' = hdrs s"
      "proc.more s' = proc.more s" "lock_rc s \<noteq> []"
  | (ok) s' where "immutable_cache_cache_wlock h s = (True, s')" "wlocked_os s h s'" "sma s' = sma s" "hdrs s' = hdrs s"
      "proc.more s' = proc.more s"
proof -
  note F = fail and K = ok
  show thesis
    using wf
  proof (cases rule: SMA_LOCK_cases)
    case (fail s')
    then show thesis using lv by (intro F [of s']) (simp_all add: immutable_cache_cache_wlock_def)
  next
    case lk: (ok t)
    have fl: "immutable_cache_sma_lookup_fine_grained_lock t h = immutable_cache_sma_lookup_fine_grained_lock s h"
      by (rule fine_lock_cong) (simp add: lk(3))
    let ?F = "immutable_cache_sma_lookup_fine_grained_lock s h"
    show thesis
    proof (cases rule: wlock_cases [of ?F t])
      case (fail u)
      note m = os_more_proc [OF fail(3)]
      have "locked_os s u" using lk(2) fail(2) by (simp add: locked_os_def same_os_def Let_def)
      then have "same_os s (SMA_UNLOCK u)" using SMA_UNLOCK_same [OF wf] m lk(3) by simp
      moreover have "lock_rc s \<noteq> []" using fail(4) lk(2) by (auto simp: locked_os_def Let_def)
      ultimately show thesis using lk fl fail(1) m lv
        by (intro F [of "SMA_UNLOCK u"]) (simp_all add: immutable_cache_cache_wlock_def)
    next
      case (ok u)
      note m = os_more_proc [OF ok(8)]
      have "wlocked_os s h u"
        using lk(2) ok fine_lock_neq [of s h "sma_num (sma s)"] unfolding wlocked_os_def locked_os_def Let_def by (simp add: fun_upd_twist)
      then show thesis using lk fl ok(1) m lv by (intro K [of u]) (simp_all add: immutable_cache_cache_wlock_def)
    qed
  qed
qed

lemma cache_wunlock_same:
  assumes wf: "sma_wf s" and t: "wlocked_os s h t" "sma_num (sma t) = sma_num (sma s)" and lv: "entry_level s = 0"
  shows "same_os s (immutable_cache_cache_wunlock h t)"
proof -
  let ?F = "immutable_cache_sma_lookup_fine_grained_lock s h"
  have f: "immutable_cache_sma_lookup_fine_grained_lock t h = ?F" by (rule fine_lock_cong [OF t(2)])
  have "locked_os s (WUNLOCK ?F t)"
    using t fine_lock_neq [of s h "sma_num (sma s)"] by (auto simp: locked_os_def wlocked_os_def Let_def fun_eq_iff)
  moreover have "sma_num (sma (WUNLOCK ?F t)) = sma_num (sma s)" using t(2) by simp
  ultimately have "same_os s (SMA_UNLOCK (WUNLOCK ?F t))" by (rule SMA_UNLOCK_same [OF wf])
  then show ?thesis using t(1) lv f by (simp add: immutable_cache_cache_wunlock_def wlocked_os_def Let_def)
qed

lemma cache_wunlock_keep [simp]:
  "sma (immutable_cache_cache_wunlock h s) = sma s" "hdrs (immutable_cache_cache_wunlock h s) = hdrs s"
  "proc.more (immutable_cache_cache_wunlock h s) = proc.more s"
  by (simp_all add: immutable_cache_cache_wunlock_def)

lemma cache_rlock_cases:
  fixes s :: "'a proc_scheme"
  assumes lv: "entry_level s = 0"
  obtains (fail) s' where "immutable_cache_cache_rlock h s = (False, s')" "same_os s s'" "sma s' = sma s" "hdrs s' = hdrs s"
      "proc.more s' = proc.more s" "lock_rc s \<noteq> []"
  | (ok) s' where "immutable_cache_cache_rlock h s = (True, s')" "sma s' = sma s" "hdrs s' = hdrs s" "proc.more s' = proc.more s"
      "writable s' = writable s" "protect_memory s' = protect_memory s"
      "\<And>t :: 'a proc_scheme. os.truncate t = os.truncate s' \<Longrightarrow> sma_num (sma t) = sma_num (sma s) \<Longrightarrow> same_os s (immutable_cache_cache_runlock h t)"
proof -
  note F = fail and K = ok
  let ?F = "immutable_cache_sma_lookup_fine_grained_lock s h"
  show thesis
  proof (cases rule: rlock_cases [of ?F s])
    case (fail s')
    then show thesis using lv os_more_proc [OF fail(3)] by (intro F [of s']) (simp_all add: immutable_cache_cache_rlock_def)
  next
    case (ok s')
    have "same_os s (immutable_cache_cache_runlock h t)" if t: "os.truncate t = os.truncate s'" "sma_num (sma t) = sma_num (sma s)" for t :: "'a proc_scheme"
    proof -
      have "blocked t = blocked s'" "held_r t = held_r s'" "held_w t = held_w s'" "writable t = writable s'"
        "protect_memory t = protect_memory s'" "entry_level t = entry_level s'" "lock_rc t = lock_rc s'"
        using t(1) by (simp_all add: os.defs)
      then show ?thesis using ok lv fine_lock_cong [OF t(2), of h]
        by (auto simp: immutable_cache_cache_runlock_def same_os_def fun_eq_iff)
    qed
    then show thesis using ok lv os_more_proc [OF ok(8)] by (intro K [of s']) (simp_all add: immutable_cache_cache_rlock_def)
  qed
qed

lemma cache_runlock_keep [simp]:
  "sma (immutable_cache_cache_runlock h s) = sma s" "hdrs (immutable_cache_cache_runlock h s) = hdrs s"
  "proc.more (immutable_cache_cache_runlock h s) = proc.more s"
  by (simp_all add: immutable_cache_cache_runlock_def)

subsection \<open>What never changes\<close>

text \<open>The objects of the heap other than entries.\<close>

definition objs :: "heap \<Rightarrow> heap" where
  "objs H = (\<lambda>a. case H a of Some (CEntry e) \<Rightarrow> None | r \<Rightarrow> r)"

lemma objs_Some: "objs H a = Some cl \<longleftrightarrow> H a = Some cl \<and> (\<forall>e. cl \<noteq> CEntry e)"
  by (auto simp: objs_def split: option.splits cell.splits)

lemma objs_le: "objs H \<subseteq>\<^sub>m H"
  unfolding map_le_def by (metis domIff objs_Some option.exhaust)

lemma rep_objs:
  "rep H z v \<Longrightarrow> rep (objs H) z v"
  "rep_slots H i zs es \<Longrightarrow> rep_slots (objs H) i zs es"
  "rep_buckets H bs es \<Longrightarrow> rep_buckets (objs H) bs es"
proof (induction rule: rep_rep_slots_rep_buckets.inducts)
  case (rep_packed a t zs es)
  then show ?case by (intro rep_rep_slots_rep_buckets.rep_packed [of _ a t zs]) (simp_all add: objs_Some)
next
  case (rep_hash a t bs es)
  then show ?case by (intro rep_rep_slots_rep_buckets.rep_hash [of _ a t bs]) (simp_all add: objs_Some)
qed (auto simp: objs_Some intro: rep_rep_slots_rep_buckets.intros)

text \<open>Strings, arrays and the keys and values of entries stay as they are.\<close>

definition same_entry :: "immutable_cache_cache_entry_t \<Rightarrow> immutable_cache_cache_entry_t \<Rightarrow> bool" where
  "same_entry e e' \<longleftrightarrow> ekey e' = ekey e \<and> eval e' = eval e \<and> ectime e' = ectime e \<and> emem_size e' = emem_size e"

definition preserves :: "heap \<Rightarrow> heap \<Rightarrow> bool" where
  "preserves H H' \<longleftrightarrow> (\<forall>a cl. H a = Some cl \<longrightarrow>
     (case cl of CEntry e \<Rightarrow> (\<exists>e'. H' a = Some (CEntry e') \<and> same_entry e e') | _ \<Rightarrow> H' a = Some cl))"

lemma preserves_entry: "preserves H H' \<Longrightarrow> H a = Some (CEntry e) \<Longrightarrow> \<exists>e'. H' a = Some (CEntry e') \<and> same_entry e e'"
  unfolding preserves_def by fastforce

lemma preserves_str: "preserves H H' \<Longrightarrow> H a = Some (CStr s) \<Longrightarrow> H' a = Some (CStr s)"
  unfolding preserves_def by fastforce

lemma preserves_objs: "preserves H H' \<Longrightarrow> objs H \<subseteq>\<^sub>m H'"
  unfolding map_le_def dom_def preserves_def by (fastforce simp: objs_Some split: cell.splits)

lemma preserves_map_le: "H \<subseteq>\<^sub>m H' \<Longrightarrow> preserves H H'"
  unfolding preserves_def map_le_def dom_def same_entry_def by (fastforce split: cell.splits)

lemma preserves_refl [simp]: "preserves H H"
  by (rule preserves_map_le) simp

lemma same_entry_trans: "same_entry a b \<Longrightarrow> same_entry b c \<Longrightarrow> same_entry a c"
  by (simp add: same_entry_def)

lemma preserves_trans:
  assumes "preserves H1 H2" "preserves H2 H3"
  shows "preserves H1 H3"
  unfolding preserves_def
proof (intro allI impI)
  fix a cl assume a: "H1 a = Some cl"
  show "case cl of CEntry e \<Rightarrow> (\<exists>e'. H3 a = Some (CEntry e') \<and> same_entry e e') | _ \<Rightarrow> H3 a = Some cl"
  proof (cases cl)
    case (CEntry e)
    with a preserves_entry [OF assms(1)] preserves_entry [OF assms(2)] same_entry_trans show ?thesis by (simp, blast)
  qed (use a assms in \<open>fastforce simp: preserves_def\<close>)+
qed

lemma preserves_stats:
  assumes "H a = Some (CEntry e)" "same_entry e e'"
  shows "preserves H (H(a \<mapsto> CEntry e'))"
  using assms by (auto simp: preserves_def same_entry_def split: cell.splits)

lemma preserves_rep: "preserves H H' \<Longrightarrow> rep H z v \<Longrightarrow> rep H' z v"
  by (rule rep_mono(1) [OF rep_objs(1) preserves_objs])

lemma preserves_str_at: "preserves H H' \<Longrightarrow> str_at H a v \<Longrightarrow> str_at H' a v"
  unfolding str_at_def using preserves_str by blast

lemma preserves_key_at:
  assumes "preserves H H'" "key_at Z H a k"
  shows "key_at Z H' a k"
proof -
  obtain e s where "H a = Some (CEntry e)" "H (ekey e) = Some (CStr s)" "zstr_val s = k" "zstr_h s = zend_string_hash_func Z k"
    using assms(2) by (auto simp: key_at_def)
  with preserves_entry [OF assms(1)] preserves_str [OF assms(1)] show ?thesis
    unfolding key_at_def same_entry_def by metis
qed

lemma preserves_key_at_iff:
  assumes "preserves H H'" "key_at Z H a j"
  shows "key_at Z H' a k \<longleftrightarrow> key_at Z H a k"
  using preserves_key_at [OF assms] key_at_det [of Z H' a j k] key_at_det [OF assms(2)] assms(2) by blast

subsection \<open>The invariant\<close>

definition hash_slot :: "zend_abi \<Rightarrow> nat \<Rightarrow> string \<Rightarrow> nat" where
  "hash_slot Z n k = unat (zend_string_hash_func Z k) mod n"

definition slot_ok :: "zend_abi \<Rightarrow> heap \<Rightarrow> nat \<Rightarrow> nat \<Rightarrow> addr \<Rightarrow> addr list \<Rightarrow> bool" where
  "slot_ok Z H n i p as \<longleftrightarrow> chain H p as \<and> distinct as \<and>
     (\<forall>a \<in> set as. \<exists>k. key_at Z H a k \<and> hash_slot Z n k = i) \<and>
     (\<forall>a \<in> set as. \<forall>b \<in> set as. \<forall>k. key_at Z H a k \<longrightarrow> key_at Z H b k \<longrightarrow> a = b)"

definition entry_mem :: "heap \<Rightarrow> addr \<Rightarrow> int" where
  "entry_mem H a = (case H a of Some (CEntry e) \<Rightarrow> emem_size e | _ \<Rightarrow> 0)"

text \<open>The header and the slots lie in a live region of their own.\<close>

definition table_reserved :: "'a cproc_scheme \<Rightarrow> immutable_cache_cache_t \<Rightarrow> bool" where
  "table_reserved s c \<longleftrightarrow> (\<exists>(q, n) \<in> sma_regions s. q \<le> cshmaddr c \<and> cshmaddr c + sizeof_cache_header + 8 * nslots c \<le> q + n \<and>
     dom (mem s) \<inter> {q..<q + n} = {})"

definition table_ok :: "zend_abi \<Rightarrow> 'a cproc_scheme \<Rightarrow> addr list list \<Rightarrow> bool" where
  "table_ok Z s cs \<longleftrightarrow> length cs = length (slots s) \<and>
     (\<forall>i < length cs. slot_ok Z (mem s) (length cs) i (slots s ! i) (cs ! i)) \<and>
     set (concat cs) \<subseteq> fst ` sma_regions s \<and>
     nentries (header s) = int (length (concat cs)) \<and> ninserts (header s) = nentries (header s) \<and>
     hmem_size (header s) = (\<Sum>a \<leftarrow> concat cs. entry_mem (mem s) a)"

definition cache_wf :: "zend_abi \<Rightarrow> 'a cproc_scheme \<Rightarrow> bool" where
  "cache_wf Z s \<longleftrightarrow> shm_wf Z s \<and> entry_level s = 0 \<and>
     (\<exists>c. cache s = Some c \<and> nslots c = length (slots s) \<and> 0 < nslots c \<and> table_reserved s c) \<and> (\<exists>cs. table_ok Z s cs)"

text \<open>The entry with a given key.\<close>

definition cache_has :: "zend_abi \<Rightarrow> 'a cproc_scheme \<Rightarrow> string \<Rightarrow> addr \<Rightarrow> bool" where
  "cache_has Z s k a \<longleftrightarrow>
     (\<exists>as. chain (mem s) (slots s ! hash_slot Z (length (slots s)) k) as \<and> a \<in> set as \<and> key_at Z (mem s) a k)"

lemma slot_ok_keyed: "slot_ok Z H n i p as \<Longrightarrow> keyed Z H as"
  by (auto simp: slot_ok_def keyed_def)

lemma hash_slot_less: "0 < n \<Longrightarrow> hash_slot Z n k < n"
  by (simp add: hash_slot_def)

lemma table_slot: "table_ok Z s cs \<Longrightarrow> 0 < length (slots s) \<Longrightarrow>
  slot_ok Z (mem s) (length (slots s)) (hash_slot Z (length (slots s)) k) (slots s ! hash_slot Z (length (slots s)) k)
    (cs ! hash_slot Z (length (slots s)) k)"
  using hash_slot_less by (metis table_ok_def)

lemma cache_has_iff:
  assumes "table_ok Z s cs" "0 < length (slots s)"
  shows "cache_has Z s k a \<longleftrightarrow> a \<in> set (cs ! hash_slot Z (length (slots s)) k) \<and> key_at Z (mem s) a k"
  using table_slot [OF assms, of k] chain_det unfolding cache_has_def slot_ok_def by metis

lemma cache_has_unique:
  assumes "cache_wf Z s" "cache_has Z s k a" "cache_has Z s k b"
  shows "a = b"
proof -
  obtain cs where cs: "table_ok Z s cs" "0 < length (slots s)" using assms(1) by (auto simp: cache_wf_def)
  from table_slot [OF cs, of k] assms(2,3) show ?thesis unfolding cache_has_iff [OF cs] slot_ok_def by blast
qed

subsection \<open>Insertion\<close>

lemma table_disjoint:
  assumes "table_ok Z s cs" "i < length cs" "j < length cs" "a \<in> set (cs ! i)" "a \<in> set (cs ! j)"
  shows "i = j"
proof -
  obtain k l where "key_at Z (mem s) a k" "hash_slot Z (length cs) k = i" "key_at Z (mem s) a l" "hash_slot Z (length cs) l = j"
    using assms unfolding table_ok_def slot_ok_def by metis
  then show ?thesis using key_at_det by metis
qed

text \<open>One more entry at the end of the chain of slot \<open>i\<close>.\<close>

lemma slot_ok_append:
  assumes ok: "slot_ok Z H n i p as" and H: "preserves H H'" and ch: "chain H' p' (as @ [new])"
    and new: "key_at Z H new k" "hash_slot Z n k = i" "new \<notin> set as" "\<forall>a \<in> set as. \<not> key_at Z H a k"
  shows "slot_ok Z H' n i p' (as @ [new])"
proof -
  have k: "key_at Z H' a j \<longleftrightarrow> key_at Z H a j" if "a \<in> insert new (set as)" for a j
    using that new(1) ok preserves_key_at_iff [OF H] unfolding slot_ok_def by blast
  show ?thesis
    unfolding slot_ok_def
  proof (intro conjI)
    show "distinct (as @ [new])" using ok new(3) by (simp add: slot_ok_def)
    show "\<forall>a \<in> set (as @ [new]). \<exists>k. key_at Z H' a k \<and> hash_slot Z n k = i"
      using ok new(1,2) k by (auto simp: slot_ok_def)
    show "\<forall>a \<in> set (as @ [new]). \<forall>b \<in> set (as @ [new]). \<forall>k. key_at Z H' a k \<longrightarrow> key_at Z H' b k \<longrightarrow> a = b"
    proof (intro ballI allI impI)
      fix a b j assume ab: "a \<in> set (as @ [new])" "b \<in> set (as @ [new])" "key_at Z H' a j" "key_at Z H' b j"
      then have h: "key_at Z H a j" "key_at Z H b j" using k by auto
      show "a = b"
      proof (cases "a = new \<or> b = new")
        case True
        then have "j = k" using h new(1) key_at_det by blast
        with h new(4) ab(1,2) show ?thesis by auto
      next
        case False
        with ab h ok show ?thesis by (auto simp: slot_ok_def)
      qed
    qed
  qed (rule ch)
qed

lemma slot_ok_keep:
  assumes "slot_ok Z H n i p as" "preserves H H'" "chain H' p as"
  shows "slot_ok Z H' n i p as"
proof -
  have "key_at Z H' a j \<longleftrightarrow> key_at Z H a j" if "a \<in> set as" for a j
    using that assms(1) preserves_key_at_iff [OF assms(2)] unfolding slot_ok_def by blast
  with assms show ?thesis unfolding slot_ok_def by blast
qed

text \<open>The sum over the entries, with one more.\<close>

lemma concat_update_append:
  assumes "i < length cs"
  shows "length (concat (cs[i := cs ! i @ [a]])) = Suc (length (concat cs))"
    "(\<Sum>b \<leftarrow> concat (cs[i := cs ! i @ [a]]). f b :: int) = (\<Sum>b \<leftarrow> concat cs. f b) + f a"
    "set (concat (cs[i := cs ! i @ [a]])) = insert a (set (concat cs))"
proof -
  have c: "cs = take i cs @ cs ! i # drop (Suc i) cs" using assms by (rule id_take_nth_drop)
  have u: "cs[i := cs ! i @ [a]] = take i cs @ (cs ! i @ [a]) # drop (Suc i) cs" by (rule upd_conv_take_nth_drop [OF assms])
  show "length (concat (cs[i := cs ! i @ [a]])) = Suc (length (concat cs))"
    unfolding u by (subst (3) c) simp
  show "(\<Sum>b \<leftarrow> concat (cs[i := cs ! i @ [a]]). f b :: int) = (\<Sum>b \<leftarrow> concat cs. f b) + f a"
    unfolding u by (subst (3) c) (simp add: algebra_simps)
  show "set (concat (cs[i := cs ! i @ [a]])) = insert a (set (concat cs))"
    unfolding u by (subst (3) c) auto
qed

lemma preserves_entry_mem: "preserves H H' \<Longrightarrow> H a = Some (CEntry e) \<Longrightarrow> entry_mem H' a = entry_mem H a"
  using preserves_entry by (fastforce simp: entry_mem_def same_entry_def)

lemma table_keyed:
  assumes "table_ok Z s cs" "a \<in> set (concat cs)"
  shows "\<exists>k. key_at Z (mem s) a k"
proof -
  obtain bs where "bs \<in> set cs" "a \<in> set bs" using assms(2) by auto
  then obtain i where "i < length cs" "a \<in> set (cs ! i)" by (metis in_set_conv_nth)
  with assms(1) show ?thesis unfolding table_ok_def slot_ok_def by blast
qed

lemma table_ok_append:
  assumes ok: "table_ok Z s cs" and i: "i = hash_slot Z (length (slots s)) k" "i < length cs"
    and new: "key_at Z (mem s) new k" "new \<notin> set (concat cs)" "\<forall>a. \<not> cache_has Z s k a" "new \<in> fst ` sma_regions s'"
    and s': "preserves (mem s) (mem s')" "slots s' = (slots s)[i := p']" "chain (mem s') p' (cs ! i @ [new])"
      "\<And>j. j < length cs \<Longrightarrow> j \<noteq> i \<Longrightarrow> chain (mem s') (slots s ! j) (cs ! j)"
    and r: "sma_regions s \<subseteq> sma_regions s'"
    and h: "header s' = (header s)\<lparr>hmem_size := hmem_size (header s) + entry_mem (mem s) new,
      nentries := nentries (header s) + 1, ninserts := ninserts (header s) + 1\<rparr>"
  shows "table_ok Z s' (cs[i := cs ! i @ [new]])" "cache_has Z s' j a \<longleftrightarrow> cache_has Z s j a \<or> (j = k \<and> a = new)"
proof -
  have len: "length cs = length (slots s)" "0 < length (slots s)" using ok i(2) by (auto simp: table_ok_def)
  have nk: "\<forall>a \<in> set (cs ! i). \<not> key_at Z (mem s) a k" using new(3) cache_has_iff [OF ok len(2), of k] i(1) by blast
  have mem: "entry_mem (mem s') a = entry_mem (mem s) a" if "a \<in> insert new (set (concat cs))" for a
  proof -
    have "\<exists>j. key_at Z (mem s) a j" using that new(1) table_keyed [OF ok] by blast
    then show ?thesis using key_at_entry preserves_entry_mem [OF s'(1)] by blast
  qed
  have sl: "slot_ok Z (mem s') (length cs) j (slots s' ! j) (cs[i := cs ! i @ [new]] ! j)" if j: "j < length cs" for j
  proof (cases "j = i")
    case True
    have "new \<notin> set (cs ! i)" using new(2) nth_mem [OF i(2)] by auto
    moreover have "slot_ok Z (mem s) (length cs) i (slots s ! i) (cs ! i)" using ok i(2) unfolding table_ok_def by blast
    moreover have "hash_slot Z (length cs) k = i" using i(1) len(1) by simp
    ultimately have "slot_ok Z (mem s') (length cs) i p' (cs ! i @ [new])"
      using slot_ok_append [OF _ s'(1,3) new(1)] nk by blast
    then show ?thesis using True i(2) len(1) s'(2) by simp
  next
    case False
    have "slot_ok Z (mem s) (length cs) j (slots s ! j) (cs ! j)" using ok j unfolding table_ok_def by blast
    from slot_ok_keep [OF this s'(1) s'(4) [OF j False]] False s'(2) show ?thesis by simp
  qed
  show t: "table_ok Z s' (cs[i := cs ! i @ [new]])"
    unfolding table_ok_def
  proof (intro conjI)
    have m: "map (entry_mem (mem s')) (concat cs) = map (entry_mem (mem s)) (concat cs)" using mem by simp
    show "hmem_size (header s') = (\<Sum>a \<leftarrow> concat (cs[i := cs ! i @ [new]]). entry_mem (mem s') a)"
      using ok h mem [of new] by (simp add: concat_update_append(2) [OF i(2)] table_ok_def m)
    show "nentries (header s') = int (length (concat (cs[i := cs ! i @ [new]])))"
      using ok h by (simp only: concat_update_append(1) [OF i(2)]) (simp add: table_ok_def)
    show "set (concat (cs[i := cs ! i @ [new]])) \<subseteq> fst ` sma_regions s'"
      using ok new(4) image_mono [OF r, of fst] unfolding concat_update_append(3) [OF i(2)] table_ok_def by blast
  qed (use ok h s'(2) sl in \<open>simp_all add: table_ok_def\<close>)
  have len': "length (slots s') = length (slots s)" "0 < length (slots s')" using s'(2) len(2) by simp_all
  let ?j = "hash_slot Z (length (slots s)) j"
  have jl: "?j < length cs" using hash_slot_less [OF len(2)] len(1) by simp
  have kk: "key_at Z (mem s') a j \<longleftrightarrow> key_at Z (mem s) a j" if "a \<in> insert new (set (cs ! ?j))"
  proof -
    have "\<exists>l. key_at Z (mem s) a l" using that new(1) table_keyed [OF ok, of a] nth_mem [OF jl] by auto
    then show ?thesis using preserves_key_at_iff [OF s'(1)] by blast
  qed
  show "cache_has Z s' j a \<longleftrightarrow> cache_has Z s j a \<or> (j = k \<and> a = new)"
    unfolding cache_has_iff [OF t len'(2)] cache_has_iff [OF ok len(2)] len'(1)
    using kk i new(1) key_at_det [of Z "mem s" new] jl by (cases "?j = i") auto
qed

end
