(* ===== verification/Cache_Store.thy ===== *)
theory Cache_Store
  imports Cache_Laws
begin

text \<open>
  The store: insertion into the table, the release of an entry that was not inserted, and
  \<^verbatim>\<open>immutable_cache_cache_store\<close> as a whole.
\<close>

lemma mproc_more_cproc:
  fixes s s' :: "'a cproc_scheme"
  assumes "mproc.more s' = mproc.more s"
  shows "cache s' = cache s" "header s' = header s" "slots s' = slots s" "cproc.more s' = cproc.more s"
proof -
  obtain b r w l wa p e wr m h x c hd sl z where s: "s = \<lparr>blocked = b, held_r = r, held_w = w, lock_rc = l, warnings = wa,
      protect_memory = p, entry_level = e, writable = wr, sma = m, hdrs = h, mem = x, cache = c, header = hd, slots = sl, \<dots> = z\<rparr>"
    by (cases s)
  obtain b' r' w' l' wa' p' e' wr' m' h' x' c' hd' sl' z' where s': "s' = \<lparr>blocked = b', held_r = r', held_w = w', lock_rc = l', warnings = wa',
      protect_memory = p', entry_level = e', writable = wr', sma = m', hdrs = h', mem = x', cache = c', header = hd', slots = sl', \<dots> = z'\<rparr>"
    by (cases s')
  show "cache s' = cache s" "header s' = header s" "slots s' = slots s" "cproc.more s' = cproc.more s"
    using assms by (simp_all add: s s')
qed

lemma proc_more_cproc:
  fixes s s' :: "'a cproc_scheme"
  assumes "proc.more s' = proc.more s"
  shows "mem s' = mem s" "cache s' = cache s" "header s' = header s" "slots s' = slots s" "cproc.more s' = cproc.more s"
  using proc_more_mproc [OF assms] mproc_more_cproc [of s' s] by simp_all

subsection \<open>What keeps the table\<close>

lemma table_ok_keep:
  assumes ok: "table_ok Z s cs" and m: "preserves (mem s) (mem t)" "\<forall>p as. chain (mem s) p as \<longrightarrow> chain (mem t) p as"
    and s: "slots t = slots s" "nentries (header t) = nentries (header s)" "ninserts (header t) = ninserts (header s)"
      "hmem_size (header t) = hmem_size (header s)" and r: "sma_regions s \<subseteq> sma_regions t"
  shows "table_ok Z t cs"
  unfolding table_ok_def
proof (intro conjI allI impI)
  fix i assume "i < length cs"
  then have "slot_ok Z (mem s) (length cs) i (slots s ! i) (cs ! i)" using ok unfolding table_ok_def by blast
  then show "slot_ok Z (mem t) (length cs) i (slots t ! i) (cs ! i)"
    unfolding s(1) by (rule slot_ok_keep [OF _ m(1)]) (use m(2) \<open>slot_ok _ _ _ _ _ _\<close> in \<open>simp add: slot_ok_def\<close>)
next
  have "entry_mem (mem t) a = entry_mem (mem s) a" if "a \<in> set (concat cs)" for a
    using table_keyed [OF ok that] key_at_entry preserves_entry_mem [OF m(1)] by blast
  then have e: "map (entry_mem (mem t)) (concat cs) = map (entry_mem (mem s)) (concat cs)" by simp
  show "hmem_size (header t) = (\<Sum>a \<leftarrow> concat cs. entry_mem (mem t) a)" using ok s(4) unfolding e table_ok_def by simp
  show "set (concat cs) \<subseteq> fst ` sma_regions t" using ok image_mono [OF r, of fst] unfolding table_ok_def by blast
qed (use ok s in \<open>simp_all add: table_ok_def\<close>)

lemma cache_has_keep:
  assumes ok: "table_ok Z s cs" "table_ok Z t cs" and l: "0 < length (slots s)" "slots t = slots s"
    and m: "preserves (mem s) (mem t)"
  shows "cache_has Z t k a \<longleftrightarrow> cache_has Z s k a"
proof -
  have l': "0 < length (slots t)" using l by simp
  show ?thesis
    unfolding cache_has_iff [OF ok(1) l(1)] cache_has_iff [OF ok(2) l'] l(2)
    using table_slot [OF ok(1) l(1), of k] preserves_key_at_iff [OF m, of Z a] unfolding slot_ok_def by blast
qed

subsection \<open>Updates of entries\<close>

text \<open>Only statistics and links of entries change; the new links are in \<open>N\<close>.\<close>

definition linked :: "heap \<Rightarrow> addr set \<Rightarrow> heap \<Rightarrow> bool" where
  "linked H N M \<longleftrightarrow> preserves H M \<and> dom M = dom H \<and>
     (\<forall>a le. M a = Some (CEntry le) \<longrightarrow> (\<exists>e. H a = Some (CEntry e) \<and> same_entry e le \<and> enext le \<in> insert (enext e) N))"

lemma linked_refl [simp]: "linked H N H"
  by (auto simp: linked_def same_entry_def)

lemma linked_upd:
  "H a = Some (CEntry e) \<Longrightarrow> same_entry e e' \<Longrightarrow> enext e' \<in> insert (enext e) N \<Longrightarrow> linked H N (H(a \<mapsto> CEntry e'))"
  using preserves_stats [of H a e e'] by (auto simp: linked_def same_entry_def)

lemma linked_obj:
  assumes "linked H N M" "M a = Some cl" "\<forall>e. cl \<noteq> CEntry e"
  shows "H a = Some cl"
proof -
  have "a \<in> dom H" using assms(1,2) by (auto simp: linked_def dom_def)
  then obtain cl' where a: "H a = Some cl'" by blast
  then show ?thesis using assms by (cases cl') (fastforce simp: linked_def preserves_def)+
qed

lemma linkedE:
  assumes "linked H N M" "M a = Some cl"
  obtains (same) "H a = Some cl" | (entry) e le where "H a = Some (CEntry e)" "cl = CEntry le" "same_entry e le" "enext le \<in> insert (enext e) N"
proof -
  note S = same and E = entry
  show thesis
  proof (cases "\<exists>le. cl = CEntry le")
    case True
    with assms obtain e le where "cl = CEntry le" "H a = Some (CEntry e)" "same_entry e le" "enext le \<in> insert (enext e) N"
      unfolding linked_def by blast
    then show thesis by (intro E)
  next
    case False
    then show thesis by (intro S linked_obj [OF assms]) blast
  qed
qed

lemma linked_shm_wf:
  assumes wf: "shm_wf Z s" and t: "sma_wf t" "sma_regions s \<subseteq> sma_regions t"
    "immutable_cache_sma_contains_pointer (sma t) = immutable_cache_sma_contains_pointer (sma s)"
    and M: "linked (mem s) N (mem t)" "\<forall>a \<in> N. immutable_cache_sma_contains_pointer (sma s) a"
  shows "shm_wf Z t"
proof -
  have d: "dom (mem t) = dom (mem s)" using M(1) by (simp add: linked_def)
  have "in_regions t" using wf t(2) unfolding shm_wf_def in_regions_def d t(3) by blast
  moreover have "heap_hashed Z (mem t)"
    using wf by (auto simp: shm_wf_def heap_hashed_def elim: linkedE [OF M(1)])
  moreover have "shm_closed Z (sma t) (mem t)"
    unfolding shm_closed_cong [OF t(3)] shm_closed_def
  proof (intro allI impI)
    fix a cl assume a: "mem t a = Some cl" "immutable_cache_sma_contains_pointer (sma s) a"
    have sc: "shm_closed Z (sma s) (mem s)" using wf by (simp add: shm_wf_def)
    from M(1) a(1) show "cell_shm Z (sma s) cl"
    proof (cases rule: linkedE)
      case same
      then show ?thesis by (rule shm_closedD [OF sc _ a(2)])
    next
      case (entry e le)
      with shm_closedD [OF sc entry(1) a(2)] M(2) show ?thesis by (auto simp: same_entry_def)
    qed
  qed
  ultimately show ?thesis using wf t(1) d by (simp add: shm_wf_def)
qed

subsection \<open>Insertion\<close>

text \<open>The end of the chain is the slot or the last entry.\<close>

lemma link_entry_ok:
  assumes ch: "chain (mem s) (slots s ! i) as" "distinct as" and new: "mem s new = Some (CEntry e)" "enext e = 0" "new \<noteq> 0" "new \<notin> set as"
    and i: "i < length (slots s)"
  shows "\<exists>M p'. link_entry i (last (0 # as)) new s = Inr (s\<lparr>mem := M, slots := (slots s)[i := p']\<rparr>) \<and>
    linked (mem s) {new} M \<and> chain M p' (as @ [new]) \<and> M new = mem s new \<and>
    (\<forall>p bs. chain (mem s) p bs \<longrightarrow> set bs \<inter> set as = {} \<longrightarrow> chain M p bs)"
proof (cases as rule: rev_cases)
  case Nil
  with new have "chain (mem s) new (as @ [new])" by simp
  with Nil i show ?thesis
    by (intro exI [of _ "mem s"] exI [of _ new]) (simp add: link_entry_def)
next
  case (snoc bs l)
  obtain le where l: "l \<noteq> 0" "mem s l = Some (CEntry le)" using chain_entry [OF ch(1), of l] snoc by auto
  let ?M = "(mem s)(l \<mapsto> CEntry (le\<lparr>enext := new\<rparr>))"
  have "chain ?M (slots s ! i) ((bs @ [l]) @ [new])"
    by (rule chain_append) (use ch new l snoc in simp_all)
  moreover have "linked (mem s) {new} ?M" by (rule linked_upd [of "mem s" l le]) (simp_all add: same_entry_def l(2))
  moreover have "chain ?M p cs" if "chain (mem s) p cs" "set cs \<inter> set as = {}" for p cs
    by (rule chain_upd [OF that(1)]) (use that(2) snoc in auto)
  ultimately show ?thesis using l new snoc i
    by (intro exI [of _ ?M] exI [of _ "slots s ! i"]) (auto simp: link_entry_def)
qed

lemma insert_exclusive_ok:
  assumes ok: "table_ok Z s cs" and c: "nslots c = length (slots s)" "0 < nslots c" and w: "shm_writable s"
    and new: "key_at Z (mem s) new k" "mem s new = Some (CEntry e)" "enext e = 0" "new \<noteq> 0" "new \<notin> set (concat cs)"
      "new \<in> fst ` sma_regions s"
    and H: "heap_hashed Z (mem s)"
  shows "if \<exists>a. cache_has Z s k a then immutable_cache_cache_wlocked_insert_exclusive Z c new s = Inr (False, s)
    else \<exists>M L hd cs'. immutable_cache_cache_wlocked_insert_exclusive Z c new s = Inr (True, s\<lparr>mem := M, slots := L, header := hd\<rparr>) \<and>
      linked (mem s) {new} M \<and> M new = mem s new \<and> length L = length (slots s) \<and>
      nhits hd = nhits (header s) \<and> nmisses hd = nmisses (header s) \<and> stime hd = stime (header s) \<and>
      table_ok Z (s\<lparr>mem := M, slots := L, header := hd\<rparr>) cs' \<and>
      (\<forall>j a. cache_has Z (s\<lparr>mem := M, slots := L, header := hd\<rparr>) j a \<longleftrightarrow> cache_has Z s j a \<or> (j = k \<and> a = new))"
proof -
  let ?n = "length (slots s)" and ?h = "zend_string_hash_func Z k"
  let ?i = "hash_slot Z ?n k"
  obtain ks where ks: "mem s (ekey e) = Some (CStr ks)" "zstr_val ks = k" using new(1,2) by (auto simp: key_at_def)
  have h: "ZSTR_HASH Z ks = ?h" using H ks ZSTR_HASH_eq by (auto simp: heap_hashed_def)
  have pos: "0 < ?n" using c by simp
  have il: "?i < ?n" "?i < length cs" using hash_slot_less [OF pos] ok by (simp_all add: table_ok_def)
  note so = table_slot [OF ok pos, of k]
  have ch: "chain (mem s) (slots s ! ?i) (cs ! ?i)" "distinct (cs ! ?i)" using so by (simp_all add: slot_ok_def)
  note pos_ok = insert_position_ok [OF ch(1) slot_ok_keyed [OF so], of ?h ks 0]
  have hs: "immutable_cache_cache_hash_slot Z (nslots c) ks = (?h, ?i)"
    by (simp add: immutable_cache_cache_hash_slot_def h hash_slot_def c Let_def)
  show ?thesis
  proof (cases "\<exists>a. cache_has Z s k a")
    case True
    then have "\<exists>a \<in> set (cs ! ?i). key_at Z (mem s) a k" using cache_has_iff [OF ok pos] by blast
    with True show ?thesis using pos_ok new(2) ks hs
      by (simp add: immutable_cache_cache_wlocked_insert_exclusive_def)
  next
    case False
    then have n: "\<not> (\<exists>a \<in> set (cs ! ?i). key_at Z (mem s) a k)" using cache_has_iff [OF ok pos] by blast
    have ni: "new \<notin> set (cs ! ?i)" using new(5) nth_mem [OF il(2)] by auto
    obtain M p' where M: "link_entry ?i (last (0 # cs ! ?i)) new s = Inr (s\<lparr>mem := M, slots := (slots s)[?i := p']\<rparr>)"
      "linked (mem s) {new} M" "chain M p' (cs ! ?i @ [new])" "M new = mem s new"
      "\<forall>p bs. chain (mem s) p bs \<longrightarrow> set bs \<inter> set (cs ! ?i) = {} \<longrightarrow> chain M p bs"
      using link_entry_ok [OF ch new(2-4) ni il(1)] by blast
    define hd where "hd = (header s)\<lparr>hmem_size := hmem_size (header s) + emem_size e, nentries := nentries (header s) + 1,
      ninserts := ninserts (header s) + 1\<rparr>"
    let ?s = "s\<lparr>mem := M, slots := (slots s)[?i := p'], header := hd\<rparr>"
    have "e\<lparr>enext := 0\<rparr> = e" using new(3) by (cases e) simp
    then have same: "s\<lparr>mem := (mem s)(new \<mapsto> CEntry (e\<lparr>enext := 0\<rparr>))\<rparr> = s" using new(2) by (simp add: fun_upd_idem)
    have ins: "immutable_cache_cache_wlocked_insert_exclusive Z c new s = Inr (True, ?s)"
      using pos_ok n new(2) ks hs w M(1)
      by (simp add: immutable_cache_cache_wlocked_insert_exclusive_def same hd_def)
    have oth: "chain (mem ?s) (slots s ! j) (cs ! j)" if "j < length cs" "j \<noteq> ?i" for j
    proof -
      have "set (cs ! j) \<inter> set (cs ! ?i) = {}" using table_disjoint [OF ok that(1) il(2)] that(2) by auto
      moreover have "chain (mem s) (slots s ! j) (cs ! j)" using ok that(1) unfolding table_ok_def slot_ok_def by blast
      ultimately show ?thesis using M(5) by simp
    qed
    have r: "sma_regions ?s = sma_regions s" by (rule sma_regions_keep) simp_all
    have em: "hd = (header s)\<lparr>hmem_size := hmem_size (header s) + entry_mem (mem s) new, nentries := nentries (header s) + 1,
      ninserts := ninserts (header s) + 1\<rparr>" by (simp add: hd_def entry_mem_def new(2))
    have t: "table_ok Z ?s (cs[?i := cs ! ?i @ [new]])" "cache_has Z ?s j a \<longleftrightarrow> cache_has Z s j a \<or> (j = k \<and> a = new)" for j a
      by (rule table_ok_append [OF ok refl il(2) new(1,5), of ?s p']; use False M new(6) oth r em in \<open>simp add: linked_def\<close>)+
    have "nhits hd = nhits (header s) \<and> nmisses hd = nmisses (header s) \<and> stime hd = stime (header s)" by (simp add: hd_def)
    with ins M(2,4) t have "\<exists>L cs'. immutable_cache_cache_wlocked_insert_exclusive Z c new s = Inr (True, s\<lparr>mem := M, slots := L, header := hd\<rparr>) \<and>
      linked (mem s) {new} M \<and> M new = mem s new \<and> length L = length (slots s) \<and>
      nhits hd = nhits (header s) \<and> nmisses hd = nmisses (header s) \<and> stime hd = stime (header s) \<and>
      table_ok Z (s\<lparr>mem := M, slots := L, header := hd\<rparr>) cs' \<and>
      (\<forall>j a. cache_has Z (s\<lparr>mem := M, slots := L, header := hd\<rparr>) j a \<longleftrightarrow> cache_has Z s j a \<or> (j = k \<and> a = new))"
      by (intro exI [of _ "(slots s)[?i := p']"] exI [of _ "cs[?i := cs ! ?i @ [new]]"]) simp
    with False show ?thesis unfolding if_not_P [OF False] by blast
  qed
qed

subsection \<open>Releasing an entry\<close>

lemma free_entry_ok:
  assumes wf: "shm_wf Z s" "shm_wf Z t" and p: "persisted s orig ks S good p t"
    and c: "immutable_cache_sma_contains_pointer (sma t) = immutable_cache_sma_contains_pointer (sma s)"
  shows "\<exists>u. free_entry p t = Inr u \<and> shm_wf Z u \<and> same_os t u \<and> mproc.more u = mproc.more t \<and> mem u = mem s \<and>
    sma_regions s \<subseteq> sma_regions u \<and> (lock_rc t = [] \<longrightarrow> sma_regions u = sma_regions s) \<and> sma_num (sma u) = sma_num (sma t) \<and> segs (sma u) = segs (sma t) \<and> sma_size (sma u) = sma_size (sma t)"
proof -
  obtain sz where r: "p \<notin> fst ` sma_regions s" "sma_regions t = insert (p, sz) (sma_regions s)" using p by (auto simp: persisted_def)
  obtain e where e: "mem t p = Some (CEntry e)" "emem_size e = int S" using p by (auto simp: persisted_def)
  have twf: "sma_wf t" and "(p, sz) \<in> sma_regions t" using wf(2) r(2) by (simp_all add: shm_wf_def)
  from sma_free_ok [OF this] obtain v where v: "immutable_cache_sma_free t p = Inr v" "kept t v"
    "sma_regions v \<in> {sma_regions t, sma_regions t - {(p, sz)}}" "lock_rc t = [] \<longrightarrow> sma_regions v = sma_regions t - {(p, sz)}"
    by (auto split: if_splits)
  define u where "u = v\<lparr>mem := (mem v) |` (- {p..<p + S})\<rparr>"
  have vm: "mem v = mem t" "mproc.more v = mproc.more t" using proc_more_mproc [of v t] v(2) by (simp_all add: kept_def)
  have m: "mem u = mem s"
  proof
    fix a show "mem u a = mem s a"
      using p by (cases "a \<in> dom (mem s)") (auto simp: u_def vm persisted_def restrict_map_def map_le_def dom_def)
  qed
  have ru: "sma_regions u = sma_regions v" by (rule sma_regions_keep) (simp_all add: u_def)
  have np: "(p, sz) \<notin> sma_regions s" using r(1) by force
  have rs: "sma_regions s \<subseteq> sma_regions u" using v(3) r(2) np unfolding ru by blast
  have rl: "lock_rc t = [] \<longrightarrow> sma_regions u = sma_regions s" using v(4) r(2) np unfolding ru by blast
  have so: "same_os t u" using v(2) by (simp add: kept_def same_os_def u_def)
  have uwf: "sma_wf u" using v(2) by (intro sma_wf_keep [of v u]) (simp_all add: kept_def u_def same_os_def)
  have k: "segs (sma u) = segs (sma t)" "sma_num (sma u) = sma_num (sma t)" "sma_size (sma u) = sma_size (sma t)"
    using v(2) by (simp_all add: kept_def u_def)
  have "immutable_cache_sma_contains_pointer (sma u) = immutable_cache_sma_contains_pointer (sma s)"
    using contains_pointer_cong [OF k(2,1)] c by simp
  then have "shm_wf Z u" by (intro linked_shm_wf [OF wf(1) uwf rs, of "{}"]) (simp_all add: m)
  moreover have "free_entry p t = Inr u" using e v(1) vm by (simp add: free_entry_def u_def)
  moreover have "mproc.more u = mproc.more t" using vm by (simp add: u_def)
  ultimately show ?thesis using so m rs rl k by blast
qed

subsection \<open>The whole store\<close>

text \<open>What every operation of the cache keeps.\<close>

definition cache_kept :: "zend_abi \<Rightarrow> 'a cproc_scheme \<Rightarrow> 'a cproc_scheme \<Rightarrow> bool" where
  "cache_kept Z s s' \<longleftrightarrow> cache_wf Z s' \<and> same_os s s' \<and> cache s' = cache s \<and> cproc.more s' = cproc.more s \<and>
     sma_num (sma s') = sma_num (sma s) \<and> segs (sma s') = segs (sma s) \<and> sma_size (sma s') = sma_size (sma s) \<and>
     preserves (mem s) (mem s')"

text \<open>The new entry and its key.\<close>

definition entry_stored where
  "entry_stored Z orig S good k p s' \<longleftrightarrow>
     (\<exists>ka z e. mem s' p = Some (CEntry e) \<and> same_entry (orig\<lparr>ekey := ka, eval := z, emem_size := int S\<rparr>) e \<and>
        str_at (mem s') ka k \<and> good (mem s') z)"

lemma table_reserved_keep:
  assumes c: "table_reserved s c" and r: "sma_regions s \<subseteq> sma_regions u"
    and d: "\<forall>(q, n) \<in> sma_regions s. dom (mem u) \<inter> {q..<q + n} \<subseteq> dom (mem s)"
  shows "table_reserved u c"
proof -
  obtain q n where q: "(q, n) \<in> sma_regions s" "q \<le> cshmaddr c" "cshmaddr c + sizeof_cache_header + 8 * nslots c \<le> q + n"
    "dom (mem s) \<inter> {q..<q + n} = {}" using c unfolding table_reserved_def by blast
  moreover have "dom (mem u) \<inter> {q..<q + n} = {}" using d q(1,4) by blast
  ultimately show ?thesis using r unfolding table_reserved_def by (intro bexI [of _ "(q, n)"]) auto
qed

lemma persisted_separate:
  assumes "sma_wf t" "persisted s orig ks S good p t" "(q, n) \<in> sma_regions s"
  shows "dom (mem t) \<inter> {q..<q + n} \<subseteq> dom (mem s)"
proof -
  obtain sz where r: "S \<le> sz" "p \<notin> fst ` sma_regions s" "sma_regions t = insert (p, sz) (sma_regions s)"
    using assms(2) by (auto simp: persisted_def)
  then have "(q, n) \<noteq> (p, sz)" using assms(3) by force
  then have "separate (q, n) (p, sz)" using sma_regions_separate [OF assms(1)] assms(3) r(3) by blast
  then have "{q..<q + n} \<inter> {p..<p + S} = {}" using r(1) by (auto simp: separate_def)
  then show ?thesis using assms(2) unfolding persisted_def by blast
qed

lemma cache_wfE:
  assumes "cache_wf Z s"
  obtains c cs where "cache s = Some c" "nslots c = length (slots s)" "0 < nslots c" "table_reserved s c" "table_ok Z s cs"
    "shm_wf Z s" "entry_level s = 0" "0 < length (slots s)"
  using assms by (auto simp: cache_wf_def)

lemma cache_kept_trans: "cache_kept Z s t \<Longrightarrow> cache_kept Z t u \<Longrightarrow> cache_kept Z s u"
  by (auto simp: cache_kept_def intro: same_os_trans preserves_trans)

text \<open>An operation that leaves the objects and the allocator alone.\<close>

lemma cache_kept_same:
  fixes s t :: "'a cproc_scheme"
  assumes wf: "cache_wf Z s" and t: "same_os s t" "sma t = sma s" "hdrs t = hdrs s" "proc.more t = proc.more s"
  shows "cache_kept Z s t"
proof -
  obtain c cs where c: "cache s = Some c" "nslots c = length (slots s)" "0 < nslots c" "table_reserved s c" "table_ok Z s cs"
    "shm_wf Z s" "entry_level s = 0" "0 < length (slots s)" using wf by (rule cache_wfE)
  note f = proc_more_cproc [OF t(4)]
  have r: "sma_regions t = sma_regions s" by (rule sma_regions_keep [OF t(2,3)])
  have "shm_wf Z t" by (rule linked_shm_wf [OF c(6), of _ "{}"]) (use c(6) sma_wf_keep [OF _ t(2,3,1)] in \<open>simp_all add: shm_wf_def r t f\<close>)
  moreover have "table_ok Z t cs" by (rule table_ok_keep [OF c(5)]) (simp_all add: f r)
  moreover have "table_reserved t c" by (rule table_reserved_keep [OF c(4)]) (auto simp: f r)
  ultimately show ?thesis using t c f by (simp add: cache_kept_def cache_wf_def same_os_def) blast
qed

text \<open>The cache after a copy that has not been linked yet.\<close>

lemma cache_wf_persisted:
  assumes wf: "cache_wf Z s" and t: "persist_kept Z s t" "persisted s orig ks S good p t"
  shows "cache_wf Z t" "cache_has Z t k a \<longleftrightarrow> cache_has Z s k a" "cache_kept Z s t"
proof -
  obtain c cs where c: "cache s = Some c" "nslots c = length (slots s)" "0 < nslots c" "table_reserved s c" "table_ok Z s cs"
    "shm_wf Z s" "entry_level s = 0" "0 < length (slots s)" using wf by (rule cache_wfE)
  have m: "cache t = cache s" "header t = header s" "slots t = slots s" "cproc.more t = cproc.more s"
    using mproc_more_cproc [of t s] t(1) by (simp_all add: persist_kept_def)
  have tw: "shm_wf Z t" "same_os s t" using t(1) by (simp_all add: persist_kept_def)
  have le: "mem s \<subseteq>\<^sub>m mem t" and rs: "sma_regions s \<subseteq> sma_regions t" using t(2) by (auto simp: persisted_def)
  have pr: "preserves (mem s) (mem t)" by (rule preserves_map_le [OF le])
  have tab: "table_ok Z t cs"
    by (rule table_ok_keep [OF c(5) pr]) (use chain_mono [OF _ le] m rs in auto)
  have "table_reserved t c"
    by (rule table_reserved_keep [OF c(4) rs]) (use persisted_separate [OF _ t(2)] tw(1) in \<open>fastforce simp: shm_wf_def\<close>)
  then show w: "cache_wf Z t" using c tw tab m unfolding cache_wf_def by (simp add: same_os_def) blast
  show "cache_has Z t k a \<longleftrightarrow> cache_has Z s k a" by (rule cache_has_keep [OF c(5) tab c(8) m(3) pr])
  show "cache_kept Z s t" using w tw(2) m pr t(1) by (simp add: cache_kept_def persist_kept_def)
qed

text \<open>Insertion under the lock.\<close>

lemma insert_locked_ok:
  assumes wf: "cache_wf Z t" and c: "cache t = Some c" and tab: "table_ok Z t cs" "p \<notin> set (concat cs)" "p \<in> fst ` sma_regions t"
    and p: "key_at Z (mem t) p k" "mem t p = Some (CEntry e)" "enext e = 0" "p \<noteq> 0" "immutable_cache_sma_contains_pointer (sma t) p"
    and u: "wlocked_os t h u" "sma u = sma t" "hdrs u = hdrs t" "proc.more u = proc.more t"
  shows "\<exists>ret u'. immutable_cache_cache_wlocked_insert_exclusive Z c p u = Inr (ret, u') \<and> ret = (\<nexists>a. cache_has Z t k a) \<and>
    cache_kept Z t (immutable_cache_cache_wunlock h u') \<and>
    sma (immutable_cache_cache_wunlock h u') = sma t \<and> hdrs (immutable_cache_cache_wunlock h u') = hdrs t \<and>
    (if ret then linked (mem t) {p} (mem u') \<and> mem u' p = mem t p \<and> nhits (header u') = nhits (header t) \<and> nmisses (header u') = nmisses (header t) \<and>
       stime (header u') = stime (header t) \<and>
       (\<forall>j a. cache_has Z (immutable_cache_cache_wunlock h u') j a \<longleftrightarrow> cache_has Z t j a \<or> (j = k \<and> a = p))
     else proc.more u' = proc.more t)"
proof -
  obtain c' cs' where w: "cache t = Some c'" "nslots c' = length (slots t)" "0 < nslots c'" "table_reserved t c'" "table_ok Z t cs'"
    "shm_wf Z t" "entry_level t = 0" "0 < length (slots t)" using wf by (rule cache_wfE)
  have sw: "sma_wf t" using w(6) by (simp add: shm_wf_def)
  note f = proc_more_cproc [OF u(4)]
  have ru: "sma_regions u = sma_regions t" by (rule sma_regions_keep [OF u(2,3)])
  have tu: "table_ok Z u cs" by (rule table_ok_keep [OF tab(1)]) (simp_all add: f ru)
  have hu: "cache_has Z u j a \<longleftrightarrow> cache_has Z t j a" for j a by (simp add: cache_has_def f)
  have wr: "shm_writable u" using u(1,2) by (simp add: shm_writable_def wlocked_os_def Let_def)
  have hh: "heap_hashed Z (mem u)" using w(6) by (simp add: shm_wf_def f)
  have cc: "nslots c = length (slots u)" "0 < nslots c" using w c f by simp_all
  note ins = insert_exclusive_ok [OF tu cc wr _ _ p(3,4) tab(2) _ hh, unfolded f(1) ru hu, OF p(1,2) tab(3)]
  show ?thesis
  proof (cases "\<exists>a. cache_has Z t k a")
    case True
    have s: "same_os t (immutable_cache_cache_wunlock h u)" by (rule cache_wunlock_same [OF sw u(1) _ w(7)]) (simp add: u(2))
    let ?w = "immutable_cache_cache_wunlock h u"
    have g: "sma ?w = sma t" "hdrs ?w = hdrs t" "proc.more ?w = proc.more t" using u by simp_all
    have "cache_kept Z t ?w" by (rule cache_kept_same [OF wf s g])
    with True ins g u(4) show ?thesis by (intro exI [of _ False] exI [of _ u]) simp
  next
    case False
    obtain M L hd cs'' where M: "immutable_cache_cache_wlocked_insert_exclusive Z c p u = Inr (True, u\<lparr>mem := M, slots := L, header := hd\<rparr>)"
      "linked (mem t) {p} M" "M p = mem t p" "length L = length (slots t)"
      "nhits hd = nhits (header t)" "nmisses hd = nmisses (header t)" "stime hd = stime (header t)"
      "table_ok Z (u\<lparr>mem := M, slots := L, header := hd\<rparr>) cs''"
      "\<forall>j a. cache_has Z (u\<lparr>mem := M, slots := L, header := hd\<rparr>) j a \<longleftrightarrow> cache_has Z t j a \<or> (j = k \<and> a = p)"
      using ins False by (auto simp: f)
    let ?u = "u\<lparr>mem := M, slots := L, header := hd\<rparr>"
    let ?w = "immutable_cache_cache_wunlock h ?u"
    have "wlocked_os t h ?u" using u(1) by (simp add: wlocked_os_def Let_def)
    then have s: "same_os t ?w" by (rule cache_wunlock_same [OF sw _ _ w(7)]) (simp add: u(2))
    have g: "sma ?w = sma t" "hdrs ?w = hdrs t" using u by simp_all
    have wm: "mem ?w = M" "cache ?w = cache t" "header ?w = hd" "slots ?w = L" "cproc.more ?w = cproc.more t"
      using proc_more_cproc [of ?w ?u] f by simp_all
    have r: "sma_regions ?w = sma_regions t" by (rule sma_regions_keep [OF g])
    have "shm_wf Z ?w"
      by (rule linked_shm_wf [OF w(6) sma_wf_keep [OF sw g s], of "{p}"]) (simp_all add: r g(1) wm M(2) p(5) u(2))
    moreover have "table_ok Z ?w cs''" by (rule table_ok_keep [OF M(8)]) (simp_all add: wm r ru sma_regions_keep [of ?u u])
    moreover have "table_reserved ?w c'"
      by (rule table_reserved_keep [OF w(4)]) (use M(2) in \<open>auto simp: r wm linked_def\<close>)
    moreover have "entry_level ?w = 0" using s w(7) by (simp add: same_os_def)
    ultimately have "cache_wf Z ?w" unfolding cache_wf_def wm M(4) using w(1-3) by blast
    then have "cache_kept Z t ?w" using s g wm M(2) by (simp add: cache_kept_def linked_def)
    moreover have "cache_has Z ?w j a \<longleftrightarrow> cache_has Z ?u j a" for j a by (simp add: cache_has_def wm)
    ultimately show ?thesis using M False g by (intro exI [of _ True] exI [of _ ?u]) simp
  qed
qed

text \<open>A store that fails changes nothing but the allocator.\<close>

definition store_failed :: "zend_abi \<Rightarrow> 'a cproc_scheme \<Rightarrow> 'a cproc_scheme \<Rightarrow> bool" where
  "store_failed Z s s' \<longleftrightarrow> cache_kept Z s s' \<and> mem s' = mem s \<and> slots s' = slots s \<and> header s' = header s \<and>
     (lock_rc s = [] \<longrightarrow> sma_regions s' = sma_regions s)"

lemma store_failedI:
  fixes s u :: "'a cproc_scheme"
  assumes wf: "cache_wf Z s" and u: "shm_wf Z u" "same_os s u" "mproc.more u = mproc.more s" "mem u = mem s"
      "sma_regions s \<subseteq> sma_regions u" "lock_rc s = [] \<longrightarrow> sma_regions u = sma_regions s"
      "sma_num (sma u) = sma_num (sma s)" "segs (sma u) = segs (sma s)" "sma_size (sma u) = sma_size (sma s)"
  shows "store_failed Z s u"
proof -
  obtain c cs where c: "cache s = Some c" "nslots c = length (slots s)" "0 < nslots c" "table_reserved s c" "table_ok Z s cs"
    "shm_wf Z s" "entry_level s = 0" "0 < length (slots s)" using wf by (rule cache_wfE)
  note f = mproc_more_cproc [OF u(3)]
  have "table_ok Z u cs" by (rule table_ok_keep [OF c(5)]) (simp_all add: f u)
  moreover have "table_reserved u c" by (rule table_reserved_keep [OF c(4) u(5)]) (auto simp: u(4))
  ultimately have "cache_wf Z u" using c f u(1,2) by (simp add: cache_wf_def same_os_def) blast
  then show ?thesis using u f by (simp add: store_failed_def cache_kept_def)
qed

text \<open>An entry that could not be linked is released.\<close>

lemma store_release:
  fixes s t u :: "'a cproc_scheme"
  assumes wf: "cache_wf Z s" and t: "persist_kept Z s t" "persisted s orig ks S good p t"
    and u: "same_os t u" "sma u = sma t" "hdrs u = hdrs t" "proc.more u = proc.more t"
  shows "\<exists>s'. free_entry p u = Inr s' \<and> store_failed Z s s'"
proof -
  have sw: "shm_wf Z s" "shm_wf Z t" using wf t(1) by (simp_all add: cache_wf_def persist_kept_def)
  note f = proc_more_mproc [OF u(4)]
  have r: "sma_regions u = sma_regions t" by (rule sma_regions_keep [OF u(2,3)])
  have uw: "shm_wf Z u" by (rule linked_shm_wf [OF sw(2), of _ "{}"]) (use sw(2) sma_wf_keep [OF _ u(2,3,1)] in \<open>simp_all add: shm_wf_def r u f\<close>)
  have pu: "persisted s orig ks S good p u" using t(2) unfolding persisted_def f r .
  have cp: "immutable_cache_sma_contains_pointer (sma u) = immutable_cache_sma_contains_pointer (sma s)"
    using t(1) u(2) by (intro contains_pointer_cong) (simp_all add: persist_kept_def)
  obtain s' where s': "free_entry p u = Inr s'" "shm_wf Z s'" "same_os u s'" "mproc.more s' = mproc.more u" "mem s' = mem s"
    "sma_regions s \<subseteq> sma_regions s'" "lock_rc u = [] \<longrightarrow> sma_regions s' = sma_regions s" "sma_num (sma s') = sma_num (sma u)"
    "segs (sma s') = segs (sma u)" "sma_size (sma s') = sma_size (sma u)"
    using free_entry_ok [OF sw(1) uw pu cp] by blast
  have so: "same_os s u" using t(1) u(1) same_os_trans by (auto simp: persist_kept_def)
  then have "same_os s s'" using s'(3) same_os_trans by blast
  with s' so t(1) u(2) f(2) show ?thesis
    by (intro exI [of _ s'] conjI store_failedI [OF wf]) (simp_all add: persist_kept_def same_os_def)
qed

text \<open>The copied entry before it is linked.\<close>

lemma persisted_entry:
  assumes k: "persist_kept Z s t" and p: "persisted s orig ks S good p t" and o: "enext orig = 0" and wf: "cache_wf Z s"
  obtains ka z where "mem t p = Some (CEntry (orig\<lparr>ekey := ka, eval := z, emem_size := int S\<rparr>))" "str_at (mem t) ka ks" "good (mem t) z"
    "key_at Z (mem t) p ks" "immutable_cache_sma_contains_pointer (sma t) p" "p \<in> fst ` sma_regions t" "p \<noteq> 0"
    "\<forall>cs. table_ok Z s cs \<longrightarrow> p \<notin> set (concat cs)"
proof -
  obtain ka z sz where e: "mem t p = Some (CEntry (orig\<lparr>ekey := ka, eval := z, emem_size := int S\<rparr>))" "str_at (mem t) ka ks" "good (mem t) z"
    "p \<notin> fst ` sma_regions s" "sma_regions t = insert (p, sz) (sma_regions s)" "0 < S" "S \<le> sz"
    using p by (auto simp: persisted_def)
  have tw: "sma_wf t" "shm_closed Z (sma t) (mem t)" using k by (simp_all add: persist_kept_def shm_wf_def)
  have pr: "(p, sz) \<in> sma_regions t" using e(5) by simp
  have cp: "immutable_cache_sma_contains_pointer (sma t) p" by (rule region_contained [OF tw(1) pr]) (use e in simp_all)
  have "immutable_cache_sma_contains_pointer (sma t) ka" using shm_closedD [OF tw(2) e(1) cp] by simp
  with e(2) shm_closedD [OF tw(2)] have "key_at Z (mem t) p ks" using e(1) by (fastforce simp: key_at_def str_at_def)
  moreover have "p \<noteq> 0" using sma_regions_bounds(1) [OF tw(1) pr] by simp
  moreover have "p \<notin> set (concat cs)" if "table_ok Z s cs" for cs
  proof -
    have "set (concat cs) \<subseteq> fst ` sma_regions s" using that unfolding table_ok_def by blast
    with e(4) show ?thesis by blast
  qed
  moreover have "p \<in> fst ` sma_regions t" using e(5) by simp
  ultimately show thesis using that e(1-3) cp by blast
qed

text \<open>A successful store: the key was not there, now it is, and nothing else has changed.\<close>

definition store_done where
  "store_done Z orig S good k s s' \<longleftrightarrow> cache_kept Z s s' \<and> (\<nexists>a. cache_has Z s k a) \<and>
     nhits (header s') = nhits (header s) \<and> nmisses (header s') = nmisses (header s) \<and>
     (\<exists>q. entry_stored Z orig S good k q s' \<and> (\<forall>j a. cache_has Z s' j a \<longleftrightarrow> cache_has Z s j a \<or> (j = k \<and> a = q)))"

lemma cache_store_ok:
  assumes wf: "cache_wf Z s" and c: "cache s = Some c" and k: "mem s key = Some (CStr ks)"
    and p: "immutable_cache_persist fuel Z (serializer c) (immutable_cache_cache_init_entry key val now) s = Inr (p, t)"
      "persist_post Z s (immutable_cache_cache_init_entry key val now) (zstr_val ks) S good p t"
    and good: "\<forall>H H' z. good H z \<longrightarrow> preserves H H' \<longrightarrow> good H' z"
  shows "\<exists>ret s'. immutable_cache_cache_store fuel Z now key val s = Inr (ret, s') \<and>
    (if ret then store_done Z (immutable_cache_cache_init_entry key val now) S good (zstr_val ks) s s' else store_failed Z s s') \<and>
    (\<not> ret \<longrightarrow> lock_rc s = [] \<longrightarrow> (\<exists>a. cache_has Z s (zstr_val ks) a) \<or> (\<forall>i < sma_num (sma s). \<not> fits (hdrs s ! i) S))"
proof -
  let ?o = "immutable_cache_cache_init_entry key val now" and ?k = "zstr_val ks"
  obtain cs where cs: "table_ok Z s cs" "entry_level s = 0" using wf by (rule cache_wfE)
  have tk: "persist_kept Z s t" using p(2) by (simp add: persist_post_def)
  show ?thesis
  proof (cases "p = 0")
    case True
    have "store_failed Z s t" by (rule store_failedI [OF wf]) (use True p(2) tk in \<open>simp_all add: persist_post_def persist_kept_def\<close>)
    then show ?thesis using True p c
      by (intro exI [of _ False] exI [of _ t]) (simp add: immutable_cache_cache_store_def persist_post_def)
  next
    case False
    then have ps: "persisted s ?o ?k S good p t" using p(2) by (simp add: persist_post_def)
    have nx: "enext ?o = 0" by (simp add: immutable_cache_cache_init_entry_def)
    obtain ka z where e: "mem t p = Some (CEntry (?o\<lparr>ekey := ka, eval := z, emem_size := int S\<rparr>))" "str_at (mem t) ka ?k" "good (mem t) z"
      "key_at Z (mem t) p ?k" "immutable_cache_sma_contains_pointer (sma t) p" "p \<in> fst ` sma_regions t" "p \<noteq> 0"
      "\<forall>cs. table_ok Z s cs \<longrightarrow> p \<notin> set (concat cs)" by (rule persisted_entry [OF tk ps nx wf])
    note w = cache_wf_persisted [OF wf tk ps]
    have mt: "slots t = slots s" "header t = header s" "cache t = Some c"
      using mproc_more_cproc [of t s] tk c by (simp_all add: persist_kept_def)
    have le: "mem s \<subseteq>\<^sub>m mem t" and rs: "sma_regions s \<subseteq> sma_regions t" using ps by (auto simp: persisted_def)
    have tt: "table_ok Z t cs"
      by (rule table_ok_keep [OF cs(1) preserves_map_le [OF le]]) (use chain_mono [OF _ le] mt rs in auto)
    have kt: "mem t key = Some (CStr ks)" using le k by (metis domI map_le_def)
    have sw: "sma_wf t" and lv: "entry_level t = 0" using tk cs(2) by (simp_all add: persist_kept_def shm_wf_def same_os_def)
    let ?h = "ZSTR_HASH Z ks"
    show ?thesis
      using sw lv
    proof (cases rule: cache_wlock_cases [where h = ?h])
      case (fail u)
      obtain s' where s': "free_entry p u = Inr s'" "store_failed Z s s'" using store_release [OF wf tk ps fail(2-5)] by blast
      have "lock_rc s \<noteq> []" using fail(6) tk by (auto simp: persist_kept_def same_os_def)
      then show ?thesis using s' False p c kt fail(1)
        by (intro exI [of _ False] exI [of _ s']) (simp add: immutable_cache_cache_store_def)
    next
      case (ok u)
      let ?w = "\<lambda>u. immutable_cache_cache_wunlock ?h u"
      obtain ret u' where u': "immutable_cache_cache_wlocked_insert_exclusive Z c p u = Inr (ret, u')" "ret = (\<nexists>a. cache_has Z t ?k a)"
        "cache_kept Z t (?w u')" "sma (?w u') = sma t" "hdrs (?w u') = hdrs t"
        "if ret then linked (mem t) {p} (mem u') \<and> mem u' p = mem t p \<and> nhits (header u') = nhits (header t) \<and>
             nmisses (header u') = nmisses (header t) \<and> stime (header u') = stime (header t) \<and>
             (\<forall>j a. cache_has Z (?w u') j a \<longleftrightarrow> cache_has Z t j a \<or> (j = ?k \<and> a = p))
           else proc.more u' = proc.more t"
        using insert_locked_ok [OF w(1) mt(3) tt e(8) [rule_format, OF cs(1)] e(6,4,1) _ e(7,5) ok(2-5)] nx by auto
      have so: "same_os t (?w u')" using u'(3) by (simp add: cache_kept_def)
      show ?thesis
      proof (cases ret)
        case True
        have f: "mem (?w u') = mem u'" "header (?w u') = header u'" using proc_more_cproc [of "?w u'" u'] by simp_all
        have l: "linked (mem t) {p} (mem u')" "mem u' p = mem t p" using u'(6) True by simp_all
        then have pr: "preserves (mem t) (mem u')" by (simp add: linked_def)
        have es: "entry_stored Z ?o S good ?k p (?w u')"
          unfolding entry_stored_def f l(2)
          using e(1) preserves_str_at [OF pr e(2)] good e(3) pr by (auto simp: same_entry_def)
        have "cache_kept Z s (?w u')" by (rule cache_kept_trans [OF w(3) u'(3)])
        then have "store_done Z ?o S good ?k s (?w u')"
          unfolding store_done_def using es u'(2,6) True w(2) f mt by auto
        then show ?thesis using True False p c kt ok(1) u'(1)
          by (intro exI [of _ True] exI [of _ "?w u'"]) (simp add: immutable_cache_cache_store_def)
      next
        case nr: False
        then have "proc.more (?w u') = proc.more t" using u'(6) by simp
        then obtain s' where s': "free_entry p (?w u') = Inr s'" "store_failed Z s s'"
          using store_release [OF wf tk ps so u'(4,5)] by blast
        moreover have "\<exists>a. cache_has Z s ?k a" using u'(2) nr w(2) by auto
        ultimately show ?thesis using nr False p c kt ok(1) u'(1)
          by (intro exI [of _ False] exI [of _ s']) (simp add: immutable_cache_cache_store_def)
      qed
    qed
  qed
qed

end
