(* ===== verification/Cache_Lookup.thy ===== *)
theory Cache_Lookup
  imports Cache_Store
begin

text \<open>
  The lookups and the reports of the cache: they end, they find exactly what has been stored, and
  they change nothing but statistics, and those only while the memory is not protected.
\<close>

subsection \<open>What a lookup may change\<close>

lemma cache_kept_stats:
  fixes s t :: "'a cproc_scheme"
  assumes wf: "cache_wf Z s" and t: "same_os s t" "sma t = sma s" "hdrs t = hdrs s" "cache t = cache s" "slots t = slots s"
      "cproc.more t = cproc.more s" "linked (mem s) {} (mem t)" "\<forall>p as. chain (mem s) p as \<longrightarrow> chain (mem t) p as"
    and h: "nentries (header t) = nentries (header s)" "ninserts (header t) = ninserts (header s)" "hmem_size (header t) = hmem_size (header s)"
  shows "cache_kept Z s t \<and> (\<forall>k a. cache_has Z t k a \<longleftrightarrow> cache_has Z s k a)"
proof -
  obtain c cs where c: "cache s = Some c" "nslots c = length (slots s)" "0 < nslots c" "table_reserved s c" "table_ok Z s cs"
    "shm_wf Z s" "entry_level s = 0" "0 < length (slots s)" using wf by (rule cache_wfE)
  have r: "sma_regions t = sma_regions s" by (rule sma_regions_keep [OF t(2,3)])
  have pr: "preserves (mem s) (mem t)" and d: "dom (mem t) = dom (mem s)" using t(7) by (simp_all add: linked_def)
  have "shm_wf Z t"
    by (rule linked_shm_wf [OF c(6) _ _ _ t(7)]) (use c(6) sma_wf_keep [OF _ t(2,3,1)] in \<open>simp_all add: shm_wf_def r t(2)\<close>)
  moreover have tt: "table_ok Z t cs" by (rule table_ok_keep [OF c(5) pr t(8)]) (simp_all add: t h r)
  moreover have "table_reserved t c" by (rule table_reserved_keep [OF c(4)]) (auto simp: d r)
  ultimately have "cache_wf Z t" using t c by (simp add: cache_wf_def same_os_def) blast
  then show ?thesis using t pr cache_has_keep [OF c(5) tt c(8) t(5) pr] by (simp add: cache_kept_def)
qed

text \<open>The entry and the header after a lookup with statistics.\<close>

definition hit_entry :: "int \<Rightarrow> immutable_cache_cache_entry_t \<Rightarrow> immutable_cache_cache_entry_t" where
  "hit_entry now e = e\<lparr>enhits := enhits e + 1, eatime := now\<rparr>"

definition count_lookup :: "bool \<Rightarrow> immutable_cache_cache_header_t \<Rightarrow> immutable_cache_cache_header_t" where
  "count_lookup hit h = (if hit then h\<lparr>nhits := nhits h + 1\<rparr> else h\<lparr>nmisses := nmisses h + 1\<rparr>)"

definition touched :: "int \<Rightarrow> addr \<Rightarrow> heap \<Rightarrow> heap" where
  "touched now p H = (case H p of Some (CEntry e) \<Rightarrow> H(p \<mapsto> CEntry (hit_entry now e)) | _ \<Rightarrow> H)"

definition looked_up :: "zend_abi \<Rightarrow> string \<Rightarrow> int \<Rightarrow> 'a cproc_scheme \<Rightarrow> addr \<Rightarrow> 'a cproc_scheme \<Rightarrow> bool" where
  "looked_up Z k now s p s' \<longleftrightarrow> cache_kept Z s s' \<and> (\<forall>j a. cache_has Z s' j a \<longleftrightarrow> cache_has Z s j a) \<and> slots s' = slots s \<and>
     (if p = 0 then \<nexists>a. cache_has Z s k a else cache_has Z s k p) \<and>
     mem s' = (if p = 0 \<or> protect_memory s then mem s else touched now p (mem s)) \<and>
     header s' = (if protect_memory s then header s else count_lookup (p \<noteq> 0) (header s))"

lemma touched_ok:
  "linked H {} (touched now p H)" "chain H q as \<Longrightarrow> chain (touched now p H) q as"
proof -
  show "linked H {} (touched now p H)"
    by (auto simp: touched_def hit_entry_def same_entry_def intro!: linked_upd split: option.splits cell.splits)
  show "chain H q as \<Longrightarrow> chain (touched now p H) q as"
    by (auto simp: touched_def hit_entry_def intro!: chain_stats split: option.splits cell.splits)
qed

subsection \<open>The search\<close>

lemma find_chain_ok:
  assumes wf: "cache_wf Z s" and c: "cache s = Some c" and ks: "str_hashed Z ks"
  shows "\<exists>p. immutable_cache_cache_hash_slot Z (nslots c) ks = (ZSTR_HASH Z ks, hash_slot Z (length (slots s)) (zstr_val ks)) \<and>
    find_in_chain (mem s) ks (ZSTR_HASH Z ks) (slots s ! hash_slot Z (length (slots s)) (zstr_val ks)) = Some (Inr p) \<and>
    (if p = 0 then \<nexists>a. cache_has Z s (zstr_val ks) a
     else cache_has Z s (zstr_val ks) p \<and> (\<exists>e. mem s p = Some (CEntry e)))"
proof -
  obtain c' cs where w: "cache s = Some c'" "nslots c' = length (slots s)" "0 < nslots c'" "table_reserved s c'" "table_ok Z s cs"
    "shm_wf Z s" "entry_level s = 0" "0 < length (slots s)" using wf by (rule cache_wfE)
  note so = table_slot [OF w(5,8), of "zstr_val ks"] and h = ZSTR_HASH_eq [OF ks]
  have "chain (mem s) (slots s ! hash_slot Z (length (slots s)) (zstr_val ks)) (cs ! hash_slot Z (length (slots s)) (zstr_val ks))"
    using so by (simp add: slot_ok_def)
  from find_in_chain_ok [OF this slot_ok_keyed [OF so] h] obtain p where
    p: "find_in_chain (mem s) ks (ZSTR_HASH Z ks) (slots s ! hash_slot Z (length (slots s)) (zstr_val ks)) = Some (Inr p)"
      "if p = 0 then \<forall>b \<in> set (cs ! hash_slot Z (length (slots s)) (zstr_val ks)). \<not> key_at Z (mem s) b (zstr_val ks)
       else p \<in> set (cs ! hash_slot Z (length (slots s)) (zstr_val ks)) \<and> key_at Z (mem s) p (zstr_val ks)" by blast
  have "immutable_cache_cache_hash_slot Z (nslots c) ks = (ZSTR_HASH Z ks, hash_slot Z (length (slots s)) (zstr_val ks))"
    using w(1,2) c by (simp add: immutable_cache_cache_hash_slot_def Let_def hash_slot_def h)
  with p show ?thesis
    using cache_has_iff [OF w(5,8), of "zstr_val ks"] key_at_entry by (intro exI [of _ p]) auto
qed

text \<open>The search under the lock, with statistics.\<close>

lemma rlocked_find_ok:
  fixes s u :: "'a cproc_scheme"
  assumes wf: "cache_wf Z s" and c: "cache s = Some c" and ks: "str_hashed Z ks"
    and u: "sma u = sma s" "proc.more u = proc.more s" "writable u = writable s" "protect_memory u = protect_memory s"
  shows "\<exists>p. immutable_cache_cache_rlocked_find_incref Z c ks now u =
      Inr (p, u\<lparr>mem := if p = 0 \<or> protect_memory s then mem s else touched now p (mem s),
                header := if protect_memory s then header s else count_lookup (p \<noteq> 0) (header s)\<rparr>) \<and>
    (if p = 0 then \<nexists>a. cache_has Z s (zstr_val ks) a else cache_has Z s (zstr_val ks) p)"
proof -
  note f = proc_more_cproc [OF u(2)]
  have w: "shm_writable u" if "\<not> protect_memory s"
    using wf that u(1,3) by (simp add: cache_wf_def shm_wf_def sma_wf_def shm_writable_def)
  obtain p where p: "immutable_cache_cache_hash_slot Z (nslots c) ks = (ZSTR_HASH Z ks, hash_slot Z (length (slots s)) (zstr_val ks))"
    "find_in_chain (mem s) ks (ZSTR_HASH Z ks) (slots s ! hash_slot Z (length (slots s)) (zstr_val ks)) = Some (Inr p)"
    "if p = 0 then \<nexists>a. cache_has Z s (zstr_val ks) a else cache_has Z s (zstr_val ks) p \<and> (\<exists>e. mem s p = Some (CEntry e))"
    using find_chain_ok [OF wf c ks] by blast
  have same: "u\<lparr>mem := mem s, header := header s\<rparr> = u" "u\<lparr>mem := mem s\<rparr> = u" using f(1,3) by (cases u, simp)+
  show ?thesis
  proof (intro exI [of _ p] conjI)
    show "if p = 0 then \<nexists>a. cache_has Z s (zstr_val ks) a else cache_has Z s (zstr_val ks) p" using p(3) by simp
    show "immutable_cache_cache_rlocked_find_incref Z c ks now u =
      Inr (p, u\<lparr>mem := if p = 0 \<or> protect_memory s then mem s else touched now p (mem s),
                header := if protect_memory s then header s else count_lookup (p \<noteq> 0) (header s)\<rparr>)"
      using p w u(4) same f
      by (cases "p = 0"; cases "protect_memory s")
        (auto simp: immutable_cache_cache_rlocked_find_incref_def immutable_cache_cache_rlocked_find_def count_lookup_def touched_def hit_entry_def)
  qed
qed

subsection \<open>The lookups\<close>

lemma looked_upI:
  fixes s u :: "'a cproc_scheme"
  assumes wf: "cache_wf Z s" and p: "if p = 0 then \<nexists>a. cache_has Z s k a else cache_has Z s k p"
    and t: "same_os s t" "sma t = sma s" "hdrs t = hdrs s" "proc.more t = proc.more (u\<lparr>mem := if p = 0 \<or> protect_memory s then mem s else touched now p (mem s),
                header := if protect_memory s then header s else count_lookup (p \<noteq> 0) (header s)\<rparr>)" "proc.more u = proc.more s"
  shows "looked_up Z k now s p t"
proof -
  note f = proc_more_cproc [OF t(5)] proc_more_cproc [OF t(4)]
  have "cache_kept Z s t \<and> (\<forall>k a. cache_has Z t k a \<longleftrightarrow> cache_has Z s k a)"
    by (rule cache_kept_stats [OF wf t(1-3)]) (use f in \<open>auto simp: touched_ok count_lookup_def\<close>)
  then show ?thesis using f p by (simp add: looked_up_def)
qed

text \<open>A lookup fails when it cannot take the lock; then it changes nothing.\<close>

definition lock_refused :: "zend_abi \<Rightarrow> 'a cproc_scheme \<Rightarrow> 'a cproc_scheme \<Rightarrow> bool" where
  "lock_refused Z s s' \<longleftrightarrow> lock_rc s \<noteq> [] \<and> cache_kept Z s s' \<and> proc.more s' = proc.more s"

lemma cache_find_ok:
  assumes wf: "cache_wf Z s" and k: "mem s key = Some (CStr ks)"
  shows "\<exists>p s'. immutable_cache_cache_find Z key now s = Inr (p, s') \<and>
    (looked_up Z (zstr_val ks) now s p s' \<or> p = 0 \<and> lock_refused Z s s')"
proof -
  obtain c where c: "cache s = Some c" "entry_level s = 0" using wf by (rule cache_wfE)
  have hk: "str_hashed Z ks" using wf k by (auto simp: cache_wf_def shm_wf_def heap_hashed_def)
  let ?h = "ZSTR_HASH Z ks"
  show ?thesis
    using c(2)
  proof (cases rule: cache_rlock_cases [where h = ?h])
    case (fail u)
    then show ?thesis using c(1) k cache_kept_same [OF wf fail(2-5)]
      by (intro exI [of _ 0] exI [of _ u]) (simp add: immutable_cache_cache_find_def lock_refused_def)
  next
    case (ok u)
    obtain p where p: "immutable_cache_cache_rlocked_find_incref Z c ks now u =
      Inr (p, u\<lparr>mem := if p = 0 \<or> protect_memory s then mem s else touched now p (mem s),
                header := if protect_memory s then header s else count_lookup (p \<noteq> 0) (header s)\<rparr>)"
      "if p = 0 then \<nexists>a. cache_has Z s (zstr_val ks) a else cache_has Z s (zstr_val ks) p"
      using rlocked_find_ok [OF wf c(1) hk ok(2,4-6)] by blast
    let ?u = "u\<lparr>mem := if p = 0 \<or> protect_memory s then mem s else touched now p (mem s),
                header := if protect_memory s then header s else count_lookup (p \<noteq> 0) (header s)\<rparr>"
    have so: "same_os s (immutable_cache_cache_runlock ?h ?u)" by (rule ok(7)) (simp_all add: ok(2) os.defs)
    have "looked_up Z (zstr_val ks) now s p (immutable_cache_cache_runlock ?h ?u)"
      by (rule looked_upI [OF wf p(2) so _ _ _ ok(4)]) (simp_all add: ok(2,3))
    then show ?thesis using c(1) k ok(1) p(1)
      by (intro exI [of _ p] exI [of _ "immutable_cache_cache_runlock ?h ?u"]) (simp add: immutable_cache_cache_find_def)
  qed
qed

text \<open>Fetching is finding and reading the value; the two functions take the same steps.\<close>

lemma fetch_is_find:
  "immutable_cache_cache_fetch Z key now s =
     ebind (immutable_cache_cache_find Z key now s) (\<lambda>(p, s'). case cache s of
       None \<Rightarrow> Inr (False, None, s')
     | Some c \<Rightarrow> if p = 0 then Inr (False, None, s')
         else ebind (immutable_cache_cache_entry_fetch_zval Z c p (mem s')) (\<lambda>(r, v). Inr (r, Some v, s')))"
  by (auto simp: immutable_cache_cache_fetch_def immutable_cache_cache_find_def ebind_def Let_def split: option.splits sum.splits prod.splits)

lemma cache_exists_ok:
  assumes wf: "cache_wf Z s" and k: "mem s key = Some (CStr ks)"
  shows "\<exists>r s'. immutable_cache_cache_exists Z key now s = Inr (r, s') \<and> cache_kept Z s s' \<and> proc.more s' = proc.more s \<and>
    (r = (\<exists>a. cache_has Z s (zstr_val ks) a) \<or> \<not> r \<and> lock_rc s \<noteq> [])"
proof -
  obtain c where c: "cache s = Some c" "entry_level s = 0" using wf by (rule cache_wfE)
  have hk: "str_hashed Z ks" using wf k by (auto simp: cache_wf_def shm_wf_def heap_hashed_def)
  let ?h = "ZSTR_HASH Z ks"
  show ?thesis
    using c(2)
  proof (cases rule: cache_rlock_cases [where h = ?h])
    case (fail u)
    then show ?thesis using c(1) k cache_kept_same [OF wf fail(2-5)]
      by (intro exI [of _ False] exI [of _ u]) (simp add: immutable_cache_cache_exists_def)
  next
    case (ok u)
    obtain p where p: "immutable_cache_cache_hash_slot Z (nslots c) ks = (?h, hash_slot Z (length (slots s)) (zstr_val ks))"
      "find_in_chain (mem s) ks ?h (slots s ! hash_slot Z (length (slots s)) (zstr_val ks)) = Some (Inr p)"
      "if p = 0 then \<nexists>a. cache_has Z s (zstr_val ks) a else cache_has Z s (zstr_val ks) p \<and> (\<exists>e. mem s p = Some (CEntry e))"
      using find_chain_ok [OF wf c(1) hk] by blast
    note f = proc_more_cproc [OF ok(4)]
    let ?w = "immutable_cache_cache_runlock ?h u"
    have so: "same_os s ?w" by (rule ok(7)) (simp_all add: ok(2))
    have "cache_kept Z s ?w" by (rule cache_kept_same [OF wf so]) (simp_all add: ok(2-4))
    then show ?thesis using c(1) k ok(1,4) p f
      by (intro exI [of _ "p \<noteq> 0"] exI [of _ ?w]) (auto simp: immutable_cache_cache_exists_def immutable_cache_cache_rlocked_find_nostat_def split: if_splits)
  qed
qed

subsection \<open>Reports\<close>

lemma cache_stat_ok:
  assumes wf: "cache_wf Z s" and k: "mem s key = Some (CStr ks)"
  shows "\<exists>r s'. immutable_cache_cache_stat Z key s = Inr (r, s') \<and> cache_kept Z s s' \<and> proc.more s' = proc.more s \<and>
    (case r of None \<Rightarrow> lock_rc s \<noteq> [] \<or> (\<nexists>a. cache_has Z s (zstr_val ks) a)
     | Some st \<Rightarrow> \<exists>a e. cache_has Z s (zstr_val ks) a \<and> mem s a = Some (CEntry e) \<and>
         st = \<lparr>st_hits = enhits e, st_access_time = eatime e, st_creation_time = ectime e\<rparr>)"
proof -
  obtain c where c: "cache s = Some c" "entry_level s = 0" using wf by (rule cache_wfE)
  have hk: "str_hashed Z ks" using wf k by (auto simp: cache_wf_def shm_wf_def heap_hashed_def)
  let ?h = "ZSTR_HASH Z ks"
  obtain p where p: "immutable_cache_cache_hash_slot Z (nslots c) ks = (?h, hash_slot Z (length (slots s)) (zstr_val ks))"
    "find_in_chain (mem s) ks ?h (slots s ! hash_slot Z (length (slots s)) (zstr_val ks)) = Some (Inr p)"
    "if p = 0 then \<nexists>a. cache_has Z s (zstr_val ks) a else cache_has Z s (zstr_val ks) p \<and> (\<exists>e. mem s p = Some (CEntry e))"
    using find_chain_ok [OF wf c(1) hk] by blast
  show ?thesis
    using c(2)
  proof (cases rule: cache_rlock_cases [where h = ?h])
    case (fail u)
    then show ?thesis using c(1) k p(1) cache_kept_same [OF wf fail(2-5)]
      by (intro exI [of _ None] exI [of _ u]) (simp add: immutable_cache_cache_stat_def)
  next
    case (ok u)
    note f = proc_more_cproc [OF ok(4)]
    let ?w = "immutable_cache_cache_runlock ?h u"
    have so: "same_os s ?w" by (rule ok(7)) (simp_all add: ok(2))
    have kept: "cache_kept Z s ?w" by (rule cache_kept_same [OF wf so]) (simp_all add: ok(2-4))
    show ?thesis
    proof (cases "p = 0")
      case True
      then show ?thesis using kept c(1) k ok(1,4) p f
        by (intro exI [of _ None] exI [of _ ?w]) (simp add: immutable_cache_cache_stat_def)
    next
      case False
      then obtain e where e: "mem s p = Some (CEntry e)" "cache_has Z s (zstr_val ks) p" using p(3) by auto
      show ?thesis using False kept c(1) k ok(1,4) p(1,2) f e
        by (intro exI [of _ "Some \<lparr>st_hits = enhits e, st_access_time = eatime e, st_creation_time = ectime e\<rparr>"] exI [of _ ?w])
          (auto simp: immutable_cache_cache_stat_def)
    qed
  qed
qed

text \<open>The list of all entries, and how many are in each slot.\<close>

definition entry_info :: "heap \<Rightarrow> addr \<Rightarrow> link_info" where
  "entry_info H a = (case H a of Some (CEntry e) \<Rightarrow> immutable_cache_cache_link_info e)"

fun distribution :: "nat \<Rightarrow> addr list list \<Rightarrow> (nat \<times> nat) list" where
  "distribution i [] = []"
| "distribution i (as # cs) = (if as \<noteq> [] then [(i, length as)] else []) @ distribution (Suc i) cs"

lemma info_slots_ok:
  "list_all2 (chain H) ps cs \<Longrightarrow> info_slots H i ps = Inr (map (entry_info H) (concat cs), distribution i cs)"
proof (induction ps cs arbitrary: i rule: list_all2_induct)
  case (Cons p ps as cs)
  then show ?case using chain_links_ok [OF Cons.hyps(1)] by (auto simp: entry_info_def [abs_def])
qed simp

lemma distribution_sum: "sum_list (map snd (distribution i cs)) = length (concat cs)"
  by (induction cs arbitrary: i) auto

lemma global_rlock_cases:
  fixes s :: "'a proc_scheme"
  assumes lv: "entry_level s = 0"
  obtains (fail) s' where "immutable_cache_cache_rlock_global s = (False, s')" "same_os s s'" "sma s' = sma s" "hdrs s' = hdrs s"
      "proc.more s' = proc.more s" "lock_rc s \<noteq> []"
  | (ok) s' where "immutable_cache_cache_rlock_global s = (True, s')" "sma s' = sma s" "hdrs s' = hdrs s" "proc.more s' = proc.more s"
      "same_os s (immutable_cache_cache_runlock_global s')"
proof -
  note F = fail and K = ok
  show thesis
  proof (cases rule: rlock_cases [of "SmaLock (sma_num (sma s))" s])
    case (fail s')
    then show thesis using lv os_more_proc [OF fail(3)]
      by (intro F [of s']) (simp_all add: immutable_cache_cache_rlock_global_def SMA_RLOCK_def)
  next
    case (ok s')
    then have "same_os s (immutable_cache_cache_runlock_global s')" using lv os_more_proc [OF ok(8)]
      by (auto simp: immutable_cache_cache_runlock_global_def SMA_RUNLOCK_def same_os_def fun_eq_iff)
    then show thesis using ok lv os_more_proc [OF ok(8)]
      by (intro K [of s']) (simp_all add: immutable_cache_cache_rlock_global_def SMA_RLOCK_def)
  qed
qed

lemma runlock_global_keep [simp]:
  "sma (immutable_cache_cache_runlock_global s) = sma s" "hdrs (immutable_cache_cache_runlock_global s) = hdrs s"
  "proc.more (immutable_cache_cache_runlock_global s) = proc.more s"
  by (simp_all add: immutable_cache_cache_runlock_global_def SMA_RUNLOCK_def)

lemma table_chains: "table_ok Z s cs \<Longrightarrow> list_all2 (chain (mem s)) (slots s) cs"
  unfolding table_ok_def slot_ok_def list_all2_conv_all_nth by metis

text \<open>The entries of the table are those that can be found, each once.\<close>

lemma table_entries:
  assumes "table_ok Z s cs" "0 < length (slots s)"
  shows "a \<in> set (concat cs) \<longleftrightarrow> (\<exists>k. cache_has Z s k a)"
proof
  assume "a \<in> set (concat cs)"
  then obtain bs where "bs \<in> set cs" "a \<in> set bs" by auto
  then obtain i where i: "i < length cs" "a \<in> set (cs ! i)" by (metis in_set_conv_nth)
  then obtain k where "key_at Z (mem s) a k" "hash_slot Z (length cs) k = i"
    using assms(1) unfolding table_ok_def slot_ok_def by blast
  moreover have "length cs = length (slots s)" using assms(1) by (simp add: table_ok_def)
  ultimately show "\<exists>k. cache_has Z s k a" using i(2) cache_has_iff [OF assms] by auto
next
  assume "\<exists>k. cache_has Z s k a"
  then obtain k where "a \<in> set (cs ! hash_slot Z (length (slots s)) k)" unfolding cache_has_iff [OF assms] by blast
  moreover have "hash_slot Z (length (slots s)) k < length cs" using hash_slot_less [OF assms(2)] assms(1) by (simp add: table_ok_def)
  ultimately show "a \<in> set (concat cs)" using nth_mem by auto
qed

lemma distinct_concat_nth:
  "\<forall>i < length cs. distinct (cs ! i) \<Longrightarrow>
    \<forall>i < length cs. \<forall>j < length cs. i \<noteq> j \<longrightarrow> set (cs ! i) \<inter> set (cs ! j) = {} \<Longrightarrow> distinct (concat cs)"
proof (induction cs)
  case (Cons x xs)
  have "\<forall>i < length xs. distinct (xs ! i)" using Cons.prems(1) by auto
  moreover have "\<forall>i < length xs. \<forall>j < length xs. i \<noteq> j \<longrightarrow> set (xs ! i) \<inter> set (xs ! j) = {}"
    using Cons.prems(2) by (metis Suc_less_eq length_Cons nat.inject nth_Cons_Suc)
  moreover have "set x \<inter> set (concat xs) = {}"
  proof -
    have "set x \<inter> set y = {}" if "y \<in> set xs" for y
    proof -
      obtain j where "j < length xs" "xs ! j = y" using \<open>y \<in> set xs\<close> by (metis in_set_conv_nth)
      with Cons.prems(2) [rule_format, of 0 "Suc j"] show ?thesis by simp
    qed
    then show ?thesis by fastforce
  qed
  moreover have "distinct x" using Cons.prems(1) [rule_format, of 0] by simp
  ultimately show ?case using Cons.IH by simp
qed simp

lemma table_distinct:
  assumes "table_ok Z s cs"
  shows "distinct (concat cs)"
proof (rule distinct_concat_nth)
  show "\<forall>i < length cs. distinct (cs ! i)" using assms unfolding table_ok_def slot_ok_def by blast
  show "\<forall>i < length cs. \<forall>j < length cs. i \<noteq> j \<longrightarrow> set (cs ! i) \<inter> set (cs ! j) = {}"
    using table_disjoint [OF assms] by (auto simp: disjoint_iff)
qed

text \<open>The report of the counters.\<close>

definition counters_info :: "immutable_cache_cache_t \<Rightarrow> immutable_cache_cache_header_t \<Rightarrow> cache_info" where
  "counters_info c h = \<lparr>num_slots = nslots c, num_hits = nhits h, num_misses = nmisses h, num_inserts = ninserts h,
     num_entries = nentries h, start_time = stime h, info_mem_size = hmem_size h, memory_type = ''mmap'',
     cache_list = None, slot_distribution = None\<rparr>"

lemma cache_info_ok:
  assumes wf: "cache_wf Z s" and c: "cache s = Some c" and cs: "table_ok Z s cs"
  shows "\<exists>r s'. immutable_cache_cache_info limited s = Inr (r, s') \<and> cache_kept Z s s' \<and> proc.more s' = proc.more s \<and>
    (r = None \<and> lock_rc s \<noteq> [] \<or>
     r = Some (if limited then counters_info c (header s)
       else (counters_info c (header s))\<lparr>cache_list := Some (map (entry_info (mem s)) (concat cs)), slot_distribution := Some (distribution 0 cs)\<rparr>))"
proof -
  have lv: "entry_level s = 0" and ns: "nslots c = length (slots s)" using wf c by (auto simp: cache_wf_def)
  show ?thesis
    using lv
  proof (cases rule: global_rlock_cases)
    case (fail u)
    then show ?thesis using c cache_kept_same [OF wf fail(2-5)]
      by (intro exI [of _ None] exI [of _ u]) (simp add: immutable_cache_cache_info_def)
  next
    case (ok u)
    note f = proc_more_cproc [OF ok(4)]
    let ?w = "immutable_cache_cache_runlock_global u"
    have kept: "cache_kept Z s ?w" by (rule cache_kept_same [OF wf ok(5)]) (simp_all add: ok(2-4))
    have i: "info_slots (mem s) 0 (slots s) = Inr (map (entry_info (mem s)) (concat cs), distribution 0 cs)"
      by (rule info_slots_ok [OF table_chains [OF cs]])
    show ?thesis using kept c ok(1,4) f ns i by (simp add: immutable_cache_cache_info_def counters_info_def Let_def)
  qed
qed

end
