(* ===== verification/Cache_Create.thy ===== *)
theory Cache_Create
  imports Cache_Lookup
begin

text \<open>
  The creation of the cache: a power-of-two friendly number of slots, one region of shared memory
  for the header and the slots, and an empty table.
\<close>

subsection \<open>The number of slots\<close>

lemma make_prime_loop_cases:
  "make_prime_loop n prev ks = (case find (\<lambda>k. k > n) ks of Some k \<Rightarrow> k | None \<Rightarrow> last (prev # ks))"
  by (induction ks arbitrary: prev) (auto split: option.splits)

lemma make_prime_in: "make_prime n \<in> set primes"
proof (cases "find (\<lambda>k. k > n) primes")
  case None
  have "last (0 # primes) \<in> set primes" by (simp add: primes_def)
  with None show ?thesis by (simp add: make_prime_def make_prime_loop_cases)
next
  case (Some k)
  then have "k \<in> set primes" by (auto simp: find_Some_iff)
  with Some show ?thesis by (simp add: make_prime_def make_prime_loop_cases)
qed

lemma primes_bounds: "k \<in> set primes \<Longrightarrow> 257 \<le> k \<and> k \<le> 983063"
  by (auto simp: primes_def)

lemma make_prime_bounds: "257 \<le> make_prime n" "make_prime n \<le> 983063"
  using primes_bounds [OF make_prime_in] by simp_all

subsection \<open>The aligned header\<close>

lemma align_header:
  assumes "p + 63 < 2 ^ 64"
  shows "p \<le> unat ((word_of_nat p + 63 :: 64 word) AND NOT 63)" "unat ((word_of_nat p + 63 :: 64 word) AND NOT 63) \<le> p + 63"
proof -
  define w where "w = (word_of_nat (p + 63) :: 64 word)"
  have w: "word_of_nat p + 63 = w" by (simp add: w_def)
  have u: "unat w = p + 63" unfolding w_def unat_of_nat using assms by (simp add: take_bit_nat_eq_self)
  have m: "(63 :: 64 word) = mask 6" by (simp add: mask_eq_exp_minus_1)
  have "w AND NOT 63 = push_bit 6 (drop_bit 6 w)"
    unfolding m by (rule bit_eqI) (auto simp: bit_and_iff bit_not_iff bit_mask_iff bit_push_bit_iff bit_drop_bit_eq)
  moreover have "(p + 63) div 64 * 64 < 2 ^ 64" using assms by (metis div_times_less_eq_dividend le_less_trans)
  ultimately have "unat (w AND NOT 63) = (p + 63) div 64 * 64"
    by (simp only: unsigned_push_bit_eq unat_drop_bit_eq u) (simp add: push_bit_eq_mult drop_bit_eq_div take_bit_nat_eq_self)
  then show "p \<le> unat ((word_of_nat p + 63 :: 64 word) AND NOT 63)" "unat ((word_of_nat p + 63 :: 64 word) AND NOT 63) \<le> p + 63"
    unfolding w by presburger+
qed

subsection \<open>The new cache\<close>

lemma empty_table:
  assumes "slots s = replicate n 0" "nentries (header s) = 0" "ninserts (header s) = 0" "hmem_size (header s) = 0"
  shows "table_ok Z s (replicate n [])"
  using assms by (auto simp: table_ok_def slot_ok_def)

text \<open>The number of slots for a size hint.\<close>

definition slots_for :: "int \<Rightarrow> nat" where
  "slots_for hint = nat (make_prime (signed_take_bit 31 (if hint > 0 then hint else 2000)))"

lemma slots_for_bounds: "257 \<le> slots_for h" "slots_for h \<le> 983063"
  using make_prime_bounds [of "signed_take_bit 31 (if h > 0 then h else 2000)"] by (simp_all add: slots_for_def)

lemma cache_create_ok:
  fixes s :: "'a cproc_scheme"
  assumes wf: "shm_wf Z s" and lv: "entry_level s = 0"
  shows "(\<exists>s' c. immutable_cache_cache_create ser hint now s = Inr s' \<and> cache_wf Z s' \<and> (\<forall>k a. \<not> cache_has Z s' k a) \<and>
      same_os s s' \<and> mem s' = mem s \<and> sma_num (sma s') = sma_num (sma s) \<and> segs (sma s') = segs (sma s) \<and>
      cache s' = Some c \<and> serializer c = ser \<and> nslots c = slots_for hint \<and>
      (\<forall>i < sma_num (sma s). leaves_room (hdrs s ! i) (sizeof_cache_header + 8 * slots_for hint + 64) (hdrs s' ! i))) \<or>
    ((\<exists>m. immutable_cache_cache_create ser hint now s = Inl (CoreError m)) \<and>
     (lock_rc s = [] \<longrightarrow> (\<forall>i < sma_num (sma s). \<not> fits (hdrs s ! i) (sizeof_cache_header + 8 * slots_for hint + 64))))"
proof -
  let ?n = "slots_for hint" and ?S = "sizeof_cache_header + 8 * slots_for hint"
  have sb: "?S + 64 < 2 ^ 64 - 40" using slots_for_bounds(2) [of hint] by (simp add: sizeof_cache_header_def)
  have sw: "sma_wf s" using wf by (simp add: shm_wf_def)
  obtain p sz t where t: "immutable_cache_sma_malloc s (?S + 64) = Inr (p, t)" "alloc_post s (?S + 64) p sz t"
    "p = 0 \<longrightarrow> lock_rc s = [] \<longrightarrow> (\<forall>i < sma_num (sma s). \<not> fits (hdrs s ! i) (?S + 64))"
    using malloc_ok [OF sw sb] by blast
  define q where "q = unat ((word_of_nat p + 63 :: 64 word) AND NOT 63)"
  have al: "immutable_cache_cache_alloc_aligned_header s ?S = Inr (q, t)"
    using t(1) by (simp add: immutable_cache_cache_alloc_aligned_header_def q_def)
  have S: "immutable_cache_cache_alloc_aligned_header s (sizeof_cache_header + ?n * 8) = Inr (q, t)" using al by (simp add: mult.commute)
  show ?thesis
  proof (cases "p = 0")
    case True
    have "(63 :: 64 word) AND NOT 63 = 0" by simp
    then have "q = 0" using True by (simp add: q_def)
    with True t(3) S show ?thesis
      by (intro disjI2) (simp add: immutable_cache_cache_create_def slots_for_def [symmetric] Let_def)
  next
    case False
    then have r: "?S + 64 \<le> sz" "p \<notin> fst ` sma_regions s" "sma_regions t = insert (p, sz) (sma_regions s)" and k: "kept s t"
      using t(2) by (simp_all add: alloc_post_def)
    have tw: "sma_wf t" using k by (simp add: kept_def)
    have "p + sz < 2 ^ 64" using sma_regions_bounds(2) [OF tw] r(3) by simp
    then have q: "p \<le> q" "q \<le> p + 63" using align_header [of p] r(1) by (simp_all add: q_def)
    note f = proc_more_cproc [of t s]
    have tm: "mem t = mem s" using f k by (simp add: kept_def)
    define u where "u = (immutable_cache_sma_protect_memory False t)\<lparr>header := \<lparr>nhits = 0, nmisses = 0, ninserts = 0, nentries = 0,
        hmem_size = 0, stime = now, state = 0\<rparr>, slots := replicate ?n 0,
        cache := Some \<lparr>cshmaddr = q, serializer = ser, nslots = ?n, loaded_serializer = False\<rparr>\<rparr>"
    let ?s = "immutable_cache_sma_protect_memory True u"
    have cr: "immutable_cache_cache_create ser hint now s = Inr ?s"
      using S q(1) False unprotect_writable [OF tw]
      by (simp add: immutable_cache_cache_create_def slots_for_def [symmetric] Let_def u_def)
    have us: "sma u = sma t" "hdrs u = hdrs t" "mem u = mem t" "protect_memory u = protect_memory t"
      "writable u = writable (immutable_cache_sma_protect_memory False t)"
      by (simp_all add: u_def)
    have ts: "same_os t ?s"
      using reprotect [OF tw us(5,4,1)] by (simp add: same_os_def u_def)
    have ss: "sma_wf ?s" "sma_regions ?s = sma_regions t"
      by (rule sma_wf_keep [OF tw _ _ ts], simp_all add: us) (rule sma_regions_keep, simp_all add: us)
    have cp: "immutable_cache_sma_contains_pointer (sma ?s) = immutable_cache_sma_contains_pointer (sma s)"
      using k us(1) by (intro contains_pointer_cong) (simp_all add: kept_def)
    have shm: "shm_wf Z ?s"
      by (rule linked_shm_wf [OF wf ss(1) _ cp, of "{}"]) (use r(3) ss(2) us tm in auto)
    let ?c = "\<lparr>cshmaddr = q, serializer = ser, nslots = ?n, loaded_serializer = False\<rparr>"
    have fl: "cache ?s = Some ?c" "slots ?s = replicate ?n 0" "header ?s = header u"
      using mproc_more_cproc [of ?s u] by (simp_all add: u_def)
    have fr: "a \<notin> dom (mem s)" if "p \<le> a" "a < p + sz" for a
      using fresh_region [OF _ ss(1), of s p sz a] that r cp ss(2) wf by (simp add: shm_wf_def)
    have "dom (mem ?s) \<inter> {p..<p + sz} = {}" unfolding protect_mem us(3) tm using fr by (meson atLeastLessThan_iff disjoint_iff)
    moreover have "q + sizeof_cache_header + 8 * ?n \<le> p + sz" using q(2) r(1) by simp
    ultimately have res: "table_reserved ?s ?c"
      using q(1) r(3) ss(2) unfolding table_reserved_def by (intro bexI [of _ "(p, sz)"]) simp_all
    have tab: "table_ok Z ?s (replicate ?n [])" by (rule empty_table) (simp_all add: fl, simp_all add: u_def)
    have pos: "0 < ?n" using slots_for_bounds(1) [of hint] by simp
    have so: "same_os s ?s" using k ts same_os_trans by (auto simp: kept_def)
    have "cache_wf Z ?s" using shm res tab pos so lv fl unfolding cache_wf_def by (auto simp: same_os_def)
    moreover have "\<not> cache_has Z ?s j a" for j a
    proof -
      have l: "0 < length (slots ?s)" using fl pos by simp
      show ?thesis unfolding cache_has_iff [OF tab l] using hash_slot_less [OF l, of Z j] fl(2) by simp
    qed
    moreover have "\<forall>i < sma_num (sma s). leaves_room (hdrs s ! i) (?S + 64) (hdrs ?s ! i)"
      using t(2) False us(2) by (simp add: alloc_post_def)
    ultimately show ?thesis using cr so us tm fl(1) k by (intro disjI1 exI [of _ ?s] exI [of _ ?c]) (simp add: kept_def)
  qed
qed

end
