(* ===== verification/Persist_Thms.thy ===== *)
theory Persist_Thms
  imports Persist_Props
begin

text \<open>
  The statements on storing and reading back one value, with the heap of a small script for the
  witnesses: a key and an array that contains the same string twice.
\<close>

subsection \<open>Sample heap\<close>

definition sample_heap :: heap where
  "sample_heap = [
     16 \<mapsto> CStr \<lparr>str_refcount = 1, str_immutable = False, zstr_h = 0, zstr_val = ''key''\<rparr>,
     32 \<mapsto> CStr \<lparr>str_refcount = 3, str_immutable = False, zstr_h = 0, zstr_val = ''ab''\<rparr>,
     48 \<mapsto> CHt \<lparr>ht_refcount = 1, ht_immutable = False, ht_packed = True, ht_static_keys = True, ht_uninitialized = False,
       ht_has_destructor = True, nTableMask = -2, nNumUsed = 2, nNumOfElements = 2, nInternalPointer = Some 0,
       nNextFreeElement = 2, arData = 64\<rparr>,
     64 \<mapsto> CData (Packed [IS_STRING 32, IS_STRING 32])]"

definition sample_entry :: immutable_cache_cache_entry_t where
  "sample_entry = \<lparr>ekey = 16, eval = IS_ARRAY 48, enext = 0, enhits = 0, ectime = 0, eatime = 0, emem_size = 0\<rparr>"

definition sample_value :: php where
  "sample_value = PArr [(KInt 0, PStr ''ab''), (KInt 1, PStr ''ab'')]"

lemma sample_heap_at:
  "sample_heap 16 = Some (CStr \<lparr>str_refcount = 1, str_immutable = False, zstr_h = 0, zstr_val = ''key''\<rparr>)"
  "sample_heap 32 = Some (CStr \<lparr>str_refcount = 3, str_immutable = False, zstr_h = 0, zstr_val = ''ab''\<rparr>)"
  "sample_heap 64 = Some (CData (Packed [IS_STRING 32, IS_STRING 32]))"
  "sample_heap 48 = Some (CHt \<lparr>ht_refcount = 1, ht_immutable = False, ht_packed = True, ht_static_keys = True, ht_uninitialized = False,
       ht_has_destructor = True, nTableMask = -2, nNumUsed = 2, nNumOfElements = 2, nInternalPointer = Some 0,
       nNextFreeElement = 2, arData = 64\<rparr>)"
  by (simp_all add: sample_heap_def)

lemma sample_heap_ok: "heap_hashed sample_zend sample_heap" "dom sample_heap \<subseteq> {..<1048576}"
  by (auto simp: sample_heap_def heap_hashed_def str_hashed_def split: if_splits)

lemma sample_rep: "rep sample_heap (IS_ARRAY 48) sample_value"
  unfolding sample_value_def
proof (rule rep_packed [where H = sample_heap and a = 48, OF sample_heap_at(4)])
  have s: "rep sample_heap (IS_STRING 32) (PStr ''ab'')" using rep_string [of sample_heap 32, OF sample_heap_at(2)] by simp
  have "rep_slots sample_heap 0 [IS_STRING 32, IS_STRING 32] [(KInt (of_nat 0), PStr ''ab''), (KInt (of_nat (Suc 0)), PStr ''ab'')]"
    by (intro slots_cons slots_nil s)
  then show "rep_slots sample_heap 0 [IS_STRING 32, IS_STRING 32] [(KInt 0, PStr ''ab''), (KInt 1, PStr ''ab'')]" by simp
  show "sample_heap (arData \<lparr>ht_refcount = 1, ht_immutable = False, ht_packed = True, ht_static_keys = True, ht_uninitialized = False,
       ht_has_destructor = True, nTableMask = -2, nNumUsed = 2, nNumOfElements = 2, nInternalPointer = Some 0,
       nNextFreeElement = 2, arData = 64\<rparr>) = Some (CData (Packed [IS_STRING 32, IS_STRING 32]))" by (simp add: sample_heap_at)
qed simp_all

text \<open>The first pass counts 224 bytes: the string is counted once.\<close>

lemma sample_calc:
  assumes "\<forall>a < 1048576. \<not> immutable_cache_sma_contains_pointer m a"
  shows "\<exists>c. immutable_cache_persist_calc (Suc (Suc (Suc (Suc 0)))) sample_zend m sample_heap sample_entry
    ((immutable_cache_persist_init_context None ws)\<lparr>memoization_needed := True\<rparr>) = Inr (True, c) \<and> psize_total c = 224 \<and> pwarnings c = ws"
proof -
  have k: "immutable_cache_pointer_to_hash_key a \<noteq> immutable_cache_pointer_to_hash_key b" if "a < 2 ^ 64" "b < 2 ^ 64" "a \<noteq> b" for a b
    using hash_key_inj that by blast
  show ?thesis
    using assms k [of 16 48] k [of 16 32] k [of 48 32]
    by (simp add: sample_entry_def immutable_cache_persist_init_context_def immutable_cache_persist_calc_def
        immutable_cache_persist_calc_str_def immutable_cache_persist_calc_memoize_def ADD_SIZE_def sample_heap_at
        immutable_cache_persist_calc_ht_def sample_zend_def sizeof_entry_def)
qed

lemma sample_size:
  assumes "\<forall>a < 1048576. \<not> immutable_cache_sma_contains_pointer m a"
  shows "\<exists>c. persist_size (Suc (Suc (Suc (Suc 0)))) sample_zend m sample_heap None sample_entry ws = Inr (Some c, ws) \<and> psize_total c = 224"
proof -
  have "(immutable_cache_persist_init_context None ws)\<lparr>memoization_needed := True, use_serialization := False\<rparr> =
      (immutable_cache_persist_init_context None ws)\<lparr>memoization_needed := True\<rparr>"
    by (simp add: immutable_cache_persist_init_context_def)
  with sample_calc [OF assms, of ws] show ?thesis
    by (auto simp: persist_size_def sample_entry_def simp del: immutable_cache_persist_calc_zval.simps)
qed

lemma sample_state:
  obtains s :: mproc where "shm_wf sample_zend s" "mem s = sample_heap" "lock_rc s = []" "sma_num (sma s) = 1" "fits (hdrs s ! 0) 64000"
    "\<forall>a < 1048576. \<not> immutable_cache_sma_contains_pointer (sma s) a" "warnings s = []"
  using sample_mproc_wf [OF sample_zend_ok sample_heap_ok, of "()"] by auto

text \<open>\<open>reads_back\<close>: a fetch of the zval succeeds and gives the value.\<close>

definition reads_back :: "zend_abi \<Rightarrow> immutable_cache_serializer_t option \<Rightarrow> php \<Rightarrow> heap \<Rightarrow> zval \<Rightarrow> bool" where
  "reads_back Z ser v H z \<longleftrightarrow> (\<exists>r. immutable_cache_unpersist Z H z ser = Inr (True, r) \<and> fetched_is H r v)"

lemma persisted_mono:
  assumes "persisted s orig ks S good p s'" "\<And>z. good (mem s') z \<Longrightarrow> good' (mem s') z"
  shows "persisted s orig ks S good' p s'"
  using assms unfolding persisted_def by blast

lemma persist_post_mono:
  assumes "persist_post Z s orig ks S good p s'" "\<And>z. persist_kept Z s s' \<Longrightarrow> good (mem s') z \<Longrightarrow> good' (mem s') z"
  shows "persist_post Z s orig ks S good' p s'"
  using assms persisted_mono [of s orig ks S good p s' good'] unfolding persist_post_def by (cases "p = 0") auto

lemma kept_contains:
  "persist_kept Z s s' \<Longrightarrow> immutable_cache_sma_contains_pointer (sma s') = immutable_cache_sma_contains_pointer (sma s)"
  by (intro contains_pointer_cong) (simp_all add: persist_kept_def)

lemma kept_reads_back:
  assumes "persist_kept Z s s'" "plain_in (sma s) v (mem s') z"
  shows "reads_back Z ser v (mem s') z"
  unfolding reads_back_def
proof (rule unpersist_plain)
  from assms(2) show "plain_in (sma s') v (mem s') z" unfolding stored_cong(1) [OF kept_contains [OF assms(1)]] .
  show "shm_closed Z (sma s') (mem s')" using assms(1) by (simp add: persist_kept_def shm_wf_def)
qed

lemma bytes_read_back:
  assumes "bytes_in m buf H z" "unserializer_of Z ser buf = Some v"
  shows "reads_back Z ser v H z"
  using unpersist_bytes [OF assms(1), of Z ser] assms(2) by (simp add: reads_back_def)

subsection \<open>Properties\<close>

text \<open>C10: Storing a value without objects and references and reading it back gives the same value, with
  its array keys and their order. The store fails only when no segment has room (or a lock cannot
  be taken); it then changes nothing. On success the objects that existed before are untouched,
  the new ones lie in the new region, are immutable and point to shared memory only, and locks,
  interruptions and memory protection are as before. No assertion of the two passes fails.\<close>

theorem persist_roundtrip:
  assumes "shm_wf Z s" "mem s (ekey orig) = Some (CStr ks)" "rep (mem s) (eval orig) v" "psize v \<le> n"
    "ser = None \<or> (\<forall>es. v \<noteq> PArr es)" "enext orig = 0"
  shows "\<exists>c. persist_size n Z (sma s) (mem s) ser orig (warnings s) = Inr (Some c, warnings s) \<and>
    (psize_total c < 2 ^ 64 - 40 \<longrightarrow> (\<exists>p s'. immutable_cache_persist n Z ser orig s = Inr (p, s') \<and> persist_post Z s orig (zstr_val ks) (psize_total c) (reads_back Z ser v) p s'))"
proof -
  obtain c where c: "persist_size n Z (sma s) (mem s) ser orig (warnings s) = Inr (Some c, warnings s)"
    "psize_total c < 2 ^ 64 - 40 \<longrightarrow> (\<exists>p s'. immutable_cache_persist n Z ser orig s = Inr (p, s') \<and> persist_post Z s orig (zstr_val ks) (psize_total c) (plain_in (sma s) v) p s')"
    using persist_plain_ok [OF assms] by blast
  with persist_post_mono [where good = "plain_in (sma s) v" and good' = "reads_back Z ser v"] kept_reads_back
  show ?thesis by blast
qed

theorem persist_roundtrip_witness:
  "\<exists>(s :: mproc) p s'. mem s = sample_heap \<and> immutable_cache_persist (Suc (Suc (Suc (Suc 0)))) sample_zend None sample_entry s = Inr (p, s') \<and>
    p \<noteq> 0 \<and> persisted s sample_entry ''key'' 224 (reads_back sample_zend None sample_value) p s'"
proof -
  obtain s :: mproc where s: "shm_wf sample_zend s" "mem s = sample_heap" "lock_rc s = []" "sma_num (sma s) = 1"
    "fits (hdrs s ! 0) 64000" "\<forall>a < 1048576. \<not> immutable_cache_sma_contains_pointer (sma s) a" "warnings s = []"
    by (rule sample_state)
  obtain c where c: "persist_size (Suc (Suc (Suc (Suc 0)))) sample_zend (sma s) (mem s) None sample_entry (warnings s) = Inr (Some c, warnings s)"
    "psize_total c = 224" using sample_size [OF s(6)] s(2) by auto
  have f: "fits (hdrs s ! 0) 224" by (rule fits_mono [OF s(5)]) simp_all
  have h: "mem s (ekey sample_entry) = Some (CStr \<lparr>str_refcount = 1, str_immutable = False, zstr_h = 0, zstr_val = ''key''\<rparr>)"
    "rep (mem s) (eval sample_entry) sample_value" "psize sample_value \<le> Suc (Suc (Suc (Suc 0)))" "enext sample_entry = 0"
    using s(2) sample_rep by (simp_all add: sample_entry_def sample_heap_at sample_value_def)
  from persist_roundtrip [OF s(1) h(1-3) disjI1 [OF refl] h(4)] c s(3,4) f s(2) show ?thesis
    by (fastforce simp: persist_post_def split: if_splits)
qed


definition sample_serializer :: immutable_cache_serializer_t where
  "sample_serializer = \<lparr>ser_name = ''demo'', serialize = (\<lambda>H z. Some ''O:1''), unserialize = (\<lambda>b. if b = ''O:1'' then Some (POpaque 1) else None)\<rparr>"


text \<open>C12: The two passes agree: the copy of an entry consumes exactly the bytes that the first pass
  counted and writes inside them only.\<close>

theorem persist_passes_agree:
  assumes "setting Z m H A (psize_total c)" "shm_closed Z m H" "H (ekey orig) = Some (CStr ks)" "rep H (eval orig) v" "psize v \<le> n"
    and "immutable_cache_persist_calc n Z m H orig c0 = Inr (True, c)"
      "c0 = (immutable_cache_persist_init_context ser ws)\<lparr>memoization_needed := b\<rparr>"
  shows "\<exists>e H' cc. immutable_cache_persist_copy n Z m orig H (c\<lparr>palloc := A, alloc_cur := A\<rparr>) = Inr (A, e, H', cc) \<and>
    alloc_cur cc = A + psize_total c \<and> H \<subseteq>\<^sub>m H' \<and> dom H' \<subseteq> dom H \<union> {A..<A + psize_total c} \<and> rep H' (eval e) v"
proof -
  have "blank c0" "\<not> use_serialization c0" using assms(7) by (simp_all add: blank_def immutable_cache_persist_init_context_def)
  from persist_copy_plain [OF assms(1,2) this assms(6) refl assms(3-5)] show ?thesis
    unfolding entry_copied_def by auto
qed

theorem persist_passes_agree_witness:
  "\<exists>c m e H' cc. psize_total c = 224 \<and>
    immutable_cache_persist_copy (Suc (Suc (Suc (Suc 0)))) sample_zend m sample_entry sample_heap (c\<lparr>palloc := 1049000, alloc_cur := 1049000\<rparr>) =
      Inr (1049000, e, H', cc) \<and> alloc_cur cc = 1049224 \<and> rep H' (eval e) sample_value"
proof -
  define m where "m = \<lparr>initialized = True, sma_num = 1, sma_size = 65536, sma_last = 0, segs = [\<lparr>seg_size = 65536, shmaddr = 1048576\<rparr>]\<rparr>"
  let ?n = "Suc (Suc (Suc (Suc 0)))" and ?c0 = "(immutable_cache_persist_init_context None [])\<lparr>memoization_needed := True\<rparr>"
  have nc: "\<forall>a < 1048576. \<not> immutable_cache_sma_contains_pointer m a"
    by (simp add: m_def immutable_cache_sma_contains_pointer_def)
  then obtain c where c: "immutable_cache_persist_calc ?n sample_zend m sample_heap sample_entry ?c0 = Inr (True, c)" "psize_total c = 224"
    using sample_calc [OF nc, of "[]"] by blast
  have "setting sample_zend m sample_heap 1049000 (psize_total c)"
    using sample_heap_ok sample_zend_ok
    by (auto simp: setting_def c(2) m_def immutable_cache_sma_contains_pointer_def)
  moreover have "shm_closed sample_zend m sample_heap"
    using sample_heap_ok(2) nc by (auto simp: shm_closed_def)
  moreover have k: "sample_heap (ekey sample_entry) = Some (CStr \<lparr>str_refcount = 1, str_immutable = False, zstr_h = 0, zstr_val = ''key''\<rparr>)"
    "rep sample_heap (eval sample_entry) sample_value" "psize sample_value \<le> ?n"
    using sample_rep by (simp_all add: sample_entry_def sample_heap_at sample_value_def)
  ultimately obtain e H' cc where "immutable_cache_persist_copy ?n sample_zend m sample_entry sample_heap
      (c\<lparr>palloc := 1049000, alloc_cur := 1049000\<rparr>) = Inr (1049000, e, H', cc)"
    "alloc_cur cc = 1049000 + psize_total c" "rep H' (eval e) sample_value"
    using persist_passes_agree [OF _ _ k c(1) refl, of 1049000] by blast
  with c(2) show ?thesis by (intro exI [of _ c] exI [of _ m] exI [of _ e] exI [of _ H'] exI [of _ cc]) simp
qed

text \<open>A resource is refused with a warning, and nothing is stored.\<close>

theorem persist_resource_rejected:
  assumes "mem s (ekey orig) = Some (CStr ks)" "eval orig = IS_RESOURCE a" "\<not> immutable_cache_sma_contains_pointer (sma s) a"
  shows "immutable_cache_persist (Suc n) Z ser orig s =
    Inr (0, s\<lparr>warnings := warnings s @ [''Cannot store resources in immutable_cache cache'']\<rparr>)"
proof -
  let ?c0 = "(immutable_cache_persist_init_context ser (warnings s))\<lparr>memoization_needed := False, use_serialization := False\<rparr>"
  obtain c2 where c2: "immutable_cache_persist_calc_str Z (sma s) (mem s) (ekey orig) (ADD_SIZE Z (sizeof_entry Z) ?c0) = Inr c2"
    "calc_rel (ADD_SIZE Z (sizeof_entry Z) ?c0) c2" using calc_str_ok [of "mem s" "ekey orig" ks Z "sma s"] assms(1) by blast
  then have "\<not> use_serialization c2" "\<not> memoization_needed c2" "pwarnings c2 = warnings s"
    by (simp_all add: calc_rel_def ADD_SIZE_def immutable_cache_persist_init_context_def)
  with c2(1) assms(2,3) have "immutable_cache_persist_calc (Suc n) Z (sma s) (mem s) orig ?c0 =
      Inr (False, c2\<lparr>pwarnings := warnings s @ [''Cannot store resources in immutable_cache cache'']\<rparr>)"
    by (simp add: immutable_cache_persist_calc_def immutable_cache_persist_calc_memoize_def)
  with assms(2) \<open>\<not> use_serialization c2\<close> show ?thesis
    by (simp add: immutable_cache_persist_def persist_size_def)
qed

theorem persist_resource_rejected_witness:
  "\<exists>(s :: mproc) s'. immutable_cache_persist (Suc 0) sample_zend None (sample_entry\<lparr>eval := IS_RESOURCE 80\<rparr>) s = Inr (0, s') \<and>
    warnings s' = [''Cannot store resources in immutable_cache cache'']"
proof -
  obtain s :: mproc where s: "mem s = sample_heap" "\<forall>a < 1048576. \<not> immutable_cache_sma_contains_pointer (sma s) a" "warnings s = []"
    by (rule sample_state)
  from persist_resource_rejected [of s "sample_entry\<lparr>eval := IS_RESOURCE 80\<rparr>" _ 80 0 sample_zend None] s show ?thesis
    by (intro exI [of _ s] exI [of _ "s\<lparr>warnings := [''Cannot store resources in immutable_cache cache'']\<rparr>"])
      (simp add: sample_entry_def sample_heap_at)
qed

text \<open>The rotation that turns pointers into hash keys keeps different pointers apart, so the tables
  of the two passes never confuse two objects.\<close>

theorem pointer_hash_key_injective:
  assumes "a < 2 ^ 64" "b < 2 ^ 64"
  shows "immutable_cache_pointer_to_hash_key a = immutable_cache_pointer_to_hash_key b \<longleftrightarrow> a = b"
  using hash_key_inj assms by blast

theorem pointer_hash_key_injective_witness:
  "immutable_cache_pointer_to_hash_key 7 \<noteq> immutable_cache_pointer_to_hash_key (2 ^ 61 + 7)"
  using pointer_hash_key_injective [of 7 "2 ^ 61 + 7"] by simp

end
