(* ===== verification/Cache_Spec.thy ===== *)
theory Cache_Spec
  imports Cache_Create Persist_Thms
begin

text \<open>
  The abstract cache: a finite map that only ever grows. \<open>represents Z s M\<close> says that the
  table in shared memory implements the map \<open>M\<close>; stores, lookups, requests that come and go, and
  other processes keep a representation of a map that extends \<open>M\<close>.
\<close>

subsection \<open>The map behind the table\<close>

text \<open>An entry holds a value that can be used in place, or the bytes of a serializer.\<close>

datatype stored = Value php | Bytes string

primrec holds :: "immutable_cache_sma_t \<Rightarrow> stored \<Rightarrow> heap \<Rightarrow> zval \<Rightarrow> bool" where
  "holds m (Value v) = plain_in m v"
| "holds m (Bytes buf) = bytes_in m buf"

definition represents :: "zend_abi \<Rightarrow> 'a cproc_scheme \<Rightarrow> (string \<rightharpoonup> stored) \<Rightarrow> bool" where
  "represents Z s M \<longleftrightarrow> cache_wf Z s \<and>
     (\<forall>k. case M k of None \<Rightarrow> \<nexists>a. cache_has Z s k a
        | Some w \<Rightarrow> \<exists>a e. cache_has Z s k a \<and> mem s a = Some (CEntry e) \<and> holds (sma s) w (mem s) (eval e))"

text \<open>What a reader gets.\<close>

primrec read_stored :: "zend_abi \<Rightarrow> immutable_cache_serializer_t option \<Rightarrow> stored \<Rightarrow> php option" where
  "read_stored Z ser (Value v) = Some v"
| "read_stored Z ser (Bytes buf) = unserializer_of Z ser buf"

lemma holds_cong:
  assumes "immutable_cache_sma_contains_pointer m' = immutable_cache_sma_contains_pointer m"
  shows "holds m' = holds m"
proof
  fix w show "holds m' w = holds m w" by (cases w) (simp_all add: stored_cong [OF assms])
qed

lemma holds_preserves: "holds m w H z \<Longrightarrow> preserves H H' \<Longrightarrow> holds m w H' z"
  by (cases w) (auto simp: plain_in_def bytes_in_def intro: preserves_rep preserves_str_at)

lemma represents_wf: "represents Z s M \<Longrightarrow> cache_wf Z s"
  by (simp add: represents_def)

lemma represents_at:
  "represents Z s M \<Longrightarrow> case M k of None \<Rightarrow> \<nexists>a. cache_has Z s k a
    | Some w \<Rightarrow> \<exists>a e. cache_has Z s k a \<and> mem s a = Some (CEntry e) \<and> holds (sma s) w (mem s) (eval e)"
  unfolding represents_def by blast

lemma represents_None: "represents Z s M \<Longrightarrow> M k = None \<longleftrightarrow> (\<nexists>a. cache_has Z s k a)"
  using represents_at [of Z s M k] by (auto split: option.splits)

lemma represents_Some:
  assumes "represents Z s M" "cache_has Z s k a"
  obtains w e where "M k = Some w" "mem s a = Some (CEntry e)" "holds (sma s) w (mem s) (eval e)"
proof -
  obtain w where w: "M k = Some w" using assms represents_None by blast
  with assms(1) obtain b e where b: "cache_has Z s k b" "mem s b = Some (CEntry e)" "holds (sma s) w (mem s) (eval e)"
    using represents_at [OF assms(1), of k] by auto
  have "b = a" by (rule cache_has_unique [OF represents_wf [OF assms(1)] b(1) assms(2)])
  with w b that show thesis by blast
qed

lemma kept_holds:
  assumes "cache_kept Z s t" "mem s a = Some (CEntry e)" "holds (sma s) w (mem s) (eval e)"
  shows "\<exists>e'. mem t a = Some (CEntry e') \<and> holds (sma t) w (mem t) (eval e')"
proof -
  have pr: "preserves (mem s) (mem t)" using assms(1) by (simp add: cache_kept_def)
  obtain e' where e': "mem t a = Some (CEntry e')" "same_entry e e'" using preserves_entry [OF pr assms(2)] by blast
  have "immutable_cache_sma_contains_pointer (sma t) = immutable_cache_sma_contains_pointer (sma s)"
    using assms(1) by (intro contains_pointer_cong) (simp_all add: cache_kept_def)
  from holds_cong [OF this] holds_preserves [OF assms(3) pr] e' show ?thesis by (simp add: same_entry_def)
qed

text \<open>An operation that keeps the entries keeps the map.\<close>

lemma represents_kept:
  assumes r: "represents Z s M" and t: "cache_kept Z s t" "\<forall>k a. cache_has Z t k a \<longleftrightarrow> cache_has Z s k a"
  shows "represents Z t M"
  unfolding represents_def
proof (intro conjI allI)
  show "cache_wf Z t" using t(1) by (simp add: cache_kept_def)
  fix k show "case M k of None \<Rightarrow> \<nexists>a. cache_has Z t k a
        | Some w \<Rightarrow> \<exists>a e. cache_has Z t k a \<and> mem t a = Some (CEntry e) \<and> holds (sma t) w (mem t) (eval e)"
  proof (cases "M k")
    case None
    then show ?thesis using represents_None [OF r, of k] t(2) by simp
  next
    case (Some w)
    then obtain a where a: "cache_has Z s k a" using represents_None [OF r, of k] by auto
    from r a obtain w' e where "M k = Some w'" "mem s a = Some (CEntry e)" "holds (sma s) w' (mem s) (eval e)" by (rule represents_Some)
    with kept_holds [OF t(1)] Some a t(2) show ?thesis by auto
  qed
qed

text \<open>One more entry is one more key.\<close>

lemma represents_insert:
  assumes r: "represents Z s M" and t: "cache_kept Z s t" "\<nexists>a. cache_has Z s k a"
      "\<forall>j a. cache_has Z t j a \<longleftrightarrow> cache_has Z s j a \<or> (j = k \<and> a = q)"
    and q: "mem t q = Some (CEntry e)" "holds (sma t) w (mem t) (eval e)"
  shows "represents Z t (M(k \<mapsto> w)) \<and> M k = None"
proof -
  have "represents Z t (M(k \<mapsto> w))"
    unfolding represents_def
  proof (intro conjI allI)
    show "cache_wf Z t" using t(1) by (simp add: cache_kept_def)
    fix j show "case (M(k \<mapsto> w)) j of None \<Rightarrow> \<nexists>a. cache_has Z t j a
        | Some w \<Rightarrow> \<exists>a e. cache_has Z t j a \<and> mem t a = Some (CEntry e) \<and> holds (sma t) w (mem t) (eval e)"
    proof (cases "j = k")
      case True
      then show ?thesis using t(3) q by auto
    next
      case False
      show ?thesis
      proof (cases "M j")
        case None
        then show ?thesis using False represents_None [OF r, of j] t(3) by simp
      next
        case (Some v)
        then obtain a where a: "cache_has Z s j a" using represents_None [OF r, of j] by auto
        from r a obtain w' e where "M j = Some w'" "mem s a = Some (CEntry e)" "holds (sma s) w' (mem s) (eval e)" by (rule represents_Some)
        with kept_holds [OF t(1)] Some a t(3) False show ?thesis by auto
      qed
    qed
  qed
  then show ?thesis using represents_None [OF r] t(2) by simp
qed

text \<open>A store adds one key.\<close>

lemma represents_stored:
  assumes r: "represents Z s M" and d: "store_done Z orig S (holds (sma s) w) k s t"
  shows "represents Z t (M(k \<mapsto> w)) \<and> M k = None"
proof -
  obtain q where t: "cache_kept Z s t" "\<nexists>a. cache_has Z s k a" "entry_stored Z orig S (holds (sma s) w) k q t"
    "\<forall>j a. cache_has Z t j a \<longleftrightarrow> cache_has Z s j a \<or> (j = k \<and> a = q)"
    using d by (auto simp: store_done_def)
  have cp: "immutable_cache_sma_contains_pointer (sma t) = immutable_cache_sma_contains_pointer (sma s)"
    using t(1) by (intro contains_pointer_cong) (simp_all add: cache_kept_def)
  obtain e where "mem t q = Some (CEntry e)" "holds (sma t) w (mem t) (eval e)"
    using t(3) holds_cong [OF cp] by (auto simp: entry_stored_def same_entry_def)
  then show ?thesis by (rule represents_insert [OF r t(1,2,4)])
qed

subsection \<open>What a store is given\<close>

text \<open>The value \<open>w\<close> that ends up in the entry, and its size: the value itself, if it is free of
  objects and no serializer is set for arrays, otherwise the bytes of the serializer.\<close>

definition to_store ::
  "nat \<Rightarrow> zend_abi \<Rightarrow> immutable_cache_serializer_t option \<Rightarrow> int \<Rightarrow> addr \<Rightarrow> zval \<Rightarrow> 'a mproc_scheme \<Rightarrow> stored \<Rightarrow> nat \<Rightarrow> bool" where
  "to_store fuel Z ser now key val s w S \<longleftrightarrow>
     (\<exists>c ws. persist_size fuel Z (sma s) (mem s) ser (immutable_cache_cache_init_entry key val now) (warnings s) = Inr (Some c, ws) \<and>
       psize_total c = S \<and> S < 2 ^ 64 - 40 \<and>
       (case w of Value v \<Rightarrow> rep (mem s) val v \<and> psize v \<le> fuel \<and> (ser = None \<or> (\<forall>es. v \<noteq> PArr es))
        | Bytes buf \<Rightarrow> use_serialization c \<and> 0 < fuel \<and> (\<exists>a. val = IS_ARRAY a \<or> val = IS_OBJECT a) \<and>
            serializer_of Z ser (mem s) val = Some buf))"

lemma to_store_persist:
  assumes wf: "shm_wf Z s" and k: "mem s key = Some (CStr ks)" and w: "to_store fuel Z ser now key val s w S"
  shows "\<exists>p t. immutable_cache_persist fuel Z ser (immutable_cache_cache_init_entry key val now) s = Inr (p, t) \<and>
    persist_post Z s (immutable_cache_cache_init_entry key val now) (zstr_val ks) S (holds (sma s) w) p t"
proof -
  let ?o = "immutable_cache_cache_init_entry key val now"
  have o: "ekey ?o = key" "eval ?o = val" "enext ?o = 0" by (simp_all add: immutable_cache_cache_init_entry_def)
  obtain c ws where c: "persist_size fuel Z (sma s) (mem s) ser ?o (warnings s) = Inr (Some c, ws)" "psize_total c = S" "S < 2 ^ 64 - 40"
    "case w of Value v \<Rightarrow> rep (mem s) val v \<and> psize v \<le> fuel \<and> (ser = None \<or> (\<forall>es. v \<noteq> PArr es))
     | Bytes buf \<Rightarrow> use_serialization c \<and> 0 < fuel \<and> (\<exists>a. val = IS_ARRAY a \<or> val = IS_OBJECT a) \<and> serializer_of Z ser (mem s) val = Some buf"
    using w unfolding to_store_def by blast
  show ?thesis
  proof (cases w)
    case (Value v)
    then show ?thesis using persist_plain_ok [OF wf, of ?o ks v fuel ser] c k by (auto simp: o)
  next
    case (Bytes buf)
    then obtain n a where n: "fuel = Suc n" "val = IS_ARRAY a \<or> val = IS_OBJECT a" using c(4) by (cases fuel) auto
    then show ?thesis using persist_serialized_ok [OF wf, of ?o ks a n ser c ws] Bytes c k by (auto simp: o)
  qed
qed

end
