(* ===== verification/Cache_Refine.thy ===== *)
theory Cache_Refine
  imports Cache_Spec
begin

text \<open>
  The operations of the cache refine the operations of the map.
\<close>

subsection \<open>Laws\<close>

lemma store_failed_represents:
  assumes "represents Z s M" "store_failed Z s t"
  shows "represents Z t M"
proof (rule represents_kept [OF assms(1)])
  show "cache_kept Z s t" "\<forall>k a. cache_has Z t k a \<longleftrightarrow> cache_has Z s k a"
    using assms(2) by (simp_all add: store_failed_def cache_has_def)
qed

lemma store_represents:
  assumes r: "represents Z s M" and c: "cache s = Some c" and k: "mem s key = Some (CStr ks)"
    and w: "to_store fuel Z (serializer c) now key val s w S"
  shows "\<exists>ret s'. immutable_cache_cache_store fuel Z now key val s = Inr (ret, s') \<and> cache_kept Z s s' \<and>
    represents Z s' (if ret then M(zstr_val ks \<mapsto> w) else M) \<and> (ret \<longrightarrow> M (zstr_val ks) = None) \<and>
    (\<not> ret \<longrightarrow> lock_rc s = [] \<longrightarrow> M (zstr_val ks) \<noteq> None \<or> (\<forall>i < sma_num (sma s). \<not> fits (hdrs s ! i) S))"
proof -
  have wf: "cache_wf Z s" "shm_wf Z s" using r by (simp_all add: represents_def cache_wf_def)
  obtain p t where p: "immutable_cache_persist fuel Z (serializer c) (immutable_cache_cache_init_entry key val now) s = Inr (p, t)"
    "persist_post Z s (immutable_cache_cache_init_entry key val now) (zstr_val ks) S (holds (sma s) w) p t"
    using to_store_persist [OF wf(2) k w] by blast
  have "\<forall>H H' z. holds (sma s) w H z \<longrightarrow> preserves H H' \<longrightarrow> holds (sma s) w H' z" using holds_preserves by blast
  from cache_store_ok [OF wf(1) c k p this] obtain ret s' where
    s': "immutable_cache_cache_store fuel Z now key val s = Inr (ret, s')"
      "if ret then store_done Z (immutable_cache_cache_init_entry key val now) S (holds (sma s) w) (zstr_val ks) s s' else store_failed Z s s'"
      "\<not> ret \<longrightarrow> lock_rc s = [] \<longrightarrow> (\<exists>a. cache_has Z s (zstr_val ks) a) \<or> (\<forall>i < sma_num (sma s). \<not> fits (hdrs s ! i) S)"
    by blast
  have nk: "(\<exists>a. cache_has Z s (zstr_val ks) a) \<longleftrightarrow> M (zstr_val ks) \<noteq> None" using represents_None [OF r, of "zstr_val ks"] by simp
  show ?thesis
  proof (cases ret)
    case True
    then have d: "store_done Z (immutable_cache_cache_init_entry key val now) S (holds (sma s) w) (zstr_val ks) s s'" using s'(2) by simp
    then have "cache_kept Z s s'" by (simp add: store_done_def)
    with represents_stored [OF r d] s'(1) True show ?thesis by auto
  next
    case False
    then have d: "store_failed Z s s'" using s'(2) by simp
    then have "cache_kept Z s s'" by (simp add: store_failed_def)
    with store_failed_represents [OF r d] s'(1,3) nk False show ?thesis by auto
  qed
qed

text \<open>A value that the first pass refuses is not stored.\<close>

lemma store_rejected:
  assumes r: "represents Z s M" and c: "cache s = Some c"
    and w: "persist_size fuel Z (sma s) (mem s) (serializer c) (immutable_cache_cache_init_entry key val now) (warnings s) = Inr (None, ws)"
  shows "immutable_cache_cache_store fuel Z now key val s = Inr (False, s\<lparr>warnings := ws\<rparr>) \<and>
    cache_kept Z s (s\<lparr>warnings := ws\<rparr>) \<and> represents Z (s\<lparr>warnings := ws\<rparr>) M"
proof -
  have wf: "cache_wf Z s" using r by (simp add: represents_def)
  have k: "cache_kept Z s (s\<lparr>warnings := ws\<rparr>)" by (rule cache_kept_same [OF wf]) (simp_all add: same_os_def)
  have "represents Z (s\<lparr>warnings := ws\<rparr>) M" by (rule represents_kept [OF r k]) (simp add: cache_has_def)
  with k c w show ?thesis by (simp add: immutable_cache_cache_store_def immutable_cache_persist_def)
qed

lemma lookup_represents:
  assumes "represents Z s M" "looked_up Z k now s p s' \<or> p = 0 \<and> lock_refused Z s s'"
  shows "represents Z s' M" "cache_kept Z s s'"
proof -
  have "cache_kept Z s s' \<and> (\<forall>k a. cache_has Z s' k a \<longleftrightarrow> cache_has Z s k a)"
    using assms(2) proc_more_cproc [of s' s] by (auto simp: looked_up_def lock_refused_def cache_has_def)
  then show "represents Z s' M" "cache_kept Z s s'" using represents_kept [OF assms(1)] by blast+
qed

text \<open>Reading an entry.\<close>

lemma entry_fetch_ok:
  assumes r: "represents Z s M" and a: "cache_has Z s k a"
  obtains w f where "M k = Some w"
    "immutable_cache_cache_entry_fetch_zval Z c a (mem s) = Inr (read_stored Z (serializer c) w \<noteq> None, f)"
    "case read_stored Z (serializer c) w of None \<Rightarrow> f = FZval IS_NULL | Some v \<Rightarrow> fetched_is (mem s) f v"
proof -
  obtain w e where w: "M k = Some w" "mem s a = Some (CEntry e)" "holds (sma s) w (mem s) (eval e)" using r a by (rule represents_Some)
  have cl: "shm_closed Z (sma s) (mem s)" using r by (simp add: represents_def cache_wf_def shm_wf_def)
  have "\<exists>f. immutable_cache_unpersist Z (mem s) (eval e) (serializer c) = Inr (read_stored Z (serializer c) w \<noteq> None, f) \<and>
    (case read_stored Z (serializer c) w of None \<Rightarrow> f = FZval IS_NULL | Some v \<Rightarrow> fetched_is (mem s) f v)"
  proof (cases w)
    case (Value v)
    with w(3) have "plain_in (sma s) v (mem s) (eval e)" by simp
    from unpersist_plain [OF cl this] Value show ?thesis by auto
  next
    case (Bytes buf)
    with w(3) have "bytes_in (sma s) buf (mem s) (eval e)" by simp
    from unpersist_bytes [OF this, of Z "serializer c"] Bytes show ?thesis by (cases "unserializer_of Z (serializer c) buf") simp_all
  qed
  with w that show thesis by (auto simp: immutable_cache_cache_entry_fetch_zval_def)
qed

definition fetch_spec ::
  "zend_abi \<Rightarrow> immutable_cache_serializer_t option \<Rightarrow> stored option \<Rightarrow> heap \<Rightarrow> bool \<Rightarrow> fetched option \<Rightarrow> bool" where
  "fetch_spec Z ser x H r f \<longleftrightarrow>
     (case x of None \<Rightarrow> \<not> r \<and> f = None
      | Some w \<Rightarrow> (case read_stored Z ser w of None \<Rightarrow> \<not> r \<and> f = Some (FZval IS_NULL)
          | Some v \<Rightarrow> r \<and> (\<exists>g. f = Some g \<and> fetched_is H g v)))"

lemma fetch_represents:
  assumes r: "represents Z s M" and c: "cache s = Some c" and k: "mem s key = Some (CStr ks)"
  shows "\<exists>b f s'. immutable_cache_cache_fetch Z key now s = Inr (b, f, s') \<and> represents Z s' M \<and> cache_kept Z s s' \<and>
    (protect_memory s \<longrightarrow> proc.more s' = proc.more s) \<and>
    (fetch_spec Z (serializer c) (M (zstr_val ks)) (mem s') b f \<or> \<not> b \<and> f = None \<and> lock_rc s \<noteq> [])"
proof -
  have wf: "cache_wf Z s" using r by (simp add: represents_def)
  obtain p s' where p: "immutable_cache_cache_find Z key now s = Inr (p, s')"
    "looked_up Z (zstr_val ks) now s p s' \<or> p = 0 \<and> lock_refused Z s s'" using cache_find_ok [OF wf k] by blast
  note r' = lookup_represents [OF r p(2)]
  have c': "cache s' = Some c" using r'(2) c by (simp add: cache_kept_def)
  have pm: "protect_memory s \<longrightarrow> proc.more s' = proc.more s"
  proof
    assume "protect_memory s"
    with p(2) consider "mem s' = mem s" "header s' = header s" "slots s' = slots s" "cache s' = cache s" "cproc.more s' = cproc.more s"
      | "proc.more s' = proc.more s" by (auto simp: looked_up_def lock_refused_def cache_kept_def)
    then show "proc.more s' = proc.more s"
    proof cases
      case 1
      then show ?thesis by (cases s; cases s') simp
    qed
  qed
  show ?thesis
  proof (cases "p = 0")
    case True
    have "fetch_spec Z (serializer c) (M (zstr_val ks)) (mem s') False None \<or> lock_rc s \<noteq> []"
      using p(2) True represents_None [OF r, of "zstr_val ks"] by (auto simp: looked_up_def lock_refused_def fetch_spec_def)
    then show ?thesis using True p(1) c r' pm by (auto simp: fetch_is_find)
  next
    case False
    then have h: "cache_has Z s' (zstr_val ks) p" using p(2) by (simp add: looked_up_def)
    obtain w f where w: "M (zstr_val ks) = Some w"
      "immutable_cache_cache_entry_fetch_zval Z c p (mem s') = Inr (read_stored Z (serializer c) w \<noteq> None, f)"
      "case read_stored Z (serializer c) w of None \<Rightarrow> f = FZval IS_NULL | Some v \<Rightarrow> fetched_is (mem s') f v"
      using r'(1) h by (rule entry_fetch_ok)
    have "fetch_spec Z (serializer c) (M (zstr_val ks)) (mem s') (read_stored Z (serializer c) w \<noteq> None) (Some f)"
      using w by (auto simp: fetch_spec_def split: option.splits)
    then show ?thesis using False p(1) c r' pm w(2) by (auto simp: fetch_is_find)
  qed
qed

lemma exists_represents:
  assumes r: "represents Z s M" and k: "mem s key = Some (CStr ks)"
  shows "\<exists>b s'. immutable_cache_cache_exists Z key now s = Inr (b, s') \<and> represents Z s' M \<and> cache_kept Z s s' \<and>
    proc.more s' = proc.more s \<and> (b = (M (zstr_val ks) \<noteq> None) \<or> \<not> b \<and> lock_rc s \<noteq> [])"
proof -
  have wf: "cache_wf Z s" using r by (simp add: represents_def)
  obtain b s' where b: "immutable_cache_cache_exists Z key now s = Inr (b, s')" "cache_kept Z s s'" "proc.more s' = proc.more s"
    "b = (\<exists>a. cache_has Z s (zstr_val ks) a) \<or> \<not> b \<and> lock_rc s \<noteq> []" using cache_exists_ok [OF wf k] by blast
  have "represents Z s' M" by (rule represents_kept [OF r b(2)]) (use proc_more_cproc [OF b(3)] in \<open>simp add: cache_has_def\<close>)
  then show ?thesis using b represents_None [OF r, of "zstr_val ks"] by auto
qed

end
