(* ===== verification/Cache_Run.thy ===== *)
theory Cache_Run
  imports Cache_Refine
begin

text \<open>
  Runs of the cache: any sequence of stores, lookups and reports of any number of requests, in any
  process that shares the segments. Between two operations everything outside shared memory may
  change: the objects of one request give way to those of the next.
\<close>

subsection \<open>Only shared memory counts\<close>

definition shm_agree :: "immutable_cache_sma_t \<Rightarrow> heap \<Rightarrow> heap \<Rightarrow> bool" where
  "shm_agree m H H' \<longleftrightarrow> (\<forall>a. immutable_cache_sma_contains_pointer m a \<longrightarrow> H' a = H a)"

lemma rep_agree:
  assumes cl: "shm_closed Z m H" and ag: "shm_agree m H H'"
  shows "rep H z v \<Longrightarrow> zval_shm m z \<Longrightarrow> rep H' z v"
    "rep_slots H i zs es \<Longrightarrow> \<forall>z \<in> set zs. zval_shm m z \<Longrightarrow> rep_slots H' i zs es"
    "rep_buckets H bs es \<Longrightarrow> \<forall>b \<in> set bs. bucket_shm m b \<Longrightarrow> rep_buckets H' bs es"
proof (induction rule: rep_rep_slots_rep_buckets.inducts)
  case (rep_string a s)
  then have "H' a = Some (CStr s)" using ag by (simp add: shm_agree_def)
  then show ?case by (rule rep_rep_slots_rep_buckets.rep_string)
next
  case (rep_empty a t)
  then have "H' a = Some (CHt t)" using ag by (simp add: shm_agree_def)
  then show ?case using rep_empty(2,3) by (rule rep_rep_slots_rep_buckets.rep_empty)
next
  case (rep_packed a t zs es)
  then have a: "immutable_cache_sma_contains_pointer m a" by simp
  have d: "immutable_cache_sma_contains_pointer m (arData t)" using shm_closedD [OF cl rep_packed(1) a] \<open>0 < nNumUsed t\<close> by simp
  have "\<forall>z \<in> set zs. zval_shm m z" using shm_closedD [OF cl \<open>H (arData t) = Some (CData (Packed zs))\<close> d] by simp
  with a d rep_packed ag show ?case
    by (intro rep_rep_slots_rep_buckets.rep_packed [of H' a t zs]) (simp_all add: shm_agree_def)
next
  case (rep_hash a t bs es)
  then have a: "immutable_cache_sma_contains_pointer m a" by simp
  have d: "immutable_cache_sma_contains_pointer m (arData t)" using shm_closedD [OF cl rep_hash(1) a] \<open>0 < nNumUsed t\<close> by simp
  have "\<forall>b \<in> set bs. bucket_shm m b" using shm_closedD [OF cl \<open>H (arData t) = Some (CData (Buckets bs))\<close> d] by simp
  with a d rep_hash ag show ?case
    by (intro rep_rep_slots_rep_buckets.rep_hash [of H' a t bs]) (simp_all add: shm_agree_def)
next
  case (buckets_int b v bs es)
  then show ?case by (intro rep_rep_slots_rep_buckets.buckets_int) (simp_all add: bucket_shm_def)
next
  case (buckets_str b k s v bs es)
  from buckets_str(3) have "bval b \<noteq> IS_UNDEF" by auto
  with buckets_str(1,2,7) ag have "H' k = Some (CStr s)" by (simp add: bucket_shm_def shm_agree_def)
  with buckets_str show ?case by (intro rep_rep_slots_rep_buckets.buckets_str [of b k]) (simp_all add: bucket_shm_def)
qed (auto intro: rep_rep_slots_rep_buckets.intros)

lemma holds_agree:
  assumes "shm_closed Z m H" "shm_agree m H H'" "holds m w H z"
  shows "holds m w H' z"
proof (cases w)
  case (Value v)
  then show ?thesis using assms rep_agree(1) [OF assms(1,2)] by (simp add: plain_in_def)
next
  case (Bytes buf)
  then show ?thesis using assms by (auto simp: bytes_in_def shm_agree_def str_at_def)
qed

lemma chain_agree: "chain H p as \<Longrightarrow> \<forall>a \<in> set as. H' a = H a \<Longrightarrow> chain H' p as"
  by (induction as arbitrary: p) auto

lemma key_at_agree:
  assumes "shm_closed Z m H" "shm_agree m H H'" "immutable_cache_sma_contains_pointer m a"
  shows "key_at Z H' a k \<longleftrightarrow> key_at Z H a k"
proof -
  have a: "H' a = H a" using assms(2,3) by (simp add: shm_agree_def)
  have "H' (ekey e) = H (ekey e)" if "H a = Some (CEntry e)" for e
    using shm_closedD [OF assms(1) that assms(3)] assms(2) by (simp add: shm_agree_def)
  then show ?thesis unfolding key_at_def a by metis
qed

subsection \<open>The next request, or another process\<close>

definition next_request :: "zend_abi \<Rightarrow> 'a cproc_scheme \<Rightarrow> 'a cproc_scheme \<Rightarrow> bool" where
  "next_request Z s s' \<longleftrightarrow> sma s' = sma s \<and> hdrs s' = hdrs s \<and> cache s' = cache s \<and> header s' = header s \<and> slots s' = slots s \<and>
     shm_agree (sma s) (mem s) (mem s') \<and> heap_hashed Z (mem s') \<and> dom (mem s') \<subseteq> {..<2 ^ 64} \<and>
     sma_wf s' \<and> entry_level s' = 0"

lemma region_start_contained:
  assumes "sma_wf s" "(p, n) \<in> sma_regions s"
  shows "immutable_cache_sma_contains_pointer (sma s) p"
proof -
  obtain i b where r: "p = SMA_ADDR s i + b" "i < sma_num (sma s)" "(b, n) \<in> regions (hdrs s ! i)"
    using assms(2) by (rule sma_regionsE)
  then have "b < seg_size (segs (sma s) ! i)" using regions_bounds(2) [OF _ r(3)] assms(1) by (auto simp: sma_wf_def)
  then show ?thesis using r(1,2) by (auto simp: immutable_cache_sma_contains_pointer_def SMA_ADDR_def intro!: bexI [of _ i])
qed

lemma table_contained:
  assumes "cache_wf Z s" "table_ok Z s cs" "a \<in> set (concat cs)"
  shows "immutable_cache_sma_contains_pointer (sma s) a"
proof -
  have "sma_wf s" using assms(1) by (simp add: cache_wf_def shm_wf_def)
  moreover have "a \<in> fst ` sma_regions s" using assms(2,3) unfolding table_ok_def by blast
  ultimately show ?thesis using region_start_contained by force
qed

lemma next_request_table:
  assumes wf: "cache_wf Z s" and n: "next_request Z s t" and cs: "table_ok Z s cs"
  shows "table_ok Z t cs" "cache_has Z t k a \<longleftrightarrow> cache_has Z s k a"
proof -
  have ag: "shm_agree (sma s) (mem s) (mem t)" and st: "slots t = slots s" "header t = header s" "sma t = sma s" "hdrs t = hdrs s"
    using n by (simp_all add: next_request_def)
  have cl: "shm_closed Z (sma s) (mem s)" and l: "0 < length (slots s)" using wf by (auto simp: cache_wf_def shm_wf_def)
  note co = table_contained [OF wf cs]
  have ma: "mem t b = mem s b" if "b \<in> set (concat cs)" for b using ag co [OF that] by (simp add: shm_agree_def)
  have in_c: "b \<in> set (concat cs)" if "i < length cs" "b \<in> set (cs ! i)" for i b using that nth_mem by auto
  have so: "slot_ok Z (mem t) (length cs) i (slots t ! i) (cs ! i)" if i: "i < length cs" for i
  proof -
    have ok: "slot_ok Z (mem s) (length cs) i (slots s ! i) (cs ! i)" using cs i unfolding table_ok_def by blast
    have k: "key_at Z (mem t) b j \<longleftrightarrow> key_at Z (mem s) b j" if "b \<in> set (cs ! i)" for b j
      by (rule key_at_agree [OF cl ag co [OF in_c [OF i that]]])
    have "chain (mem t) (slots s ! i) (cs ! i)"
      by (rule chain_agree) (use ok ma in_c [OF i] in \<open>auto simp: slot_ok_def\<close>)
    with ok k show ?thesis unfolding slot_ok_def st by blast
  qed
  have e: "map (entry_mem (mem t)) (concat cs) = map (entry_mem (mem s)) (concat cs)" using ma by (simp add: entry_mem_def)
  have r: "sma_regions t = sma_regions s" by (rule sma_regions_keep [OF st(3,4)])
  show t: "table_ok Z t cs"
    using cs so unfolding table_ok_def st e r by blast
  have lt: "0 < length (slots t)" using l st by simp
  have "hash_slot Z (length (slots s)) k < length cs" using hash_slot_less [OF l] cs by (simp add: table_ok_def)
  then show "cache_has Z t k a \<longleftrightarrow> cache_has Z s k a"
    unfolding cache_has_iff [OF t lt] cache_has_iff [OF cs l] st using key_at_agree [OF cl ag] co in_c by blast
qed

lemma next_request_represents:
  assumes r: "represents Z s M" and n: "next_request Z s t"
  shows "represents Z t M"
proof -
  have wf: "cache_wf Z s" using r by (simp add: represents_def)
  obtain c cs where c: "cache s = Some c" "nslots c = length (slots s)" "0 < nslots c" "table_reserved s c" "table_ok Z s cs"
    "shm_wf Z s" "entry_level s = 0" "0 < length (slots s)" using wf by (rule cache_wfE)
  have ag: "shm_agree (sma s) (mem s) (mem t)" and f: "slots t = slots s" "sma t = sma s" "hdrs t = hdrs s" "cache t = cache s"
    and o: "sma_wf t" "heap_hashed Z (mem t)" "dom (mem t) \<subseteq> {..<2 ^ 64}" "entry_level t = 0"
    using n by (simp_all add: next_request_def)
  have r': "sma_regions t = sma_regions s" by (rule sma_regions_keep [OF f(2,3)])
  have cl: "shm_closed Z (sma s) (mem s)" and reg: "in_regions s" and z: "zend_ok Z" using c(6) by (simp_all add: shm_wf_def)
  have sc: "shm_closed Z (sma t) (mem t)" using cl ag unfolding shm_closed_def shm_agree_def f by metis
  have ir: "in_regions t" using reg ag unfolding in_regions_def r' f shm_agree_def dom_def by auto
  have shm: "shm_wf Z t" using o z sc ir by (simp add: shm_wf_def)
  have tr: "table_reserved t c"
  proof (rule table_reserved_keep [OF c(4)])
    show "\<forall>(q, n) \<in> sma_regions s. dom (mem t) \<inter> {q..<q + n} \<subseteq> dom (mem s)"
      using region_contained [of s] c(6) ag by (fastforce simp: shm_wf_def shm_agree_def)
  qed (simp add: r')
  note tb = next_request_table [OF wf n c(5)]
  have tw: "cache_wf Z t" using shm o(4) c(1-3) tr tb(1) f unfolding cache_wf_def by auto
  have h: "mem t a = mem s a \<and> holds (sma t) w (mem t) (eval e)"
    if "cache_has Z s k a" "holds (sma s) w (mem s) (eval e)" for k a e w
  proof -
    have "hash_slot Z (length (slots s)) k < length cs" using hash_slot_less [OF c(8)] c(5) by (simp add: table_ok_def)
    then have "a \<in> set (concat cs)" using that(1) nth_mem unfolding cache_has_iff [OF c(5,8)] by auto
    from table_contained [OF wf c(5) this] holds_agree [OF cl ag that(2)] ag show ?thesis by (simp add: shm_agree_def f)
  qed
  show ?thesis
    unfolding represents_def
  proof (intro conjI allI tw)
    fix k show "case M k of None \<Rightarrow> \<nexists>a. cache_has Z t k a
      | Some w \<Rightarrow> \<exists>a e. cache_has Z t k a \<and> mem t a = Some (CEntry e) \<and> holds (sma t) w (mem t) (eval e)"
    proof (cases "M k")
      case None
      then show ?thesis using represents_at [OF r, of k] tb(2) by simp
    next
      case (Some w)
      then obtain a e where a: "cache_has Z s k a" "mem s a = Some (CEntry e)" "holds (sma s) w (mem s) (eval e)"
        using represents_at [OF r, of k] by auto
      with h [OF a(1,3)] Some tb(2) show ?thesis by auto
    qed
  qed
qed

subsection \<open>Steps\<close>

text \<open>The operations of the cache, each with arguments it can be called with: a key that is a string,
  a value that can be stored or one that the first pass refuses.\<close>

inductive cache_step :: "zend_abi \<Rightarrow> 'a cproc_scheme \<Rightarrow> 'a cproc_scheme \<Rightarrow> bool" for Z where
  step_store: "cache s = Some c \<Longrightarrow> mem s key = Some (CStr ks) \<Longrightarrow> to_store fuel Z (serializer c) now key val s w S \<Longrightarrow>
    immutable_cache_cache_store fuel Z now key val s = Inr (b, s') \<Longrightarrow> cache_step Z s s'"
| step_refuse: "cache s = Some c \<Longrightarrow>
    persist_size fuel Z (sma s) (mem s) (serializer c) (immutable_cache_cache_init_entry key val now) (warnings s) = Inr (None, ws) \<Longrightarrow>
    immutable_cache_cache_store fuel Z now key val s = Inr (b, s') \<Longrightarrow> cache_step Z s s'"
| step_fetch: "mem s key = Some (CStr ks) \<Longrightarrow> immutable_cache_cache_fetch Z key now s = Inr (b, f, s') \<Longrightarrow> cache_step Z s s'"
| step_exists: "mem s key = Some (CStr ks) \<Longrightarrow> immutable_cache_cache_exists Z key now s = Inr (b, s') \<Longrightarrow> cache_step Z s s'"
| step_find: "mem s key = Some (CStr ks) \<Longrightarrow> immutable_cache_cache_find Z key now s = Inr (p, s') \<Longrightarrow> cache_step Z s s'"
| step_stat: "mem s key = Some (CStr ks) \<Longrightarrow> immutable_cache_cache_stat Z key s = Inr (r, s') \<Longrightarrow> cache_step Z s s'"
| step_info: "immutable_cache_cache_info limited s = Inr (i, s') \<Longrightarrow> cache_step Z s s'"
| step_request: "next_request Z s s' \<Longrightarrow> cache_step Z s s'"

text \<open>The implemented map and the structure of the process.\<close>

definition serves :: "zend_abi \<Rightarrow> immutable_cache_cache_t \<Rightarrow> 'a cproc_scheme \<Rightarrow> (string \<rightharpoonup> stored) \<Rightarrow> bool" where
  "serves Z c s M \<longleftrightarrow> represents Z s M \<and> cache s = Some c"

lemma serves_same:
  assumes "serves Z c s M" "cache_kept Z s t" "proc.more t = proc.more s"
  shows "serves Z c t M"
  using assms represents_kept [of Z s M t] proc_more_cproc [OF assms(3)] by (simp add: serves_def cache_has_def)

lemma cache_step_grows:
  assumes "cache_step Z s t" "serves Z c s M"
  shows "\<exists>M'. serves Z c t M' \<and> M \<subseteq>\<^sub>m M'"
  using assms
proof (cases rule: cache_step.cases)
  case (step_store c' key ks fuel now val w S b)
  have r: "represents Z s M" "c' = c" using assms(2) step_store(1) by (simp_all add: serves_def)
  obtain ret s' where s': "immutable_cache_cache_store fuel Z now key val s = Inr (ret, s')" "cache_kept Z s s'"
    "represents Z s' (if ret then M(zstr_val ks \<mapsto> w) else M)" "ret \<longrightarrow> M (zstr_val ks) = None"
    using store_represents [OF r(1) step_store(1-3)] by blast
  then have "t = s'" using step_store(4) by simp
  moreover have "M \<subseteq>\<^sub>m (if ret then M(zstr_val ks \<mapsto> w) else M)" using s'(4) by (auto simp: map_le_def dom_def)
  ultimately show ?thesis using s'(2,3) assms(2) by (auto simp: serves_def cache_kept_def)
next
  case (step_refuse c' fuel key val now ws b)
  have r: "represents Z s M" "c' = c" using assms(2) step_refuse(1) by (simp_all add: serves_def)
  then show ?thesis using store_rejected [OF r(1) step_refuse(1,2)] step_refuse assms(2) by (auto simp: serves_def cache_kept_def)
next
  case (step_fetch key ks now b f)
  have r: "represents Z s M" "cache s = Some c" using assms(2) by (simp_all add: serves_def)
  from fetch_represents [OF r step_fetch(1), of now] step_fetch(2) have "represents Z t M \<and> cache_kept Z s t" by auto
  then show ?thesis using r(2) by (auto simp: serves_def cache_kept_def)
next
  case (step_exists key ks now b)
  have r: "represents Z s M" "cache s = Some c" using assms(2) by (simp_all add: serves_def)
  from exists_represents [OF r(1) step_exists(1), of now] step_exists(2) have "represents Z t M \<and> cache_kept Z s t" by auto
  then show ?thesis using r(2) by (auto simp: serves_def cache_kept_def)
next
  case (step_find key ks now p)
  have r: "represents Z s M" using assms(2) by (simp add: serves_def)
  have "looked_up Z (zstr_val ks) now s p t \<or> p = 0 \<and> lock_refused Z s t"
    using cache_find_ok [OF represents_wf [OF r] step_find(1), of now] step_find(2) by auto
  from lookup_represents [OF r this] assms(2) show ?thesis by (auto simp: serves_def cache_kept_def)
next
  case (step_stat key ks r)
  have "cache_wf Z s" using assms(2) by (simp add: serves_def represents_def)
  from cache_stat_ok [OF this step_stat(1)] step_stat(2) have "cache_kept Z s t \<and> proc.more t = proc.more s"
    by (elim exE conjE) simp
  then show ?thesis using serves_same [OF assms(2)] by (intro exI [of _ M]) simp
next
  case (step_info limited i)
  have w: "cache_wf Z s" "cache s = Some c" using assms(2) by (simp_all add: serves_def represents_def)
  obtain cs where "table_ok Z s cs" using w(1) by (rule cache_wfE)
  from cache_info_ok [OF w this, of limited] step_info have "cache_kept Z s t \<and> proc.more t = proc.more s"
    by (elim exE conjE) simp
  then show ?thesis using serves_same [OF assms(2)] by (intro exI [of _ M]) simp
next
  case step_request
  then show ?thesis using next_request_represents [of Z s M t] assms(2) by (auto simp: serves_def next_request_def)
qed

subsection \<open>A map that only grows\<close>

text \<open>What clients of the cache rely on: what is stored stays, with its value.\<close>

locale growing_map =
  fixes R :: "'s \<Rightarrow> ('k \<rightharpoonup> 'w) \<Rightarrow> bool"
    and step :: "'s \<Rightarrow> 's \<Rightarrow> bool"
  assumes step_grows: "R s M \<Longrightarrow> step s t \<Longrightarrow> \<exists>M'. R t M' \<and> M \<subseteq>\<^sub>m M'"
begin

lemma run_grows:
  assumes "step\<^sup>*\<^sup>* s t" "R s M"
  shows "\<exists>M'. R t M' \<and> M \<subseteq>\<^sub>m M'"
  using assms
proof (induction rule: rtranclp_induct)
  case base
  then show ?case by (intro exI [of _ M]) simp
next
  case (step t u)
  then obtain M1 where 1: "R t M1" "M \<subseteq>\<^sub>m M1" by blast
  obtain M2 where 2: "R u M2" "M1 \<subseteq>\<^sub>m M2" using step_grows [OF 1(1) step.hyps(2)] by blast
  have "M \<subseteq>\<^sub>m M2" by (rule map_le_trans [OF 1(2) 2(2)])
  with 2(1) show ?case by blast
qed

lemma stored_forever:
  assumes "step\<^sup>*\<^sup>* s t" "R s M" "M k = Some w"
  shows "\<exists>M'. R t M' \<and> M' k = Some w"
proof -
  obtain M' where "R t M'" "M \<subseteq>\<^sub>m M'" using run_grows [OF assms(1,2)] by blast
  with assms(3) show ?thesis by (metis domI map_le_def)
qed

lemma never_forgotten:
  assumes "step\<^sup>*\<^sup>* s t" "R s M"
  shows "\<exists>M'. R t M' \<and> dom M \<subseteq> dom M'"
  using run_grows [OF assms] map_le_implies_dom_le by blast

end

interpretation cmap: growing_map "serves Z c" "cache_step Z" for Z c
  by unfold_locales (rule cache_step_grows)

end
