(* ===== verification/Iterator_Laws.thy ===== *)
theory Iterator_Laws
  imports Iterator Cache_Run
begin

text \<open>
  The iterator delivers the matching entries of the table, chunk by chunk. A chunk is a run of whole
  slots; what is still to be delivered is the rest of the buffer and the entries of the slots
  that have not been read.
\<close>

subsection \<open>Matching entries and their items\<close>

definition key_matches :: "immutable_cache_iterator_t \<Rightarrow> string \<Rightarrow> bool" where
  "key_matches it k \<longleftrightarrow>
     (case search_hash it of Some ks \<Rightarrow> KStr k \<in> set ks | None \<Rightarrow> (case regex it of None \<Rightarrow> True | Some f \<Rightarrow> f k))"

definition entry_matches :: "immutable_cache_iterator_t \<Rightarrow> heap \<Rightarrow> addr \<Rightarrow> bool" where
  "entry_matches it H a \<longleftrightarrow>
     (case H a of Some (CEntry e) \<Rightarrow> (case H (ekey e) of Some (CStr s) \<Rightarrow> key_matches it (zstr_val s) | _ \<Rightarrow> False) | _ \<Rightarrow> False)"

definition item_at :: "zend_abi \<Rightarrow> immutable_cache_cache_t \<Rightarrow> heap \<Rightarrow> zend_ulong \<Rightarrow> addr \<Rightarrow> immutable_cache_iterator_item_t" where
  "item_at Z c H fmt a = projr (immutable_cache_iterator_item_ctor Z c H fmt a)"

text \<open>An item of an entry can be made, it has a key, and it can be dropped again.\<close>

definition item_fine :: "heap \<Rightarrow> immutable_cache_iterator_item_t \<Rightarrow> bool" where
  "item_fine H x \<longleftrightarrow> ikey x \<noteq> 0 \<and> immutable_cache_iterator_item_dtor H x = Inr ()"

definition itemizable :: "zend_abi \<Rightarrow> immutable_cache_cache_t \<Rightarrow> heap \<Rightarrow> zend_ulong \<Rightarrow> addr \<Rightarrow> bool" where
  "itemizable Z c H fmt a \<longleftrightarrow> (\<exists>k. key_at Z H a k) \<and>
     immutable_cache_iterator_item_ctor Z c H fmt a = Inr (item_at Z c H fmt a) \<and>
     item_fine H (item_at Z c H fmt a)"

lemma search_match_ok:
  "key_at Z H a k \<Longrightarrow> H a = Some (CEntry e) \<Longrightarrow>
    immutable_cache_iterator_search_match H (regex it) (search_hash it) e = Inr (entry_matches it H a)"
  by (auto simp: key_at_def immutable_cache_iterator_search_match_def entry_matches_def key_matches_def Let_def split: option.splits)

lemma entry_matches_key: "key_at Z H a k \<Longrightarrow> entry_matches it H a \<longleftrightarrow> key_matches it k"
  by (auto simp: key_at_def entry_matches_def)

subsection \<open>Reading slots\<close>

abbreviation matching_items ::
  "zend_abi \<Rightarrow> immutable_cache_cache_t \<Rightarrow> heap \<Rightarrow> immutable_cache_iterator_t \<Rightarrow> addr list \<Rightarrow> immutable_cache_iterator_item_t list" where
  "matching_items Z c H it as \<equiv> map (item_at Z c H (format it)) (filter (entry_matches it H) as)"

lemma fetch_chain_ok:
  assumes "chain H p as" "\<forall>a \<in> set as. itemizable Z c H (format it) a" "stack_invar st" "ssize st + length as < 2 ^ 60"
  shows "\<exists>st'. fetch_chain Z c H it p count st = Some (Inr (count + length (filter (entry_matches it H) as), st')) \<and>
    stack_invar st' \<and> stack_list st' = stack_list st @ matching_items Z c H it as"
  using assms
proof (induction as arbitrary: p count st)
  case Nil
  then show ?case by (simp add: fetch_chain.simps)
next
  case (Cons a as)
  then obtain e k where e: "p = a" "a \<noteq> 0" "H a = Some (CEntry e)" "chain H (enext e) as" "key_at Z H a k"
    "immutable_cache_iterator_item_ctor Z c H (format it) a = Inr (item_at Z c H (format it) a)"
    by (auto simp: itemizable_def)
  note m = search_match_ok [OF e(5,3), of it]
  have as: "\<forall>a \<in> set as. itemizable Z c H (format it) a" using Cons.prems(2) by simp
  show ?case
  proof (cases "entry_matches it H a")
    case True
    obtain u where u: "immutable_cache_stack_push st (item_at Z c H (format it) a) = Inr u" "stack_invar u"
      "stack_list u = stack_list st @ [item_at Z c H (format it) a]"
      using stack_push_ok [OF Cons.prems(3)] Cons.prems(4) by fastforce
    have "ssize u = Suc (ssize st)" using arg_cong [OF u(3), of length] by simp
    then have "ssize u + length as < 2 ^ 60" using Cons.prems(4) by simp
    from Cons.IH [OF e(4) as u(2) this, of "count + 1"] show ?thesis
      using True e(1-3,6) m u(1,3) by (subst fetch_chain.simps) simp
  next
    case False
    have "ssize st + length as < 2 ^ 60" using Cons.prems(4) by simp
    from Cons.IH [OF e(4) as Cons.prems(3) this, of count] show ?thesis
      using False e(1-3) m by (subst fetch_chain.simps) simp
  qed
qed

lemma fetch_slots_ok:
  assumes ch: "list_all2 (chain H) sl cs" "nslots c = length sl"
    and it: "\<forall>a \<in> set (concat cs). itemizable Z c H (format it) a"
    and st: "stack_invar st" "ssize st + length (concat (drop i cs)) < 2 ^ 60" and i: "i \<le> length cs"
  shows "\<exists>count' j st'. fetch_slots Z c H sl it i count st = Inr (count', j, st') \<and> i \<le> j \<and> j \<le> length cs \<and>
    stack_invar st' \<and> stack_list st' @ matching_items Z c H it (concat (drop j cs)) =
      stack_list st @ matching_items Z c H it (concat (drop i cs)) \<and>
    count' + ssize st = count + ssize st' \<and> (j = length cs \<or> chunk_size it < count')"
  using st i
proof (induction "length cs - i" arbitrary: i count st)
  case 0
  then show ?case using ch list_all2_lengthD [OF ch(1)] by (simp add: fetch_slots.simps)
next
  case (Suc n)
  have i: "i < length cs" "i < nslots c" using Suc.hyps(2) ch(2) list_all2_lengthD [OF ch(1)] by simp_all
  show ?case
  proof (cases "count \<le> chunk_size it")
    case False
    then show ?thesis using i Suc.prems by (simp add: fetch_slots.simps)
  next
    case True
    have d: "concat (drop i cs) = cs ! i @ concat (drop (Suc i) cs)" using Cons_nth_drop_Suc [OF i(1)] by (metis concat.simps(2))
    have c: "chain H (sl ! i) (cs ! i)" using ch(1) i(1) by (simp add: list_all2_conv_all_nth)
    have "\<forall>a \<in> set (cs ! i). itemizable Z c H (format it) a" using it nth_mem [OF i(1)] by auto
    from fetch_chain_ok [OF c this Suc.prems(1), of count] Suc.prems(2) d obtain u where
      u: "fetch_chain Z c H it (sl ! i) count st = Some (Inr (count + length (filter (entry_matches it H) (cs ! i)), u))" "stack_invar u"
        "stack_list u = stack_list st @ matching_items Z c H it (cs ! i)" by auto
    have l: "ssize u = ssize st + length (filter (entry_matches it H) (cs ! i))" using arg_cong [OF u(3), of length] by simp
    have "length (concat (drop i cs)) = length (cs ! i) + length (concat (drop (Suc i) cs))" using d by simp
    then have "ssize u + length (concat (drop (Suc i) cs)) < 2 ^ 60"
      using Suc.prems(2) l length_filter_le [of "entry_matches it H" "cs ! i"] by linarith
    moreover have "n = length cs - Suc i" "Suc i \<le> length cs" using Suc.hyps(2) i by simp_all
    ultimately obtain count' j st' where
      r: "fetch_slots Z c H sl it (Suc i) (count + length (filter (entry_matches it H) (cs ! i))) u = Inr (count', j, st')" "Suc i \<le> j"
        "j \<le> length cs" "stack_invar st'" "stack_list st' @ matching_items Z c H it (concat (drop j cs)) =
          stack_list u @ matching_items Z c H it (concat (drop (Suc i) cs))"
        "count' + ssize u = count + length (filter (entry_matches it H) (cs ! i)) + ssize st'" "j = length cs \<or> chunk_size it < count'"
      using Suc.hyps(1) [of "Suc i" u "count + length (filter (entry_matches it H) (cs ! i))"] u(2) by blast
    have "fetch_slots Z c H sl it i count st = Inr (count', j, st')" using True i(2) u(1) r(1) by (subst fetch_slots.simps) simp
    then show ?thesis using r(2-7) u(3) l d by (intro exI [of _ count'] exI [of _ j] exI [of _ st']) simp
  qed
qed

subsection \<open>Emptying the buffer\<close>

lemma drain_stack_ok:
  assumes "stack_invar st" "ssize st < 2 ^ 31" "\<forall>x \<in> set (stack_list st). item_fine H x"
  shows "\<exists>st'. drain_stack H st = Inr st' \<and> stack_invar st' \<and> stack_list st' = []"
  using assms
proof (induction "ssize st" arbitrary: st)
  case 0
  then have "stack_list st = []" by (simp add: stack_list_def)
  with 0 show ?case by (simp add: drain_stack.simps stack_size_ok)
next
  case (Suc n)
  have s: "0 < ssize st" using Suc.hyps(2) by simp
  obtain u where u: "immutable_cache_stack_pop st = Inr (last (stack_list st), u)" "stack_invar u" "stack_list u = butlast (stack_list st)"
    using stack_pop_ok [OF Suc.prems(1) s] by blast
  have n: "n = ssize u" using arg_cong [OF u(3), of length] Suc.hyps(2) by simp
  have "stack_list st \<noteq> []" using s length_stack_list [of st] by (metis list.size(3) less_numeral_extra(3))
  then have "last (stack_list st) \<in> set (stack_list st)" by simp
  then have d: "immutable_cache_iterator_item_dtor H (last (stack_list st)) = Inr ()" using Suc.prems(3) by (auto simp: item_fine_def)
  have "\<forall>x \<in> set (stack_list u). item_fine H x" using Suc.prems(3) u(3) in_set_butlastD by metis
  from Suc.hyps(1) [OF n u(2) _ this] Suc.prems(2) Suc.hyps(2) n show ?case
    using u(1) d s by (subst drain_stack.simps) (simp add: stack_size_ok)
qed

subsection \<open>The state during an iteration\<close>

text \<open>No lock fails, and the chains of the table are \<open>cs\<close>. The number of entries is that of an
  \<^verbatim>\<open>int\<close>, the type of the index into the buffer.\<close>

definition table_view :: "zend_abi \<Rightarrow> immutable_cache_cache_t \<Rightarrow> zend_ulong \<Rightarrow> addr list list \<Rightarrow> 'a cproc_scheme \<Rightarrow> bool" where
  "table_view Z c fmt cs s \<longleftrightarrow> cache s = Some c \<and> entry_level s = 0 \<and> lock_rc s = [] \<and> nslots c = length (slots s) \<and>
     list_all2 (chain (mem s)) (slots s) cs \<and> (\<forall>a \<in> set (concat cs). itemizable Z c (mem s) fmt a) \<and>
     length (concat cs) < 2 ^ 31"

lemma table_view_same:
  assumes "table_view Z c fmt cs s" "same_os s t" "proc.more t = proc.more s"
  shows "table_view Z c fmt cs t"
  using assms(1,2) proc_more_cproc [OF assms(3)] by (simp add: table_view_def same_os_def)

definition iter_ok :: "zend_abi \<Rightarrow> immutable_cache_cache_t \<Rightarrow> addr list list \<Rightarrow> immutable_cache_iterator_t \<times> 'a cproc_scheme \<Rightarrow> bool" where
  "iter_ok Z c cs x \<longleftrightarrow> (case x of (it, s) \<Rightarrow> table_view Z c (format it) cs s \<and> it_initialized it \<and> stack_invar (stack it) \<and>
     0 \<le> stack_idx it \<and> stack_idx it \<le> int (ssize (stack it)) \<and> slot_idx it \<le> length cs \<and>
     ssize (stack it) + length (concat (drop (slot_idx it) cs)) \<le> length (concat cs) \<and>
     (\<forall>y \<in> set (stack_list (stack it)). item_fine (mem s) y))"

definition pending :: "zend_abi \<Rightarrow> immutable_cache_cache_t \<Rightarrow> addr list list \<Rightarrow> immutable_cache_iterator_t \<times> 'a cproc_scheme \<Rightarrow>
  immutable_cache_iterator_item_t list" where
  "pending Z c cs x = (case x of (it, s) \<Rightarrow> drop (nat (stack_idx it)) (stack_list (stack it)) @
     matching_items Z c (mem s) it (concat (drop (slot_idx it) cs)))"

text \<open>What an iteration never changes.\<close>

definition same_search :: "immutable_cache_iterator_t \<Rightarrow> immutable_cache_iterator_t \<Rightarrow> bool" where
  "same_search it it' \<longleftrightarrow> format it' = format it \<and> regex it' = regex it \<and> search_hash it' = search_hash it \<and> chunk_size it' = chunk_size it \<and>
     it_initialized it' = it_initialized it"

lemma entry_matches_cong: "same_search it it' \<Longrightarrow> entry_matches it' H = entry_matches it H"
  by (simp add: same_search_def entry_matches_def key_matches_def fun_eq_iff split: option.splits cell.splits)

lemma matching_items_cong: "same_search it it' \<Longrightarrow> matching_items Z c H it' as = matching_items Z c H it as"
  using entry_matches_cong [of it it' H] by (simp add: same_search_def)

lemma length_matching_drop: "length (matching_items Z c H it (concat (drop j cs))) \<le> length (concat (drop j cs))"
  by simp

text \<open>Refilling the buffer: what is delivered next are the matching entries of the slots not yet read.\<close>

lemma fetch_active_ok:
  fixes s :: "'a cproc_scheme"
  assumes v: "table_view Z c (format it) cs s" and st: "stack_invar (stack it)" "ssize (stack it) < 2 ^ 31" "slot_idx it \<le> length cs"
    and d: "\<forall>y \<in> set (stack_list (stack it)). item_fine (mem s) y" and i: "it_initialized it"
  shows "\<exists>n it' s'. immutable_cache_iterator_fetch_active Z it s = Inr (n, it', s') \<and> iter_ok Z c cs (it', s') \<and> same_search it it' \<and>
    same_os s s' \<and> proc.more s' = proc.more s \<and> stack_idx it' = 0 \<and> n = ssize (stack it') \<and>
    pending Z c cs (it', s') = matching_items Z c (mem s) it (concat (drop (slot_idx it) cs)) \<and>
    (pending Z c cs (it', s') \<noteq> [] \<longrightarrow> 0 < n)"
proof -
  note tv = v [unfolded table_view_def]
  obtain st0 where st0: "drain_stack (mem s) (stack it) = Inr st0" "stack_invar st0" "stack_list st0 = []"
    using drain_stack_ok [OF st(1,2) d] by blast
  have z: "ssize st0 = 0" using st0(3) length_stack_list [of st0] by simp
  have lv: "entry_level s = 0" using tv by blast
  show ?thesis
    using lv
  proof (cases rule: global_rlock_cases)
    case (fail u)
    then show ?thesis using tv by simp
  next
    case (ok u)
    note f = proc_more_cproc [OF ok(4)]
    let ?it = "it\<lparr>stack := st0\<rparr>"
    have ml: "length (concat (drop (slot_idx it) cs)) \<le> length (concat cs)"
      by (metis append_take_drop_id concat_append length_append le_add2)
    have lim: "ssize st0 + length (concat (drop (slot_idx it) cs)) < 2 ^ 60" using ml tv z by simp
    obtain n j st' where r: "fetch_slots Z c (mem s) (slots s) ?it (slot_idx it) 0 st0 = Inr (n, j, st')" "slot_idx it \<le> j" "j \<le> length cs"
      "stack_invar st'" "stack_list st' @ matching_items Z c (mem s) ?it (concat (drop j cs)) =
        stack_list st0 @ matching_items Z c (mem s) ?it (concat (drop (slot_idx it) cs))"
      "n + ssize st0 = 0 + ssize st'" "j = length cs \<or> chunk_size ?it < n"
      using fetch_slots_ok [of "mem s" "slots s" cs c Z ?it st0 "slot_idx it" 0] tv st0(2) lim st(3) by auto
    let ?it' = "it\<lparr>slot_idx := j, stack := st', stack_idx := 0\<rparr>" and ?w = "immutable_cache_cache_runlock_global u"
    have ss: "same_search it ?it'" "same_search it ?it" by (simp_all add: same_search_def)
    note m = matching_items_cong [OF ss(1), of Z c "mem s"] matching_items_cong [OF ss(2), of Z c "mem s"]
    have fa: "immutable_cache_iterator_fetch_active Z it s = Inr (n, ?it', ?w)"
      using st0(1) tv ok(1) f r(1) by (simp add: immutable_cache_iterator_fetch_active_def)
    have w: "proc.more ?w = proc.more s" "mem ?w = mem s" using ok(4) f proc_more_cproc [of ?w s] by simp_all
    have eq: "stack_list st' @ matching_items Z c (mem s) it (concat (drop j cs)) = matching_items Z c (mem s) it (concat (drop (slot_idx it) cs))"
      using r(5) st0(3) unfolding m by simp
    have p: "pending Z c cs (?it', ?w) = matching_items Z c (mem s) it (concat (drop (slot_idx it) cs))"
      unfolding pending_def prod.case w(2) m using eq by simp
    let ?t = "concat (take (j - slot_idx it) (drop (slot_idx it) cs))"
    have sp: "concat (drop (slot_idx it) cs) = ?t @ concat (drop j cs)"
      using append_take_drop_id [of "j - slot_idx it" "drop (slot_idx it) cs"] r(2) concat_append by (metis drop_drop le_add_diff_inverse2)
    have sl: "stack_list st' = matching_items Z c (mem s) it ?t" using eq unfolding sp by simp
    have "ssize st' \<le> length ?t" using arg_cong [OF sl, of length] by simp
    then have sz: "ssize st' + length (concat (drop j cs)) \<le> length (concat cs)" using ml unfolding sp by simp
    have "set ?t \<subseteq> set (concat cs)" using set_drop_subset [of "slot_idx it" cs] set_take_subset [of "j - slot_idx it" "drop (slot_idx it) cs"]
      by fastforce
    then have dt: "\<forall>y \<in> set (stack_list st'). item_fine (mem s) y"
      using tv unfolding sl by (auto simp: itemizable_def)
    have "table_view Z c (format it) cs ?w" by (rule table_view_same [OF v ok(5) w(1)])
    then have o: "iter_ok Z c cs (?it', ?w)" using i r(3,4) sz dt w(2) by (simp add: iter_ok_def)
    have "0 < n" if "pending Z c cs (?it', ?w) \<noteq> []"
    proof (rule ccontr)
      assume "\<not> 0 < n"
      then have "n = 0" "stack_list st' = []" "j = length cs" using r(6,7) z by (simp_all add: stack_list_def)
      then show False using that eq unfolding p by simp
    qed
    then show ?thesis using fa o ss(1) ok(5) w(1) p r(6) z by (intro exI [of _ n] exI [of _ ?it'] exI [of _ ?w]) simp
  qed
qed

end
