(* ===== verification/Iterator_Walk.thy ===== *)
theory Iterator_Walk
  imports Iterator_Laws
begin

text \<open>
  The \<^verbatim>\<open>foreach\<close> loop over an iterator: it ends, and visits each matching entry once.
\<close>

subsection \<open>Cursors\<close>

text \<open>The loop the engine runs for \<^verbatim>\<open>foreach\<close>: \<^verbatim>\<open>valid\<close>, then \<^verbatim>\<open>current\<close>, the body, and \<^verbatim>\<open>next\<close>.
  It is a partial function: \<open>None\<close> when it does not end.\<close>

partial_function (option) foreach_loop ::
  "('s \<Rightarrow> crash + (bool \<times> 's)) \<Rightarrow> ('s \<Rightarrow> crash + ('x \<times> 's)) \<Rightarrow> ('s \<Rightarrow> 's) \<Rightarrow> 's \<Rightarrow> (crash + ('x list \<times> 's)) option" where
  [code]: "foreach_loop valid current nxt s =
     (case valid s of
        Inl err \<Rightarrow> Some (Inl err)
      | Inr (b, s) \<Rightarrow>
          if \<not> b then Some (Inr ([], s))
          else (case current s of
                  Inl err \<Rightarrow> Some (Inl err)
                | Inr (x, s) \<Rightarrow>
                    do {
                      r \<leftarrow> foreach_loop valid current nxt (nxt s);
                      Some (ebind r (\<lambda>(xs, s). Inr (x # xs, s)))
                    }))"

text \<open>\<open>next\<close> may only be called when the cursor is \<open>ready\<close>: after \<^verbatim>\<open>valid\<close> or \<^verbatim>\<open>current\<close>.\<close>

locale cursor =
  fixes ok ready :: "'s \<Rightarrow> bool" and todo :: "'s \<Rightarrow> 'x list"
    and valid :: "'s \<Rightarrow> crash + (bool \<times> 's)" and current :: "'s \<Rightarrow> crash + ('x \<times> 's)" and nxt :: "'s \<Rightarrow> 's"
    and eqv :: "'s \<Rightarrow> 's \<Rightarrow> bool"
  assumes valid_ok: "ok s \<Longrightarrow> \<exists>s'. valid s = Inr (todo s \<noteq> [], s') \<and> ok s' \<and> todo s' = todo s \<and> eqv s s' \<and> (todo s \<noteq> [] \<longrightarrow> ready s')"
    and current_ok: "ok s \<Longrightarrow> ready s \<Longrightarrow> \<exists>s'. current s = Inr (hd (todo s), s') \<and> ok s' \<and> todo s' = todo s \<and> eqv s s' \<and> ready s'"
    and next_ok: "ok s \<Longrightarrow> ready s \<Longrightarrow> ok (nxt s) \<and> todo (nxt s) = tl (todo s) \<and> eqv s (nxt s)"
    and eqv_trans: "eqv s t \<Longrightarrow> eqv t u \<Longrightarrow> eqv s u"
begin

lemma loop_visits_all: "ok s \<Longrightarrow> \<exists>s'. foreach_loop valid current nxt s = Some (Inr (todo s, s')) \<and> ok s' \<and> todo s' = [] \<and> eqv s s'"
proof (induction "todo s" arbitrary: s)
  case Nil
  then show ?case using valid_ok [OF Nil.prems] by (subst foreach_loop.simps) auto
next
  case (Cons x xs)
  obtain t where t: "valid s = Inr (True, t)" "ok t" "todo t = x # xs" "ready t" "eqv s t"
    using valid_ok [OF Cons.prems] Cons.hyps(2) by force
  obtain u where u: "current t = Inr (x, u)" "ok u" "todo u = x # xs" "ready u" "eqv t u"
    using current_ok [OF t(2,4)] t(3) by force
  note n = next_ok [OF u(2,4)]
  have "xs = todo (nxt u)" using n u(3) by simp
  from Cons.hyps(1) [OF this] n obtain w where
    w: "foreach_loop valid current nxt (nxt u) = Some (Inr (xs, w))" "ok w" "todo w = []" "eqv (nxt u) w" using u(3) by auto
  have "eqv s w" using t(5) u(5) n w(4) eqv_trans by blast
  with t(1) u(1) w Cons.hyps(2) show ?case by (subst foreach_loop.simps) auto
qed

end

text \<open>The methods as the engine calls them: an exception ends the loop.\<close>

definition uncaught :: "'x outcome \<times> 'i \<times> 's \<Rightarrow> crash + ('x \<times> 'i \<times> 's)" where
  "uncaught r = (case r of (Return x, it, s) \<Rightarrow> Inr (x, it, s) | (Throw msg, _) \<Rightarrow> Inl (CoreError msg) | (Fatal msg, _) \<Rightarrow> Inl (CoreError msg))"

definition foreach_valid :: "zend_abi \<Rightarrow> immutable_cache_iterator_t \<times> 'a cproc_scheme \<Rightarrow> crash + (bool \<times> immutable_cache_iterator_t \<times> 'a cproc_scheme)" where
  "foreach_valid Z x = (case x of (it, s) \<Rightarrow> ebind (iterator_valid Z it s) uncaught)"

definition foreach_current :: "zend_abi \<Rightarrow> immutable_cache_iterator_t \<times> 'a cproc_scheme \<Rightarrow>
  crash + ((iter_field \<times> (string \<times> iter_field) list) \<times> immutable_cache_iterator_t \<times> 'a cproc_scheme)" where
  "foreach_current Z x = (case x of (it, s) \<Rightarrow>
     ebind (ebind (iterator_current Z it s) uncaught) (\<lambda>(v, it, s).
     ebind (ebind (iterator_key Z it s) uncaught) (\<lambda>(k, it, s). Inr ((k, v), it, s))))"

definition foreach_next :: "immutable_cache_iterator_t \<times> 'a cproc_scheme \<Rightarrow> immutable_cache_iterator_t \<times> 'a cproc_scheme" where
  "foreach_next x = (case x of (it, s) \<Rightarrow> (snd (iterator_next it), s))"

definition foreach_iterator :: "zend_abi \<Rightarrow> immutable_cache_iterator_t \<Rightarrow> 'a cproc_scheme \<Rightarrow>
  (crash + ((iter_field \<times> (string \<times> iter_field) list) list \<times> immutable_cache_iterator_t \<times> 'a cproc_scheme)) option" where
  "foreach_iterator Z it s =
     (case ebind (iterator_rewind Z it s) uncaught of
        Inl err \<Rightarrow> Some (Inl err)
      | Inr (_, x) \<Rightarrow> foreach_loop (foreach_valid Z) (foreach_current Z) foreach_next x)"


subsection \<open>The iterator is a cursor\<close>

text \<open>What the loop body sees of an item.\<close>

definition shown :: "immutable_cache_iterator_item_t \<Rightarrow> iter_field \<times> (string \<times> iter_field) list" where
  "shown x = (IKey (ikey x), ivalue x)"

definition iter_ready :: "immutable_cache_iterator_t \<times> 'a cproc_scheme \<Rightarrow> bool" where
  "iter_ready x \<longleftrightarrow> (case x of (it, s) \<Rightarrow> stack_idx it < int (ssize (stack it)))"

definition iter_eqv :: "immutable_cache_iterator_t \<times> 'a cproc_scheme \<Rightarrow> immutable_cache_iterator_t \<times> 'a cproc_scheme \<Rightarrow> bool" where
  "iter_eqv x y \<longleftrightarrow> same_search (fst x) (fst y) \<and> same_os (snd x) (snd y) \<and> proc.more (snd y) = proc.more (snd x)"

lemma iter_okD:
  assumes "iter_ok Z c cs (it, s)"
  shows "table_view Z c (format it) cs s" "it_initialized it" "stack_invar (stack it)" "ssize (stack it) < 2 ^ 31"
    "immutable_cache_stack_size (stack it) = int (ssize (stack it))" "slot_idx it \<le> length cs"
    "0 \<le> stack_idx it" "stack_idx it \<le> int (ssize (stack it))"
    "\<forall>y \<in> set (stack_list (stack it)). item_fine (mem s) y"
proof -
  show l: "ssize (stack it) < 2 ^ 31" using assms by (simp add: iter_ok_def table_view_def)
  show "immutable_cache_stack_size (stack it) = int (ssize (stack it))" by (rule stack_size_ok [OF l])
qed (use assms in \<open>simp_all add: iter_ok_def\<close>)

lemma iter_valid_ok:
  fixes s :: "'a cproc_scheme"
  assumes o: "iter_ok Z c cs (it, s)"
  shows "\<exists>x. foreach_valid Z (it, s) = Inr (pending Z c cs (it, s) \<noteq> [], x) \<and> iter_ok Z c cs x \<and> pending Z c cs x = pending Z c cs (it, s) \<and>
    iter_eqv (it, s) x \<and> (pending Z c cs (it, s) \<noteq> [] \<longrightarrow> iter_ready x)"
proof (cases "stack_idx it = int (ssize (stack it))")
  case True
  note d = iter_okD [OF o]
  obtain n it' s' where f: "immutable_cache_iterator_fetch_active Z it s = Inr (n, it', s')" "iter_ok Z c cs (it', s')" "same_search it it'"
    "same_os s s'" "proc.more s' = proc.more s" "stack_idx it' = 0" "n = ssize (stack it')"
    "pending Z c cs (it', s') = matching_items Z c (mem s) it (concat (drop (slot_idx it) cs))" "pending Z c cs (it', s') \<noteq> [] \<longrightarrow> 0 < n"
    using fetch_active_ok [OF d(1,3,4,6,9,2)] by blast
  have p: "pending Z c cs (it, s) = pending Z c cs (it', s')" using True f(8) by (simp add: pending_def)
  have "n = 0 \<longrightarrow> pending Z c cs (it', s') = []" using f(9) by blast
  moreover have "n \<noteq> 0 \<longrightarrow> pending Z c cs (it', s') \<noteq> []" using f(6,7) by (auto simp: pending_def stack_list_def)
  ultimately have "foreach_valid Z (it, s) = Inr (pending Z c cs (it', s') \<noteq> [], it', s')"
    using True d(2,5) f(1,7) iter_okD(5) [OF f(2)] by (auto simp: foreach_valid_def iterator_valid_def uncaught_def)
  then show ?thesis using f p by (intro exI [of _ "(it', s')"]) (auto simp: iter_eqv_def iter_ready_def)
next
  case False
  note d = iter_okD [OF o]
  have lt: "stack_idx it < int (ssize (stack it))" using d(8) False by simp
  then have "pending Z c cs (it, s) \<noteq> []" using d(7) by (auto simp: pending_def)
  moreover have "foreach_valid Z (it, s) = Inr (True, it, s)"
    using False d(2,5,7) lt by (auto simp: foreach_valid_def iterator_valid_def uncaught_def)
  ultimately show ?thesis using o lt
    by (intro exI [of _ "(it, s)"]) (simp add: iter_eqv_def iter_ready_def same_search_def)
qed

lemma iter_item_ok:
  assumes "iter_ok Z c cs (it, s)" "iter_ready (it, s)"
  shows "iterator_item Z msg it s = Inr (Return (hd (pending Z c cs (it, s))), it, s)" "item_fine (mem s) (hd (pending Z c cs (it, s)))"
proof -
  note d = iter_okD [OF assms(1)]
  let ?i = "nat (stack_idx it)"
  have lt: "?i < ssize (stack it)" "stack_idx it \<noteq> int (ssize (stack it))" using assms(2) d(7) by (auto simp: iter_ready_def)
  have h: "hd (pending Z c cs (it, s)) = stack_list (stack it) ! ?i" using lt(1) by (simp add: pending_def hd_append hd_drop_conv_nth)
  have "stack_idx it < 2 ^ 64" using lt(1) d(4,7) by simp
  then have "nat (stack_idx it mod 2 ^ 64) = ?i" using d(7) by (simp add: mod_pos_pos_trivial)
  with h show "iterator_item Z msg it s = Inr (Return (hd (pending Z c cs (it, s))), it, s)"
    using stack_get_ok [OF d(3) lt(1)] d(2,5) lt by (simp add: iterator_item_def)
  have "stack_list (stack it) ! ?i \<in> set (stack_list (stack it))" using lt(1) by (intro nth_mem) simp
  with h d(9) show "item_fine (mem s) (hd (pending Z c cs (it, s)))" by simp
qed

lemma iter_current_ok:
  assumes "iter_ok Z c cs (it, s)" "iter_ready (it, s)"
  shows "foreach_current Z (it, s) = Inr (shown (hd (pending Z c cs (it, s))), it, s)"
  using iter_item_ok [OF assms]
  by (simp add: foreach_current_def iterator_current_def iterator_key_def uncaught_def shown_def item_fine_def)

lemma iter_next_ok:
  assumes "iter_ok Z c cs (it, s)" "iter_ready (it, s)"
  shows "iter_ok Z c cs (foreach_next (it, s)) \<and> pending Z c cs (foreach_next (it, s)) = tl (pending Z c cs (it, s)) \<and>
    iter_eqv (it, s) (foreach_next (it, s))"
proof -
  note d = iter_okD [OF assms(1)]
  let ?it = "it\<lparr>stack_idx := stack_idx it + 1, key_idx := key_idx it + 1\<rparr>"
  have lt: "stack_idx it < int (ssize (stack it))" using assms(2) by (simp add: iter_ready_def)
  then have n: "foreach_next (it, s) = (?it, s)" using d(2,5,7) by (simp add: foreach_next_def iterator_next_def)
  have ss: "same_search it ?it" by (simp add: same_search_def)
  have "nat (stack_idx it + 1) = Suc (nat (stack_idx it))" using d(7) by simp
  moreover have "nat (stack_idx it) < length (stack_list (stack it))" using lt d(7) by simp
  ultimately have "drop (nat (stack_idx it + 1)) (stack_list (stack it)) = tl (drop (nat (stack_idx it)) (stack_list (stack it)))"
    "drop (nat (stack_idx it)) (stack_list (stack it)) \<noteq> []"
    by (simp_all add: drop_Suc tl_drop)
  then have "pending Z c cs (?it, s) = tl (pending Z c cs (it, s))"
    unfolding pending_def prod.case matching_items_cong [OF ss] by simp
  moreover have "iter_ok Z c cs (?it, s)" using assms(1) lt d(7) by (simp add: iter_ok_def)
  ultimately show ?thesis using n ss by (simp add: iter_eqv_def)
qed

interpretation iter: cursor "iter_ok Z c cs" iter_ready "\<lambda>x. map shown (pending Z c cs x)" "foreach_valid Z" "foreach_current Z" foreach_next
  iter_eqv for Z c cs
proof unfold_locales
  fix x :: "immutable_cache_iterator_t \<times> 'a cproc_scheme"
  obtain it s where x: "x = (it, s)" by (cases x)
  assume o: "iter_ok Z c cs x"
  show "\<exists>y. foreach_valid Z x = Inr (map shown (pending Z c cs x) \<noteq> [], y) \<and> iter_ok Z c cs y \<and>
      map shown (pending Z c cs y) = map shown (pending Z c cs x) \<and> iter_eqv x y \<and> (map shown (pending Z c cs x) \<noteq> [] \<longrightarrow> iter_ready y)"
    using iter_valid_ok [of Z c cs it s] o x by auto
  assume r: "iter_ready x"
  have ne: "pending Z c cs x \<noteq> []" using r x iter_okD(7) [of Z c cs it s] o by (auto simp: pending_def iter_ready_def)
  show "\<exists>y. foreach_current Z x = Inr (hd (map shown (pending Z c cs x)), y) \<and> iter_ok Z c cs y \<and>
      map shown (pending Z c cs y) = map shown (pending Z c cs x) \<and> iter_eqv x y \<and> iter_ready y"
    using iter_current_ok [of Z c cs it s] o r x ne by (intro exI [of _ x]) (simp add: hd_map iter_eqv_def same_search_def)
  show "iter_ok Z c cs (foreach_next x) \<and> map shown (pending Z c cs (foreach_next x)) = tl (map shown (pending Z c cs x)) \<and> iter_eqv x (foreach_next x)"
    using iter_next_ok [of Z c cs it s] o r x by (simp add: map_tl)
next
  fix x y z :: "immutable_cache_iterator_t \<times> 'a cproc_scheme"
  assume "iter_eqv x y" "iter_eqv y z"
  then show "iter_eqv x z" by (auto simp: iter_eqv_def same_search_def same_os_def)
qed

end
