(* ===== verification/Cache_Props.thy ===== *)
theory Cache_Props
  imports Cache_Run
begin

text \<open>
  The statements on the cache as a whole, with a freshly created cache for the witnesses.
\<close>

subsection \<open>A concrete cache\<close>

lemma sample_cache_on:
  assumes H: "heap_hashed sample_zend H" "dom H \<subseteq> {..<1048576}"
  obtains s :: cproc and c where "represents sample_zend s Map.empty" "cache s = Some c" "serializer c = None"
    "mem s = H" "lock_rc s = []" "protect_memory s" "sma_num (sma s) = 1" "fits (hdrs s ! 0) 50000"
    "\<forall>a < 1048576. \<not> immutable_cache_sma_contains_pointer (sma s) a"
proof -
  obtain s :: cproc where s: "shm_wf sample_zend s" "mem s = H" "lock_rc s = []" "sma_num (sma s) = 1" "fits (hdrs s ! 0) 64000"
    "\<forall>a < 1048576. \<not> immutable_cache_sma_contains_pointer (sma s) a" "protect_memory s" "entry_level s = 0"
    using sample_mproc_wf [OF sample_zend_ok H, where ?'a = "unit cproc_ext"] by metis
  have n: "slots_for 500 = 521" by (simp add: slots_for_def make_prime_def primes_def)
  let ?n = "sizeof_cache_header + 8 * slots_for 500 + 64"
  have f: "fits (hdrs s ! 0) ?n" by (rule fits_mono [OF s(5)]) (simp_all add: n sizeof_cache_header_def)
  have nf: "\<not> (lock_rc s = [] \<longrightarrow> (\<forall>i < sma_num (sma s). \<not> fits (hdrs s ! i) ?n))" using f s(3,4) by auto
  have dj: "P \<or> Q \<and> R \<Longrightarrow> \<not> R \<Longrightarrow> P" for P Q R by blast
  from dj [OF cache_create_ok [OF s(1,8), of None 500 0] nf] obtain s' :: cproc and c where
    s': "cache_wf sample_zend s'" "\<forall>k a. \<not> cache_has sample_zend s' k a" "same_os s s'" "mem s' = mem s" "sma_num (sma s') = sma_num (sma s)"
      "segs (sma s') = segs (sma s)" "cache s' = Some c" "serializer c = None"
      "\<forall>i < sma_num (sma s). leaves_room (hdrs s ! i) ?n (hdrs s' ! i)"
    by blast
  have "fits (hdrs s ! 0) (?n + 50000 + 120)" by (rule fits_mono [OF s(5)]) (simp_all add: n sizeof_cache_header_def)
  then have "fits (hdrs s' ! 0) 50000"
    using s'(9) [rule_format, of 0, unfolded leaves_room_def] s(4) by (simp add: n sizeof_cache_header_def)
  moreover have "represents sample_zend s' Map.empty" using s'(1,2) by (simp add: represents_def)
  moreover have "immutable_cache_sma_contains_pointer (sma s') = immutable_cache_sma_contains_pointer (sma s)"
    by (rule contains_pointer_cong [OF s'(5,6)])
  ultimately show thesis using that [of s' c] s s' by (simp add: same_os_def)
qed

lemma sample_cache:
  obtains s :: cproc and c where "represents sample_zend s Map.empty" "cache s = Some c" "serializer c = None"
    "mem s = sample_heap" "lock_rc s = []" "protect_memory s" "sma_num (sma s) = 1" "fits (hdrs s ! 0) 50000"
    "\<forall>a < 1048576. \<not> immutable_cache_sma_contains_pointer (sma s) a"
  by (rule sample_cache_on [OF sample_heap_ok])

abbreviation sample_key :: zend_string where
  "sample_key \<equiv> \<lparr>str_refcount = 1, str_immutable = False, zstr_h = 0, zstr_val = ''key''\<rparr>"

lemma sample_to_store:
  assumes "mem s = sample_heap" "\<forall>a < 1048576. \<not> immutable_cache_sma_contains_pointer (sma s) a"
  shows "to_store (Suc (Suc (Suc (Suc 0)))) sample_zend None 0 16 (IS_ARRAY 48) s (Value sample_value) 224"
proof -
  have "immutable_cache_cache_init_entry 16 (IS_ARRAY 48) 0 = sample_entry"
    by (simp add: immutable_cache_cache_init_entry_def sample_entry_def)
  moreover obtain c where "persist_size (Suc (Suc (Suc (Suc 0)))) sample_zend (sma s) sample_heap None sample_entry (warnings s) = Inr (Some c, warnings s)"
    "psize_total c = 224" using sample_size [OF assms(2)] by blast
  moreover have "psize sample_value \<le> Suc (Suc (Suc (Suc 0)))" by (simp add: sample_value_def)
  ultimately show ?thesis using sample_rep assms(1) unfolding to_store_def by auto
qed

text \<open>The cache after the array has been stored.\<close>

lemma sample_stored:
  obtains s :: cproc and c where "represents sample_zend s [''key'' \<mapsto> Value sample_value]" "cache s = Some c" "serializer c = None"
    "mem s 16 = Some (CStr sample_key)" "lock_rc s = []" "protect_memory s"
proof -
  obtain s :: cproc and c where s: "represents sample_zend s Map.empty" "cache s = Some c" "serializer c = None" "mem s = sample_heap"
    "lock_rc s = []" "protect_memory s" "sma_num (sma s) = 1" "fits (hdrs s ! 0) 50000"
    "\<forall>a < 1048576. \<not> immutable_cache_sma_contains_pointer (sma s) a" by (rule sample_cache)
  have k: "mem s 16 = Some (CStr sample_key)" using s(4) by (simp add: sample_heap_at)
  have f: "fits (hdrs s ! 0) 224" by (rule fits_mono [OF s(8)]) simp_all
  obtain ret s' where s': "cache_kept sample_zend s s'"
    "represents sample_zend s' (if ret then Map.empty(zstr_val sample_key \<mapsto> Value sample_value) else Map.empty)"
    "\<not> ret \<longrightarrow> lock_rc s = [] \<longrightarrow> (Map.empty :: string \<rightharpoonup> stored) (zstr_val sample_key) \<noteq> None \<or> (\<forall>i < sma_num (sma s). \<not> fits (hdrs s ! i) 224)"
    using store_represents [OF s(1,2) k sample_to_store [OF s(4,9), folded s(3)]] by blast
  then have "ret" using s(5,7) f by auto
  with s' have "represents sample_zend s' [''key'' \<mapsto> Value sample_value]" by simp
  moreover have "mem s' 16 = Some (CStr sample_key)" using s'(1) k by (auto simp: cache_kept_def intro: preserves_str)
  ultimately show thesis using that [of s' c] s s'(1) by (simp add: cache_kept_def same_os_def)
qed

subsection \<open>Properties\<close>

text \<open>C2: Storing refines the insertion of a key into a map: when it reports success the key was absent
  and the cache now holds the map with that one key more, otherwise it holds the map as it was.\<close>

theorem store_refines:
  assumes "represents Z s M" "cache s = Some c" "mem s key = Some (CStr ks)" "to_store fuel Z (serializer c) now key val s w S"
  shows "\<exists>ret s'. immutable_cache_cache_store fuel Z now key val s = Inr (ret, s') \<and> same_os s s' \<and>
    represents Z s' (if ret then M(zstr_val ks \<mapsto> w) else M) \<and> (ret \<longrightarrow> M (zstr_val ks) = None)"
proof -
  obtain ret s' where "immutable_cache_cache_store fuel Z now key val s = Inr (ret, s')" "cache_kept Z s s'"
    "represents Z s' (if ret then M(zstr_val ks \<mapsto> w) else M)" "ret \<longrightarrow> M (zstr_val ks) = None"
    using store_represents [OF assms] by blast
  then show ?thesis by (intro exI [of _ ret] exI [of _ s']) (simp add: cache_kept_def)
qed

theorem store_refines_witness:
  "\<exists>(s :: cproc) ret s'. mem s = sample_heap \<and>
    immutable_cache_cache_store (Suc (Suc (Suc (Suc 0)))) sample_zend 0 16 (IS_ARRAY 48) s = Inr (ret, s') \<and>
    represents sample_zend s' (if ret then [''key'' \<mapsto> Value sample_value] else Map.empty)"
proof -
  obtain s :: cproc and c where s: "represents sample_zend s Map.empty" "cache s = Some c" "serializer c = None" "mem s = sample_heap"
    "\<forall>a < 1048576. \<not> immutable_cache_sma_contains_pointer (sma s) a" by (rule sample_cache)
  have k: "mem s 16 = Some (CStr sample_key)" using s(4) by (simp add: sample_heap_at)
  obtain ret s' where "immutable_cache_cache_store (Suc (Suc (Suc (Suc 0)))) sample_zend 0 16 (IS_ARRAY 48) s = Inr (ret, s')"
    "represents sample_zend s' (if ret then Map.empty(zstr_val sample_key \<mapsto> Value sample_value) else Map.empty)"
    using store_refines [OF s(1,2) k sample_to_store [OF s(4,5), folded s(3)]] by blast
  moreover from this have "represents sample_zend s' (if ret then [''key'' \<mapsto> Value sample_value] else Map.empty)" by (cases ret) simp_all
  ultimately show ?thesis using s(4) by blast
qed

text \<open>C7: A store succeeds whenever the key is absent, a segment has room for the copy and no lock
  fails.\<close>

theorem store_succeeds:
  assumes "represents Z s M" "cache s = Some c" "mem s key = Some (CStr ks)" "to_store fuel Z (serializer c) now key val s w S"
    "M (zstr_val ks) = None" "lock_rc s = []" "i < sma_num (sma s)" "fits (hdrs s ! i) S"
  shows "\<exists>s'. immutable_cache_cache_store fuel Z now key val s = Inr (True, s') \<and> represents Z s' (M(zstr_val ks \<mapsto> w))"
proof -
  obtain ret s' where s': "immutable_cache_cache_store fuel Z now key val s = Inr (ret, s')"
    "represents Z s' (if ret then M(zstr_val ks \<mapsto> w) else M)"
    "\<not> ret \<longrightarrow> lock_rc s = [] \<longrightarrow> M (zstr_val ks) \<noteq> None \<or> (\<forall>i < sma_num (sma s). \<not> fits (hdrs s ! i) S)"
    using store_represents [OF assms(1-4)] by blast
  then have ret using assms(5-8) by blast
  with s'(1,2) show ?thesis by (intro exI [of _ s']) simp
qed

theorem store_succeeds_witness:
  "\<exists>(s :: cproc) s'. mem s = sample_heap \<and>
    immutable_cache_cache_store (Suc (Suc (Suc (Suc 0)))) sample_zend 0 16 (IS_ARRAY 48) s = Inr (True, s') \<and>
    represents sample_zend s' [''key'' \<mapsto> Value sample_value]"
proof -
  obtain s :: cproc and c where s: "represents sample_zend s Map.empty" "cache s = Some c" "serializer c = None" "mem s = sample_heap"
    "lock_rc s = []" "sma_num (sma s) = 1" "fits (hdrs s ! 0) 50000" "\<forall>a < 1048576. \<not> immutable_cache_sma_contains_pointer (sma s) a"
    by (rule sample_cache)
  have k: "mem s 16 = Some (CStr sample_key)" using s(4) by (simp add: sample_heap_at)
  have f: "fits (hdrs s ! 0) 224" by (rule fits_mono [OF s(7)]) simp_all
  have "\<exists>s'. immutable_cache_cache_store (Suc (Suc (Suc (Suc 0)))) sample_zend 0 16 (IS_ARRAY 48) s = Inr (True, s') \<and>
    represents sample_zend s' (Map.empty(zstr_val sample_key \<mapsto> Value sample_value))"
    by (rule store_succeeds [OF s(1,2) k sample_to_store [OF s(4,8), folded s(3)] _ s(5) _ f]) (simp_all add: s(6))
  with s(4) show ?thesis by auto
qed

text \<open>C3: Fetching refines the lookup in the map: it ends, it returns exactly what was stored under the
  key, the value itself or what the unserializer makes of the stored bytes, and it leaves the map
  as it is. While the memory is protected it writes nothing.\<close>

theorem fetch_refines:
  assumes "represents Z s M" "cache s = Some c" "mem s key = Some (CStr ks)"
  shows "\<exists>b f s'. immutable_cache_cache_fetch Z key now s = Inr (b, f, s') \<and> represents Z s' M \<and> same_os s s' \<and>
    (protect_memory s \<longrightarrow> proc.more s' = proc.more s) \<and>
    (fetch_spec Z (serializer c) (M (zstr_val ks)) (mem s') b f \<or> \<not> b \<and> f = None \<and> lock_rc s \<noteq> [])"
proof -
  obtain b f s' where "immutable_cache_cache_fetch Z key now s = Inr (b, f, s')" "represents Z s' M" "cache_kept Z s s'"
    "protect_memory s \<longrightarrow> proc.more s' = proc.more s"
    "fetch_spec Z (serializer c) (M (zstr_val ks)) (mem s') b f \<or> \<not> b \<and> f = None \<and> lock_rc s \<noteq> []"
    using fetch_represents [OF assms] by blast
  then show ?thesis by (intro exI [of _ b] exI [of _ f] exI [of _ s']) (simp add: cache_kept_def)
qed

theorem fetch_refines_witness:
  "\<exists>(s :: cproc) f s'. immutable_cache_cache_fetch sample_zend 16 0 s = Inr (True, Some f, s') \<and> fetched_is (mem s') f sample_value \<and> mem s' = mem s"
proof -
  obtain s :: cproc and c where s: "represents sample_zend s [''key'' \<mapsto> Value sample_value]" "cache s = Some c" "serializer c = None"
    "mem s 16 = Some (CStr sample_key)" "lock_rc s = []" "protect_memory s" by (rule sample_stored)
  obtain b f s' where r: "immutable_cache_cache_fetch sample_zend 16 0 s = Inr (b, f, s')" "proc.more s' = proc.more s"
    "fetch_spec sample_zend (serializer c) ([''key'' \<mapsto> Value sample_value] (zstr_val sample_key)) (mem s') b f"
    using fetch_refines [OF s(1,2,4), of 0] s(5,6) by blast
  then show ?thesis using proc_more_cproc(1) [OF r(2)] by (intro exI [of _ s]) (auto simp: fetch_spec_def)
qed

text \<open>C17: \<^verbatim>\<open>immutable_cache_cache_exists\<close> tells whether the key is in the map and changes nothing.\<close>

theorem exists_refines:
  assumes "represents Z s M" "mem s key = Some (CStr ks)"
  shows "\<exists>b s'. immutable_cache_cache_exists Z key now s = Inr (b, s') \<and> represents Z s' M \<and> same_os s s' \<and>
    proc.more s' = proc.more s \<and> (b = (M (zstr_val ks) \<noteq> None) \<or> \<not> b \<and> lock_rc s \<noteq> [])"
proof -
  obtain b s' where "immutable_cache_cache_exists Z key now s = Inr (b, s')" "represents Z s' M" "cache_kept Z s s'"
    "proc.more s' = proc.more s" "b = (M (zstr_val ks) \<noteq> None) \<or> \<not> b \<and> lock_rc s \<noteq> []"
    using exists_represents [OF assms] by blast
  then show ?thesis by (intro exI [of _ b] exI [of _ s']) (simp add: cache_kept_def)
qed

theorem exists_refines_witness:
  "\<exists>(s :: cproc) s'. immutable_cache_cache_exists sample_zend 16 0 s = Inr (True, s') \<and> mem s' = mem s"
proof -
  obtain s :: cproc and c where s: "represents sample_zend s [''key'' \<mapsto> Value sample_value]" "cache s = Some c" "serializer c = None"
    "mem s 16 = Some (CStr sample_key)" "lock_rc s = []" "protect_memory s" by (rule sample_stored)
  obtain b s' where "immutable_cache_cache_exists sample_zend 16 0 s = Inr (b, s')" "proc.more s' = proc.more s"
    "b = ([''key'' \<mapsto> Value sample_value] (zstr_val sample_key) \<noteq> None) \<or> \<not> b \<and> lock_rc s \<noteq> []"
    using exists_refines [OF s(1,4), of 0] by blast
  then show ?thesis using s(5) proc_more_cproc(1) [of s' s] by (rule_tac exI [of _ s], rule_tac exI [of _ s']) simp
qed

text \<open>C1: Immutability. Once a key is stored, every later fetch returns the same value, whatever stores,
  lookups and reports happen in between, in this request, in later ones or in other processes.\<close>

theorem immutable_forever:
  assumes "represents Z s M" "cache s = Some c" "M k = Some w" "(cache_step Z)\<^sup>*\<^sup>* s t"
    "mem t key = Some (CStr ks)" "zstr_val ks = k" "lock_rc t = []"
  shows "\<exists>b f t'. immutable_cache_cache_fetch Z key now t = Inr (b, f, t') \<and> fetch_spec Z (serializer c) (Some w) (mem t') b f"
proof -
  have "serves Z c s M" using assms(1,2) by (simp add: serves_def)
  then obtain M' where M': "serves Z c t M'" "M' k = Some w" using cmap.stored_forever [where c = c and M = M and k = k and w = w] assms(3,4) by blast
  from M'(1) have "represents Z t M'" "cache t = Some c" by (simp_all add: serves_def)
  from fetch_represents [OF this assms(5), of now] assms(6,7) M'(2) show ?thesis by (auto simp: fetch_spec_def)
qed

theorem immutable_forever_witness:
  "\<exists>(s :: cproc) i t b f t'. immutable_cache_cache_info True s = Inr (i, t) \<and> immutable_cache_cache_fetch sample_zend 16 7 t = Inr (b, f, t') \<and>
    fetch_spec sample_zend None (Some (Value sample_value)) (mem t') b f"
proof -
  obtain s :: cproc and c where s: "represents sample_zend s [''key'' \<mapsto> Value sample_value]" "cache s = Some c" "serializer c = None"
    "mem s 16 = Some (CStr sample_key)" "lock_rc s = []" by (rule sample_stored)
  have w: "cache_wf sample_zend s" using s(1) by (rule represents_wf)
  obtain cs where "table_ok sample_zend s cs" using w by (rule cache_wfE)
  then obtain i t where t: "immutable_cache_cache_info True s = Inr (i, t)" "proc.more t = proc.more s" "cache_kept sample_zend s t"
    using cache_info_ok [OF w s(2)] by blast
  have st: "(cache_step sample_zend)\<^sup>*\<^sup>* s t" by (rule r_into_rtranclp) (rule step_info [OF t(1)])
  have k: "mem t 16 = Some (CStr sample_key)" "lock_rc t = []"
    using s(4,5) t(3) proc_more_cproc(1) [OF t(2)] by (simp_all add: cache_kept_def same_os_def)
  have "\<exists>b f t'. immutable_cache_cache_fetch sample_zend 16 7 t = Inr (b, f, t') \<and> fetch_spec sample_zend (serializer c) (Some (Value sample_value)) (mem t') b f"
    by (rule immutable_forever [OF s(1,2) _ st k(1) _ k(2), where k = "''key''"]) simp_all
  with t(1) s(3) show ?thesis by metis
qed

text \<open>C9: The invariant of the cache (chains without cycles, each key once and in its slot, counters that
  match the table, all objects inside live regions) holds in every reachable state.\<close>

theorem cache_invariant:
  assumes "represents Z s M" "cache s = Some c" "(cache_step Z)\<^sup>*\<^sup>* s t"
  shows "cache_wf Z t \<and> cache t = Some c"
proof -
  have "serves Z c s M" using assms(1,2) by (simp add: serves_def)
  from cmap.run_grows [OF assms(3) this] show ?thesis by (auto simp: serves_def represents_def)
qed

theorem cache_invariant_witness:
  "\<exists>(s :: cproc) t c. immutable_cache_cache_info True s = Inr (c, t) \<and> cache_wf sample_zend t"
proof -
  obtain s :: cproc and c where s: "represents sample_zend s Map.empty" "cache s = Some c" by (rule sample_cache)
  have w: "cache_wf sample_zend s" using s(1) by (rule represents_wf)
  obtain cs where "table_ok sample_zend s cs" using w by (rule cache_wfE)
  then obtain r t where t: "immutable_cache_cache_info True s = Inr (r, t)" using cache_info_ok [OF w s(2)] by blast
  then have "(cache_step sample_zend)\<^sup>*\<^sup>* s t" by (intro r_into_rtranclp) (rule step_info)
  from cache_invariant [OF s this] t show ?thesis by blast
qed

text \<open>C8: The first writer wins: a store of a key that is present reports failure and leaves every object,
  the slots and the counters as they were; the copy it made is released again.\<close>

theorem store_never_overwrites:
  assumes "represents Z s M" "cache s = Some c" "mem s key = Some (CStr ks)" "to_store fuel Z (serializer c) now key val s w S"
    "M (zstr_val ks) \<noteq> None"
  shows "\<exists>s'. immutable_cache_cache_store fuel Z now key val s = Inr (False, s') \<and> mem s' = mem s \<and> slots s' = slots s \<and>
    header s' = header s \<and> (lock_rc s = [] \<longrightarrow> sma_regions s' = sma_regions s)"
proof -
  have wf: "cache_wf Z s" "shm_wf Z s" using assms(1) by (simp_all add: represents_def cache_wf_def)
  obtain p t where p: "immutable_cache_persist fuel Z (serializer c) (immutable_cache_cache_init_entry key val now) s = Inr (p, t)"
    "persist_post Z s (immutable_cache_cache_init_entry key val now) (zstr_val ks) S (holds (sma s) w) p t"
    using to_store_persist [OF wf(2) assms(3,4)] by blast
  have "\<forall>H H' z. holds (sma s) w H z \<longrightarrow> preserves H H' \<longrightarrow> holds (sma s) w H' z" using holds_preserves by blast
  from cache_store_ok [OF wf(1) assms(2,3) p this] obtain ret s' where
    s': "immutable_cache_cache_store fuel Z now key val s = Inr (ret, s')"
      "if ret then store_done Z (immutable_cache_cache_init_entry key val now) S (holds (sma s) w) (zstr_val ks) s s' else store_failed Z s s'"
    by blast
  have "\<not> ret" using s'(2) represents_None [OF assms(1), of "zstr_val ks"] assms(5) by (auto simp: store_done_def split: if_splits)
  with s' show ?thesis by (simp add: store_failed_def)
qed

theorem store_never_overwrites_witness:
  "\<exists>(s :: cproc) s'. immutable_cache_cache_store (Suc 0) sample_zend 0 16 (IS_LONG 7) s = Inr (False, s') \<and> mem s' = mem s \<and>
    sma_regions s' = sma_regions s"
proof -
  obtain s :: cproc and c where s: "represents sample_zend s [''key'' \<mapsto> Value sample_value]" "cache s = Some c" "serializer c = None"
    "mem s 16 = Some (CStr sample_key)" "lock_rc s = []" by (rule sample_stored)
  have "to_store (Suc 0) sample_zend (serializer c) 0 16 (IS_LONG 7) s (Value (PLong 7))
      (if immutable_cache_sma_contains_pointer (sma s) 16 then 64 else 96)"
    unfolding to_store_def s(3)
    by (simp add: persist_size_def immutable_cache_cache_init_entry_def immutable_cache_persist_init_context_def
        immutable_cache_persist_calc_def immutable_cache_persist_calc_str_def immutable_cache_persist_calc_memoize_def
        ADD_SIZE_def s(4) sample_zend_def sizeof_entry_def rep_long)
  from store_never_overwrites [OF s(1,2,4) this] s(5) show ?thesis by auto
qed

text \<open>C19: A fresh cache is empty and has between 257 and 983063 slots. Its creation fails only when no
  segment has room for the header and the slots.\<close>

theorem cache_create_empty:
  assumes "shm_wf Z s" "entry_level s = 0" "lock_rc s = []"
    "i < sma_num (sma s)" "fits (hdrs s ! i) (sizeof_cache_header + 8 * slots_for hint + 64)"
  shows "\<exists>s' c. immutable_cache_cache_create ser hint now s = Inr s' \<and> represents Z s' Map.empty \<and> same_os s s' \<and>
    cache s' = Some c \<and> serializer c = ser \<and> 257 \<le> nslots c \<and> nslots c \<le> 983063"
proof -
  obtain s' c where "immutable_cache_cache_create ser hint now s = Inr s'" "cache_wf Z s'" "\<forall>k a. \<not> cache_has Z s' k a" "same_os s s'"
    "cache s' = Some c" "serializer c = ser" "nslots c = slots_for hint"
    using cache_create_ok [OF assms(1,2), of ser hint now] assms(3-5) by auto
  then show ?thesis using slots_for_bounds by (intro exI [of _ s'] exI [of _ c]) (simp add: represents_def)
qed

theorem cache_create_empty_witness:
  "\<exists>(s :: cproc) s'. immutable_cache_cache_create None 0 0 s = Inr s' \<and> represents sample_zend s' Map.empty"
proof -
  obtain s :: cproc where s: "shm_wf sample_zend s" "lock_rc s = []" "sma_num (sma s) = 1" "fits (hdrs s ! 0) 64000" "entry_level s = 0"
    using sample_mproc_wf [OF sample_zend_ok sample_heap_ok, where ?'a = "unit cproc_ext"] by metis
  have n: "slots_for 0 = 2053" by (simp add: slots_for_def make_prime_def primes_def)
  have f: "fits (hdrs s ! 0) (sizeof_cache_header + 8 * slots_for 0 + 64)"
    by (rule fits_mono [OF s(4)]) (simp_all add: n sizeof_cache_header_def)
  have "\<exists>s' c. immutable_cache_cache_create None 0 0 s = Inr s' \<and> represents sample_zend s' Map.empty \<and> same_os s s' \<and>
    cache s' = Some c \<and> serializer c = None \<and> 257 \<le> nslots c \<and> nslots c \<le> 983063"
    by (rule cache_create_empty [OF s(1,5,2) _ f]) (simp add: s(3))
  then show ?thesis by blast
qed

text \<open>C18: The full report lists every key of the map exactly once, and its counters agree with the list: the
  number of entries, their total size, and the number of entries of each slot.\<close>

theorem cache_info_complete:
  assumes "represents Z s M" "cache s = Some c" "lock_rc s = []"
  shows "\<exists>i as s'. immutable_cache_cache_info False s = Inr (Some i, s') \<and> proc.more s' = proc.more s \<and> distinct as \<and>
    cache_list i = Some (map (entry_info (mem s)) as) \<and> (\<forall>a. a \<in> set as \<longleftrightarrow> (\<exists>k. cache_has Z s k a)) \<and>
    num_entries i = int (length as) \<and> info_mem_size i = (\<Sum>l \<leftarrow> map (entry_info (mem s)) as. l_mem_size l) \<and>
    (\<exists>d. slot_distribution i = Some d \<and> sum_list (map snd d) = length as)"
proof -
  have wf: "cache_wf Z s" using assms(1) by (rule represents_wf)
  obtain cs where cs: "table_ok Z s cs" "0 < length (slots s)" using wf by (rule cache_wfE)
  let ?i = "(counters_info c (header s))\<lparr>cache_list := Some (map (entry_info (mem s)) (concat cs)), slot_distribution := Some (distribution 0 cs)\<rparr>"
  obtain s' where s': "immutable_cache_cache_info False s = Inr (Some ?i, s')" "proc.more s' = proc.more s"
    using cache_info_ok [OF wf assms(2) cs(1), of False] assms(3) by auto
  have e: "l_mem_size (entry_info (mem s) a) = entry_mem (mem s) a" if "a \<in> set (concat cs)" for a
    using table_keyed [OF cs(1) that] by (auto simp: key_at_def entry_info_def entry_mem_def immutable_cache_cache_link_info_def)
  have "map l_mem_size (map (entry_info (mem s)) (concat cs)) = map (entry_mem (mem s)) (concat cs)" using e by simp
  then have m: "info_mem_size ?i = (\<Sum>l \<leftarrow> map (entry_info (mem s)) (concat cs). l_mem_size l)"
    using cs(1) by (simp add: counters_info_def table_ok_def del: map_map)
  have n: "num_entries ?i = int (length (concat cs))" using cs(1) by (simp add: counters_info_def table_ok_def)
  show ?thesis
    using s' m n table_entries [OF cs] table_distinct [OF cs(1)]
    by (intro exI [of _ ?i] exI [of _ "concat cs"] exI [of _ s'])
      (simp add: distribution_sum)
qed

theorem cache_info_complete_witness:
  "\<exists>(s :: cproc) i s'. immutable_cache_cache_info False s = Inr (Some i, s') \<and> num_entries i = 1"
proof -
  obtain s :: cproc and c where s: "represents sample_zend s [''key'' \<mapsto> Value sample_value]" "cache s = Some c" "lock_rc s = []"
    by (rule sample_stored)
  obtain i as s' where i: "immutable_cache_cache_info False s = Inr (Some i, s')" "distinct as"
    "\<forall>a. a \<in> set as \<longleftrightarrow> (\<exists>k. cache_has sample_zend s k a)" "num_entries i = int (length as)"
    using cache_info_complete [OF s] by (elim exE conjE) (rule that)
  obtain a where a: "cache_has sample_zend s ''key'' a" using represents_None [OF s(1), of "''key''"] by auto
  have "cache_has sample_zend s k b \<longrightarrow> b = a" for k b
    using represents_None [OF s(1), of k] cache_has_unique [OF represents_wf [OF s(1)] _ a] by (cases "k = ''key''") auto
  then have "b \<in> set as \<longleftrightarrow> b = a" for b using i(3) a by blast
  then have "set as = {a}" by blast
  then have "length as = 1" using distinct_card [OF i(2)] by simp
  with i(1,4) show ?thesis by auto
qed

end
