(* ===== verification/Iterator_Props.thy ===== *)
theory Iterator_Props
  imports Iterator_Walk Cache_Props
begin

text \<open>
  The statements on \<^verbatim>\<open>ImmutableCacheIterator\<close>.
\<close>

subsection \<open>The table of a cache as the iterator sees it\<close>

lemma contained_pos:
  assumes "sma_wf s" "immutable_cache_sma_contains_pointer (sma s) a"
  shows "a \<noteq> 0"
proof -
  obtain i where i: "i < sma_num (sma s)" "SMA_ADDR s i \<le> a"
    using assms(2) by (auto simp: immutable_cache_sma_contains_pointer_def SMA_ADDR_def)
  have "0 < SMA_ADDR s i" using assms(1) i(1) by (simp add: sma_wf_def segments_apart_def)
  with i(2) show ?thesis by simp
qed

lemma table_itemizable:
  assumes r: "represents Z s M" and cs: "table_ok Z s cs" and a: "a \<in> set (concat cs)"
  shows "itemizable Z c (mem s) fmt a"
proof -
  have wf: "cache_wf Z s" "sma_wf s" "shm_closed Z (sma s) (mem s)" "0 < length (slots s)"
    using r by (auto simp: represents_def cache_wf_def shm_wf_def)
  obtain k where k: "cache_has Z s k a" using table_entries [OF cs wf(4)] a by blast
  have "key_at Z (mem s) a k" using k by (auto simp: cache_has_def)
  then obtain e ks where e: "mem s a = Some (CEntry e)" "mem s (ekey e) = Some (CStr ks)" by (auto simp: key_at_def)
  have co: "immutable_cache_sma_contains_pointer (sma s) (ekey e)"
    using shm_closedD [OF wf(3) e(1) table_contained [OF wf(1) cs a]] by simp
  have im: "str_immutable ks" using shm_closedD [OF wf(3) e(2) co] by simp
  obtain b f where "immutable_cache_cache_entry_fetch_zval Z c a (mem s) = Inr (b, f)" using entry_fetch_ok [OF r k] by metis
  then have "\<exists>x. immutable_cache_iterator_item_ctor Z c (mem s) fmt a = Inr x \<and> ikey x = ekey e"
    using e(1) by (cases "bit fmt 2") (simp_all add: immutable_cache_iterator_item_ctor_def)
  then obtain x where x: "immutable_cache_iterator_item_ctor Z c (mem s) fmt a = Inr x" "ikey x = ekey e" by blast
  have "item_fine (mem s) x"
    using x(2) contained_pos [OF wf(2) co] e(2) im by (simp add: item_fine_def immutable_cache_iterator_item_dtor_def)
  then show ?thesis using \<open>key_at Z (mem s) a k\<close> x(1) by (auto simp: itemizable_def item_at_def)
qed

lemma represents_view:
  assumes "represents Z s M" "cache s = Some c" "table_ok Z s cs" "lock_rc s = []" "nentries (header s) < 2 ^ 31"
  shows "table_view Z c fmt cs s"
proof -
  have "entry_level s = 0" "nslots c = length (slots s)" using assms(1,2) by (auto simp: represents_def cache_wf_def)
  moreover have "length (concat cs) < 2 ^ 31" using assms(3,5) by (simp add: table_ok_def del: length_concat)
  moreover have "\<forall>a \<in> set (concat cs). itemizable Z c (mem s) fmt a" using table_itemizable [OF assms(1,3)] by blast
  ultimately show ?thesis using assms(2,4) table_chains [OF assms(3)] unfolding table_view_def by blast
qed

subsection \<open>New iterators\<close>

definition fresh_iterator :: "immutable_cache_iterator_t \<Rightarrow> bool" where
  "fresh_iterator it \<longleftrightarrow> it_initialized it \<and> stack_invar (stack it) \<and> stack_list (stack it) = [] \<and> stack_idx it = 0 \<and> slot_idx it = 0 \<and>
     \<not> totals_flag it \<and> icount it = 0 \<and> isize it = 0 \<and> hits it = 0"

text \<open>The keys a search argument selects.\<close>

definition selected :: "(string \<Rightarrow> (string \<Rightarrow> bool) option) \<Rightarrow> php option \<Rightarrow> string \<Rightarrow> bool" where
  "selected compile v k \<longleftrightarrow>
     (case v of
        Some (PStr p) \<Rightarrow> p = '''' \<or> (\<exists>f. compile p = Some f \<and> f k)
      | Some (PArr es) \<Rightarrow> PStr k \<in> snd ` set es
      | _ \<Rightarrow> True)"

definition rep_opt :: "heap \<Rightarrow> zval option \<Rightarrow> php option \<Rightarrow> bool" where
  "rep_opt H z v \<longleftrightarrow> (case (z, v) of (None, None) \<Rightarrow> True | (Some x, Some y) \<Rightarrow> rep H x y \<and> x \<noteq> IS_ARRAY 0 | _ \<Rightarrow> False)"

text \<open>A pattern compiles; an array holds strings.\<close>

definition good_search :: "(string \<Rightarrow> (string \<Rightarrow> bool) option) \<Rightarrow> php option \<Rightarrow> bool" where
  "good_search compile v \<longleftrightarrow>
     (case v of Some (PStr p) \<Rightarrow> p = '''' \<or> compile p \<noteq> None | Some (PArr es) \<Rightarrow> (\<forall>e \<in> set es. \<exists>w. snd e = PStr w) | _ \<Rightarrow> True)"

lemma construct_ok:
  assumes "rep_opt (mem s) srch v" "good_search compile v" "0 \<le> fmt" "fmt < 2 ^ 32" "0 \<le> chunk" "chunk < 2 ^ 61"
  shows "\<exists>it. iterator_construct R compile True srch fmt chunk IMMUTABLE_CACHE_LIST_ACTIVE raw s = Inr (Return (), it, s) \<and>
    fresh_iterator it \<and> format it = word_of_int fmt \<and> key_matches it = selected compile v"
proof -
  let ?it = "raw\<lparr>slot_idx := 0, stack_idx := 0, key_idx := 0,
                  chunk_size := (if nat chunk = 0 then IMMUTABLE_CACHE_DEFAULT_CHUNK_SIZE else nat chunk),
                  stack := immutable_cache_stack_create (nat chunk), format := word_of_int fmt, totals_flag := False, icount := 0, isize := 0, hits := 0,
                  regex := None, search_hash := None\<rparr>"
  have "uint (word_of_int fmt :: 64 word) = fmt" using assms(3,4) by (simp add: uint_word_of_int)
  then have fm: "\<not> IMMUTABLE_CACHE_ITER_ALL < (word_of_int fmt :: 64 word)"
    using assms(4) by (simp add: word_less_def IMMUTABLE_CACHE_ITER_ALL_def)
  have "nat chunk < 2 ^ 61" using assms(5,6) by simp
  note st = stack_create_ok [OF this]
  have base: "iterator_construct R compile True srch fmt chunk IMMUTABLE_CACHE_LIST_ACTIVE raw s =
     (case srch of
        Some (IS_STRING a) \<Rightarrow>
          ebind (read_str (mem s) a) (\<lambda>str.
            if zstr_val str = [] then Inr (Return (), ?it\<lparr>it_initialized := True\<rparr>, s)
            else case compile (zstr_val str) of
                   None \<Rightarrow> Inr (Fatal ''Could not compile regular expression'', ?it, s)
                 | Some f \<Rightarrow> Inr (Return (), ?it\<lparr>regex := Some f, it_initialized := True\<rparr>, s))
      | Some (IS_ARRAY a) \<Rightarrow>
          ebind (immutable_cache_flip_hash R (mem s) a) (\<lambda>ks. Inr (Return (), ?it\<lparr>search_hash := ks, it_initialized := True\<rparr>, s))
      | _ \<Rightarrow> Inr (Return (), ?it\<lparr>it_initialized := True\<rparr>, s))"
    using assms(5) fm by (simp add: iterator_construct_def immutable_cache_iterator_obj_init_def Let_def)
  have fr: "fresh_iterator (?it\<lparr>regex := re, search_hash := ks, it_initialized := True\<rparr>)" for re ks using st by (simp add: fresh_iterator_def)
  have mk: "?thesis" if "iterator_construct R compile True srch fmt chunk IMMUTABLE_CACHE_LIST_ACTIVE raw s =
      Inr (Return (), ?it\<lparr>regex := re, search_hash := ks, it_initialized := True\<rparr>, s)"
    "\<forall>k. selected compile v k \<longleftrightarrow> (case ks of Some ks \<Rightarrow> KStr k \<in> set ks | None \<Rightarrow> (case re of None \<Rightarrow> True | Some f \<Rightarrow> f k))" for re ks
  proof (intro exI conjI)
    show "key_matches (?it\<lparr>regex := re, search_hash := ks, it_initialized := True\<rparr>) = selected compile v"
      by (rule ext, cases ks; cases re) (simp_all add: key_matches_def that(2))
  qed (use that(1) fr [where re = re and ks = ks] in simp_all)
  show ?thesis
  proof (cases "\<exists>z. srch = Some z \<and> (\<exists>a. z = IS_STRING a \<or> z = IS_ARRAY a)")
    case False
    then have "selected compile v k" for k using assms(1)
      by (auto simp: rep_opt_def selected_def split: option.splits php.splits elim: rep.cases)
    then show ?thesis using False base
      by (intro mk [where re = None and ks = None]) (auto split: option.splits zval.splits)
  next
    case True
    then obtain z w where z: "srch = Some z" "v = Some w" "rep (mem s) z w" "\<exists>a. z = IS_STRING a \<or> z = IS_ARRAY a" "z \<noteq> IS_ARRAY 0"
      using assms(1) by (auto simp: rep_opt_def split: option.splits)
    from z(4) obtain a where "z = IS_STRING a \<or> z = IS_ARRAY a" by blast
    then show ?thesis
    proof
      assume za: "z = IS_STRING a"
      with z(3) obtain str where str: "mem s a = Some (CStr str)" "w = PStr (zstr_val str)" by (auto elim: rep_stringE)
      show ?thesis
      proof (cases "zstr_val str = []")
        case True
        then show ?thesis using z za str base by (intro mk [where re = None and ks = None]) (auto simp: selected_def)
      next
        case False
        then obtain f where "compile (zstr_val str) = Some f" using assms(2) z(2) str(2) by (auto simp: good_search_def)
        then show ?thesis using False z za str base by (intro mk [where re = "Some f" and ks = None]) (auto simp: selected_def)
      qed
    next
      assume za: "z = IS_ARRAY a"
      with z(3) obtain es where es: "w = PArr es" by (auto elim: rep_arrayE)
      then obtain ks where "immutable_cache_flip_hash R (mem s) a = Inr (Some ks)" "set ks = {KStr v | v. PStr v \<in> snd ` set es}"
        using flip_hash_strings [of "mem s" a es R] z za assms(2) by (auto simp: good_search_def)
      then show ?thesis using z za es base by (intro mk [where re = None and ks = "Some ks"]) (auto simp: selected_def)
    qed
  qed
qed

text \<open>Rewinding puts all matching entries before the cursor.\<close>

lemma rewind_ok:
  fixes s :: "'a cproc_scheme"
  assumes v: "table_view Z c (format it) cs s" and f: "fresh_iterator it"
  shows "\<exists>it' s'. iterator_rewind Z it s = Inr (Return (), it', s') \<and> iter_ok Z c cs (it', s') \<and> iter_eqv (it, s) (it', s') \<and>
    pending Z c cs (it', s') = matching_items Z c (mem s) it (concat cs)"
proof -
  let ?it = "it\<lparr>slot_idx := 0, stack_idx := 0, key_idx := 0\<rparr>"
  have ss: "same_search it ?it" by (simp add: same_search_def)
  have z: "ssize (stack ?it) < 2 ^ 31" using f length_stack_list [of "stack it"] by (simp add: fresh_iterator_def)
  have "table_view Z c (format ?it) cs s" "stack_invar (stack ?it)" "slot_idx ?it \<le> length cs" "it_initialized ?it"
    "\<forall>y \<in> set (stack_list (stack ?it)). item_fine (mem s) y" using v f by (simp_all add: fresh_iterator_def)
  from fetch_active_ok [OF this(1,2) z this(3,5,4)] obtain n it' s' where
    r: "immutable_cache_iterator_fetch_active Z ?it s = Inr (n, it', s')" "iter_ok Z c cs (it', s')" "same_search ?it it'"
      "same_os s s'" "proc.more s' = proc.more s" "pending Z c cs (it', s') = matching_items Z c (mem s) ?it (concat (drop (slot_idx ?it) cs))"
    by blast
  have "pending Z c cs (it', s') = matching_items Z c (mem s) it (concat cs)" unfolding r(6) matching_items_cong [OF ss] by simp
  then show ?thesis using r f by (intro exI [of _ it'] exI [of _ s']) (simp add: iterator_rewind_def fresh_iterator_def iter_eqv_def same_search_def)
qed

lemma foreach_ok:
  fixes s :: "'a cproc_scheme"
  assumes "table_view Z c (format it) cs s" "fresh_iterator it"
  shows "\<exists>it' s'. foreach_iterator Z it s = Some (Inr (map shown (matching_items Z c (mem s) it (concat cs)), it', s')) \<and>
    same_os s s' \<and> proc.more s' = proc.more s"
proof -
  obtain it1 s1 where r: "iterator_rewind Z it s = Inr (Return (), it1, s1)" "iter_ok Z c cs (it1, s1)" "iter_eqv (it, s) (it1, s1)"
    "pending Z c cs (it1, s1) = matching_items Z c (mem s) it (concat cs)" using rewind_ok [OF assms] by blast
  obtain it2 s2 where l: "foreach_loop (foreach_valid Z) (foreach_current Z) foreach_next (it1, s1) =
      Some (Inr (map shown (matching_items Z c (mem s) it (concat cs)), it2, s2))" "iter_eqv (it1, s1) (it2, s2)"
    using iter.loop_visits_all [OF r(2)] r(4) by auto
  from r(1,3) l show ?thesis
    by (intro exI [of _ it2] exI [of _ s2]) (auto simp: foreach_iterator_def uncaught_def iter_eqv_def same_os_def)
qed


subsection \<open>Totals\<close>

definition entry_hits :: "heap \<Rightarrow> addr \<Rightarrow> int" where
  "entry_hits H a = (case H a of Some (CEntry e) \<Rightarrow> enhits e | _ \<Rightarrow> 0)"

definition add_totals :: "heap \<Rightarrow> addr list \<Rightarrow> immutable_cache_iterator_t \<Rightarrow> immutable_cache_iterator_t" where
  "add_totals H as it = it\<lparr>isize := isize it + (\<Sum>a \<leftarrow> as. entry_mem H a), hits := hits it + (\<Sum>a \<leftarrow> as. entry_hits H a),
     icount := icount it + int (length as)\<rparr>"

lemma add_totals_simps:
  "same_search it (add_totals H as it)" "add_totals H [] it = it" "add_totals H bs (add_totals H as it) = add_totals H (as @ bs) it"
  by (simp_all add: add_totals_def same_search_def)

lemma totals_chain_ok:
  assumes "chain H p as" "keyed Z H as"
  shows "totals_chain H it p = Some (Inr (add_totals H (filter (entry_matches it H) as) it))"
  using assms
proof (induction as arbitrary: p it)
  case Nil
  then show ?case by (simp add: totals_chain.simps add_totals_simps)
next
  case (Cons a as)
  then obtain e k where e: "p = a" "a \<noteq> 0" "H a = Some (CEntry e)" "chain H (enext e) as" "key_at Z H a k" "keyed Z H as"
    by (auto simp: keyed_def)
  let ?it = "if entry_matches it H a then it\<lparr>isize := isize it + emem_size e, hits := hits it + enhits e, icount := icount it + 1\<rparr> else it"
  have it: "?it = add_totals H (filter (entry_matches it H) [a]) it" using e(3) by (simp add: add_totals_def entry_mem_def entry_hits_def)
  have em: "entry_matches ?it H = entry_matches it H" unfolding it by (rule entry_matches_cong [OF add_totals_simps(1)])
  have "totals_chain H it p = totals_chain H ?it (enext e)"
    using e(1-3) search_match_ok [OF e(5,3), of it] by (subst totals_chain.simps) simp
  also have "\<dots> = Some (Inr (add_totals H (filter (entry_matches it H) as) ?it))" unfolding Cons.IH [OF e(4,6)] em ..
  finally show ?case unfolding it add_totals_simps(3) by simp
qed

lemma totals_slots_ok:
  assumes "list_all2 (chain H) ps cs" "\<forall>as \<in> set cs. keyed Z H as"
  shows "totals_slots H it ps = Inr (add_totals H (filter (entry_matches it H) (concat cs)) it)"
  using assms
proof (induction ps cs arbitrary: it rule: list_all2_induct)
  case (Cons p ps as cs)
  let ?it = "add_totals H (filter (entry_matches it H) as) it"
  have em: "entry_matches ?it H = entry_matches it H" by (rule entry_matches_cong [OF add_totals_simps(1)])
  have "totals_slots H ?it ps = Inr (add_totals H (filter (entry_matches ?it H) (concat cs)) ?it)" using Cons.IH Cons.prems by simp
  moreover have "keyed Z H as" using Cons.prems by simp
  ultimately show ?case using totals_chain_ok [OF Cons.hyps(1)] unfolding em by (simp add: add_totals_simps(3))
qed (simp add: add_totals_simps)

lemma totals_ok:
  assumes v: "table_view Z c fmt cs s"
  shows "\<exists>s'. immutable_cache_iterator_totals it s =
      Inr ((add_totals (mem s) (filter (entry_matches it (mem s)) (concat cs)) it)\<lparr>totals_flag := True\<rparr>, s') \<and>
    same_os s s' \<and> proc.more s' = proc.more s"
proof -
  note tv = v [unfolded table_view_def]
  have k: "\<forall>as \<in> set cs. keyed Z (mem s) as" using tv by (auto simp: keyed_def itemizable_def)
  have lv: "entry_level s = 0" using tv by blast
  show ?thesis
    using lv
  proof (cases rule: global_rlock_cases)
    case (fail u)
    then show ?thesis using tv by simp
  next
    case (ok u)
    note f = proc_more_cproc [OF ok(4)]
    show ?thesis using tv ok f totals_slots_ok [OF _ k, of "slots s" it]
      by (intro exI [of _ "immutable_cache_cache_runlock_global u"]) (simp add: immutable_cache_iterator_totals_def)
  qed
qed

subsection \<open>Properties\<close>

text \<open>A cache with one key has one entry.\<close>

lemma represents_entries:
  assumes r: "represents Z s [k \<mapsto> w]" and as: "distinct as" "\<forall>a. a \<in> set as \<longleftrightarrow> (\<exists>k. cache_has Z s k a)"
  shows "length as = 1"
proof -
  obtain a where a: "cache_has Z s k a" using represents_None [OF r, of k] by auto
  have "b = a" if "cache_has Z s j b" for j b
    using that represents_None [OF r, of j] cache_has_unique [OF represents_wf [OF r] _ a] by (cases "j = k") auto
  then have "b \<in> set as \<longleftrightarrow> b = a" for b using as(2) a by blast
  then have "set as = {a}" by blast
  then show ?thesis using distinct_card [OF as(1)] by simp
qed

lemma represents_single: "represents Z s [k \<mapsto> w] \<Longrightarrow> nentries (header s) = 1"
proof -
  assume r: "represents Z s [k \<mapsto> w]"
  obtain cs where cs: "table_ok Z s cs" "0 < length (slots s)" using represents_wf [OF r] by (rule cache_wfE)
  have "length (concat cs) = 1" using represents_entries [OF r table_distinct [OF cs(1)]] table_entries [OF cs] by blast
  then show ?thesis using cs(1) by (simp add: table_ok_def)
qed

definition blank_iterator :: immutable_cache_iterator_t where
  "blank_iterator = \<lparr>it_initialized = False, format = 0, slot_idx = 0, chunk_size = 0, stack = immutable_cache_stack_create 0, stack_idx = 0,
     regex = None, search_hash = None, key_idx = 0, totals_flag = False, hits = 0, isize = 0, icount = 0\<rparr>"

text \<open>A process in which the cache has not been created.\<close>

definition sample_proc :: cproc where
  "sample_proc = sample_mproc sample_heap
     (cproc.fields None \<lparr>nhits = 0, nmisses = 0, ninserts = 0, nentries = 0, hmem_size = 0, stime = 0, state = 0\<rparr> [])"

text \<open>The entries a new iterator selects: those of the table with a key the search argument selects.\<close>

lemma selected_entries:
  assumes "table_ok Z s cs" "0 < length (slots s)"
  shows "a \<in> set (filter (entry_matches it (mem s)) (concat cs)) \<longleftrightarrow> (\<exists>k. cache_has Z s k a \<and> key_matches it k)"
proof -
  have "entry_matches it (mem s) a \<longleftrightarrow> key_matches it k" if "cache_has Z s k a" for k
    using that entry_matches_key by (auto simp: cache_has_def)
  moreover have "a \<in> set (filter (entry_matches it (mem s)) (concat cs)) \<longleftrightarrow> (\<exists>k. cache_has Z s k a) \<and> entry_matches it (mem s) a"
    using table_entries [OF assms, of a] by auto
  ultimately show ?thesis by blast
qed

text \<open>C22: A \<^verbatim>\<open>foreach\<close> over a new iterator ends and visits every entry whose key the search argument
  selects (no argument: all; a pattern: the keys it matches; an array of strings: those keys) exactly
  once, in table order and whatever the chunk size, and changes nothing in shared memory.\<close>

theorem iterator_visits_all:
  assumes "represents Z s M" "cache s = Some c" "lock_rc s = []" "nentries (header s) < 2 ^ 31"
    "rep_opt (mem s) srch v" "good_search compile v" "0 \<le> fmt" "fmt < 2 ^ 32" "0 \<le> chunk" "chunk < 2 ^ 61"
  shows "\<exists>it as it' s'. iterator_construct R compile True srch fmt chunk IMMUTABLE_CACHE_LIST_ACTIVE raw s = Inr (Return (), it, s) \<and>
    foreach_iterator Z it s = Some (Inr (map (\<lambda>a. shown (item_at Z c (mem s) (word_of_int fmt) a)) as, it', s')) \<and>
    distinct as \<and> (\<forall>a. a \<in> set as \<longleftrightarrow> (\<exists>k. cache_has Z s k a \<and> selected compile v k)) \<and>
    (\<forall>a \<in> set as. immutable_cache_iterator_item_ctor Z c (mem s) (word_of_int fmt) a = Inr (item_at Z c (mem s) (word_of_int fmt) a)) \<and>
    proc.more s' = proc.more s"
proof -
  obtain cs where cs: "table_ok Z s cs" "0 < length (slots s)" using represents_wf [OF assms(1)] by (rule cache_wfE)
  obtain it where it: "iterator_construct R compile True srch fmt chunk IMMUTABLE_CACHE_LIST_ACTIVE raw s = Inr (Return (), it, s)"
    "fresh_iterator it" "format it = word_of_int fmt" "key_matches it = selected compile v" using construct_ok [OF assms(5-10)] by blast
  have v: "table_view Z c (format it) cs s" by (rule represents_view [OF assms(1,2) cs(1) assms(3,4)])
  let ?as = "filter (entry_matches it (mem s)) (concat cs)"
  obtain it' s' where f: "foreach_iterator Z it s = Some (Inr (map shown (matching_items Z c (mem s) it (concat cs)), it', s'))"
    "proc.more s' = proc.more s" using foreach_ok [OF v it(2)] by blast
  show ?thesis
  proof (intro exI conjI)
    show "foreach_iterator Z it s = Some (Inr (map (\<lambda>a. shown (item_at Z c (mem s) (word_of_int fmt) a)) ?as, it', s'))"
      using f(1) it(3) by (simp add: comp_def)
    show "distinct ?as" using table_distinct [OF cs(1)] by simp
    show "\<forall>a. a \<in> set ?as \<longleftrightarrow> (\<exists>k. cache_has Z s k a \<and> selected compile v k)" using selected_entries [OF cs, of _ it] it(4) by simp
    show "\<forall>a \<in> set ?as. immutable_cache_iterator_item_ctor Z c (mem s) (word_of_int fmt) a = Inr (item_at Z c (mem s) (word_of_int fmt) a)"
      using table_itemizable [OF assms(1) cs(1)] by (auto simp: itemizable_def)
  qed (rule it(1), rule f(2))
qed

theorem iterator_visits_all_witness:
  "\<exists>(s :: cproc) it xs it' s'. iterator_construct (\<lambda>_. IS_NULL) (\<lambda>_. None) True None 3 0 IMMUTABLE_CACHE_LIST_ACTIVE blank_iterator s =
      Inr (Return (), it, s) \<and> foreach_iterator sample_zend it s = Some (Inr (xs, it', s')) \<and> xs \<noteq> []"
proof -
  obtain s :: cproc and c where s: "represents sample_zend s [''key'' \<mapsto> Value sample_value]" "cache s = Some c" "lock_rc s = []"
    by (rule sample_stored)
  have n: "nentries (header s) < 2 ^ 31" using represents_single [OF s(1)] by simp
  have o: "rep_opt (mem s) None None" "good_search (\<lambda>_. None) None" by (simp_all add: rep_opt_def good_search_def)
  have num: "(0 :: int) \<le> 3" "(3 :: int) < 2 ^ 32" "(0 :: int) \<le> 0" "(0 :: int) < 2 ^ 61" by simp_all
  obtain it as it' s' where r: "iterator_construct (\<lambda>_. IS_NULL) (\<lambda>_. None) True None 3 0 IMMUTABLE_CACHE_LIST_ACTIVE blank_iterator s = Inr (Return (), it, s)"
    "foreach_iterator sample_zend it s = Some (Inr (map (\<lambda>a. shown (item_at sample_zend c (mem s) (word_of_int 3) a)) as, it', s'))"
    "\<forall>a. a \<in> set as \<longleftrightarrow> (\<exists>k. cache_has sample_zend s k a \<and> selected (\<lambda>_. None) None k)"
    using iterator_visits_all [OF s n o num, of "\<lambda>_. IS_NULL" blank_iterator] by (elim exE conjE) (rule that)
  obtain a where "cache_has sample_zend s ''key'' a" using represents_None [OF s(1), of "''key''"] by auto
  then have "as \<noteq> []" using r(3) by (auto simp: selected_def)
  with r(1,2) show ?thesis by blast
qed

text \<open>The totals of a new iterator are those of the entries it selects: their number, the sum of
  their sizes and the sum of their hits; a second call returns the same numbers.\<close>

theorem iterator_totals_correct:
  assumes "represents Z s M" "cache s = Some c" "lock_rc s = []" "nentries (header s) < 2 ^ 31" "fresh_iterator it"
  shows "\<exists>as it' s'. distinct as \<and> (\<forall>a. a \<in> set as \<longleftrightarrow> (\<exists>k. cache_has Z s k a \<and> key_matches it k)) \<and>
    iterator_getTotalCount it s = Inr (Return (int (length as)), it', s') \<and>
    iterator_getTotalSize it' s' = Inr (Return (\<Sum>a \<leftarrow> as. entry_mem (mem s) a), it', s') \<and>
    iterator_getTotalHits it' s' = Inr (Return (\<Sum>a \<leftarrow> as. entry_hits (mem s) a), it', s') \<and> proc.more s' = proc.more s"
proof -
  obtain cs where cs: "table_ok Z s cs" "0 < length (slots s)" using represents_wf [OF assms(1)] by (rule cache_wfE)
  let ?as = "filter (entry_matches it (mem s)) (concat cs)"
  let ?it = "(add_totals (mem s) ?as it)\<lparr>totals_flag := True\<rparr>"
  obtain s' where t: "immutable_cache_iterator_totals it s = Inr (?it, s')" "proc.more s' = proc.more s"
    using totals_ok [OF represents_view [OF assms(1,2) cs(1) assms(3,4)], of it] by blast
  show ?thesis
  proof (intro exI conjI)
    show "distinct ?as" using table_distinct [OF cs(1)] by simp
    show "\<forall>a. a \<in> set ?as \<longleftrightarrow> (\<exists>k. cache_has Z s k a \<and> key_matches it k)" using selected_entries [OF cs] by blast
    show "iterator_getTotalCount it s = Inr (Return (int (length ?as)), ?it, s')"
      using t(1) assms(5) by (simp add: iterator_getTotalCount_def iterator_total_def fresh_iterator_def add_totals_def)
  qed (use t(2) assms(5) in \<open>simp_all add: iterator_getTotalSize_def iterator_getTotalHits_def iterator_total_def fresh_iterator_def add_totals_def\<close>)
qed

theorem iterator_totals_correct_witness:
  "\<exists>(s :: cproc) it it' s'. iterator_getTotalCount it s = Inr (Return 1, it', s')"
proof -
  obtain s :: cproc and c where s: "represents sample_zend s [''key'' \<mapsto> Value sample_value]" "cache s = Some c" "lock_rc s = []"
    by (rule sample_stored)
  have n: "nentries (header s) < 2 ^ 31" using represents_single [OF s(1)] by simp
  have o: "rep_opt (mem s) None None" "good_search (\<lambda>_. None) None" by (simp_all add: rep_opt_def good_search_def)
  obtain it where it: "fresh_iterator it" "key_matches it = selected (\<lambda>_. None) None" using construct_ok [OF o, of 3 0] by auto
  obtain as it' s' where r: "distinct as" "\<forall>a. a \<in> set as \<longleftrightarrow> (\<exists>k. cache_has sample_zend s k a \<and> key_matches it k)"
    "iterator_getTotalCount it s = Inr (Return (int (length as)), it', s')"
    using iterator_totals_correct [OF s n it(1)] by (elim exE conjE) (rule that)
  have "\<forall>a. a \<in> set as \<longleftrightarrow> (\<exists>k. cache_has sample_zend s k a)" using r(2) it(2) by (simp add: selected_def)
  then have "length as = 1" using represents_entries [OF s(1)] r(1) by blast
  with r(3) show ?thesis by auto
qed

text \<open>A constructor call with a negative chunk size, an invalid format, an unknown list or a disabled
  module leaves the object uninitialized, and then every method throws instead of using it.\<close>

theorem iterator_unusable:
  assumes "\<not> it_initialized raw" "chunk < 0 \<or> \<not> enabled \<or> (0xffffffff :: zend_ulong) < word_of_int fmt \<or> lst \<noteq> IMMUTABLE_CACHE_LIST_ACTIVE"
  shows "\<exists>r s'. iterator_construct R compile enabled srch fmt chunk lst raw s = Inr (r, raw, s') \<and> mem s' = mem s \<and>
    iterator_rewind Z raw s' = Inr (Throw uninitialized_error, raw, s') \<and> iterator_valid Z raw s' = Inr (Throw uninitialized_error, raw, s') \<and>
    iterator_current Z raw s' = Inr (Throw uninitialized_error, raw, s') \<and> iterator_key Z raw s' = Inr (Throw uninitialized_error, raw, s') \<and>
    iterator_next raw = (Throw uninitialized_error, raw) \<and> iterator_getTotalHits raw s' = Inr (Throw uninitialized_error, raw, s') \<and>
    iterator_getTotalSize raw s' = Inr (Throw uninitialized_error, raw, s') \<and> iterator_getTotalCount raw s' = Inr (Throw uninitialized_error, raw, s')"
proof -
  have "\<exists>r s'. iterator_construct R compile enabled srch fmt chunk lst raw s = Inr (r, raw, s') \<and> mem s' = mem s"
    using assms(2)
    by (auto simp: iterator_construct_def immutable_cache_iterator_obj_init_def IMMUTABLE_CACHE_ITER_ALL_def immutable_cache_warning_def)
  then show ?thesis using assms(1)
    by (auto simp: iterator_rewind_def iterator_valid_def iterator_current_def iterator_key_def iterator_item_def iterator_next_def
        iterator_getTotalHits_def iterator_getTotalSize_def iterator_getTotalCount_def iterator_total_def)
qed

theorem iterator_unusable_witness:
  "\<exists>r s'. iterator_construct (\<lambda>_. IS_NULL) (\<lambda>_. None) True None 3 (- 1) IMMUTABLE_CACHE_LIST_ACTIVE blank_iterator sample_proc =
      Inr (r, blank_iterator, s') \<and> iterator_current sample_zend blank_iterator s' = Inr (Throw uninitialized_error, blank_iterator, s')"
  using iterator_unusable [of blank_iterator "- 1" True 3 IMMUTABLE_CACHE_LIST_ACTIVE "\<lambda>_. IS_NULL" "\<lambda>_. None" None sample_proc sample_zend]
  by (auto simp: blank_iterator_def)

text \<open>C37: \<^verbatim>\<open>next\<close> at the end of a chunk moves the index past the buffer instead of reading the next
  chunk, and the following \<^verbatim>\<open>current\<close> reads outside the buffer (an assertion in debug builds): two calls
  of \<^verbatim>\<open>next\<close> without \<^verbatim>\<open>valid\<close> in between skip the refill.\<close>

theorem iterator_next_past_chunk:
  assumes "it_initialized it" "0 < ssize (stack it)" "ssize (stack it) < 2 ^ 31" "stack_idx it = int (ssize (stack it))"
  shows "iterator_current Z (snd (iterator_next it)) s = Inl AssertFailed"
proof -
  have "nat ((int (ssize (stack it)) + 1) mod 2 ^ 64) = Suc (ssize (stack it))" using assms(3) by (simp add: nat_mod_distrib)
  then show ?thesis
    using assms stack_size_ok [OF assms(3)]
    by (simp add: iterator_next_def iterator_current_def iterator_item_def immutable_cache_stack_get_def)
qed

definition ended_iterator :: immutable_cache_iterator_t where
  "ended_iterator = blank_iterator\<lparr>it_initialized := True, stack_idx := 1,
     stack := (stack blank_iterator)\<lparr>data := (\<lambda>_. Some \<lparr>ikey = 8, ivalue = []\<rparr>), ssize := 1\<rparr>\<rparr>"

theorem iterator_next_past_chunk_witness:
  "iterator_current sample_zend (snd (iterator_next ended_iterator)) sample_proc = Inl AssertFailed"
  by (rule iterator_next_past_chunk) (simp_all add: ended_iterator_def)

end
