(* ===== verification/Signals.thy ===== *)
theory Signals
  imports Cache
begin

unbundle bit_operations_syntax

text \<open>
  \<^verbatim>\<open>immutable_cache_signal.c\<close>: with \<^verbatim>\<open>coredump_unmap\<close> set, a handler for the signals that dump core
  detaches the shared memory and calls the handler that was installed before. The table of signal
  actions is that of the kernel; \<open>sigaction_ok\<close> and \<open>sigset_ok\<close> tell for which signals \<^verbatim>\<open>sigaction\<close> succeeds in reading and in setting an action. What
  other code's handlers do is not modelled: calls to them are logged. Constants are those of Linux.
\<close>

subsection \<open>Data\<close>

datatype handler = SIG_DFL | SIG_IGN | SIG_ERR | Handler nat | immutable_cache_core_unmap_handler

record sigaction_t =
  sa_handler :: handler
  sa_flags :: "32 word"
  sa_mask :: "int set"

record immutable_cache_signal_entry_t =
  signo :: int
  siginfo :: bool
  phandler :: handler

text \<open>The pointer \<^verbatim>\<open>prev\<close>: null, a block of entries, or a block that has been freed.\<close>

datatype prev_block = NullPtr | Block "immutable_cache_signal_entry_t list" | Freed

datatype sig_event = CallSiginfo handler int | CallPlain handler int | Kill int

record sigproc = cproc +
  actions :: "int \<Rightarrow> sigaction_t"
  sigaction_ok :: "int \<Rightarrow> bool"
  sigset_ok :: "int \<Rightarrow> bool"
  installed :: nat
  prev :: prev_block
  sig_events :: "sig_event list"

definition SA_SIGINFO :: "32 word" where
  "SA_SIGINFO = 4"

definition SA_ONESHOT :: "32 word" where
  "SA_ONESHOT = 0x80000000"

subsection \<open>Handling a signal\<close>

definition log_event :: "sig_event \<Rightarrow> 'a sigproc_scheme \<Rightarrow> 'a sigproc_scheme" where
  "log_event e s = s\<lparr>sig_events := sig_events s @ [e]\<rparr>"

text \<open>The loop: \<open>lst\<close> is \<^verbatim>\<open>p_sig.signo\<close>, the number of the entry read before.\<close>

fun rehandle_loop :: "int \<Rightarrow> int \<Rightarrow> immutable_cache_signal_entry_t list \<Rightarrow> 'a sigproc_scheme \<Rightarrow> 'a sigproc_scheme" where
  "rehandle_loop n lst [] s = s"
| "rehandle_loop n lst (p # ps) s =
     (if lst = n then s
      else rehandle_loop n (signo p) ps
             (if signo p = n then log_event (if siginfo p then CallSiginfo (phandler p) n else CallPlain (phandler p) n) s else s))"

definition immutable_cache_rehandle_signal :: "int \<Rightarrow> 'a sigproc_scheme \<Rightarrow> crash + 'a sigproc_scheme" where
  "immutable_cache_rehandle_signal n s =
     (if installed s = 0 then Inr s
      else case prev s of Block ps \<Rightarrow> Inr (rehandle_loop n 0 (take (installed s) ps) s) | _ \<Rightarrow> Inl BadAccess)"

text \<open>\<open>unmap_ok\<close>: which segments \<^verbatim>\<open>munmap\<close> releases.\<close>

definition immutable_cache_core_unmap :: "(nat \<Rightarrow> bool) \<Rightarrow> int \<Rightarrow> 'a sigproc_scheme \<Rightarrow> crash + 'a sigproc_scheme" where
  "immutable_cache_core_unmap unmap_ok n s =
     ebind (case cache s of None \<Rightarrow> Inr s | Some c \<Rightarrow> immutable_cache_sma_detach unmap_ok s) (\<lambda>s.
     ebind (immutable_cache_rehandle_signal n s) (\<lambda>s. Inr (log_event (Kill n) s)))"

subsection \<open>Installing the handlers\<close>

definition append_prev :: "immutable_cache_signal_entry_t \<Rightarrow> 'a sigproc_scheme \<Rightarrow> crash + 'a sigproc_scheme" where
  "append_prev p s =
     (case prev s of
        NullPtr \<Rightarrow> Inr (s\<lparr>prev := Block [p], installed := installed s + 1\<rparr>)
      | Block ps \<Rightarrow> Inr (s\<lparr>prev := Block (take (installed s) ps @ [p]), installed := installed s + 1\<rparr>)
      | Freed \<Rightarrow> Inl BadAccess)"

definition immutable_cache_register_signal :: "int \<Rightarrow> handler \<Rightarrow> 'a sigproc_scheme \<Rightarrow> crash + (bool \<times> 'a sigproc_scheme)" where
  "immutable_cache_register_signal n h s =
     (if \<not> sigaction_ok s n then Inr (False, s)
      else (let sa = actions s n
            in if sa_handler sa = h then Inr (True, s)
               else ebind (if sa_handler sa \<noteq> SIG_ERR \<and> sa_handler sa \<noteq> SIG_DFL \<and> sa_handler sa \<noteq> SIG_IGN
                           then ebind (append_prev \<lparr>signo = n, siginfo = sa_flags sa AND SA_SIGINFO = SA_SIGINFO, phandler = sa_handler sa\<rparr> s) (\<lambda>s.
                                  Inr (sa, s))
                           else Inr (sa\<lparr>sa_mask := {}, sa_flags := SA_ONESHOT\<rparr>, s)) (\<lambda>(sa, s).
                      if sigset_ok s n then Inr (True, s\<lparr>actions := (actions s)(n := sa\<lparr>sa_handler := h\<rparr>)\<rparr>)
                      else Inr (True, immutable_cache_warning ''Error installing apc signal handler'' s))))"

text \<open>\<^verbatim>\<open>SIGSEGV SIGABRT SIGFPE SIGILL SIGBUS SIGIOT SIGQUIT SIGSYS SIGTRAP SIGXCPU SIGXFSZ\<close>.\<close>

definition coredump_signals :: "int list" where
  "coredump_signals = [11, 6, 8, 4, 7, 6, 3, 31, 5, 24, 25]"

fun register_signals :: "int list \<Rightarrow> 'a sigproc_scheme \<Rightarrow> crash + 'a sigproc_scheme" where
  "register_signals [] s = Inr s"
| "register_signals (n # ns) s =
     ebind (immutable_cache_register_signal n immutable_cache_core_unmap_handler s) (\<lambda>(_, s). register_signals ns s)"

definition immutable_cache_set_signals :: "bool \<Rightarrow> 'a sigproc_scheme \<Rightarrow> crash + 'a sigproc_scheme" where
  "immutable_cache_set_signals coredump_unmap s =
     (if installed s = 0 then if coredump_unmap then register_signals coredump_signals s else Inr s else Inr s)"

definition immutable_cache_shutdown_signals :: "'a sigproc_scheme \<Rightarrow> 'a sigproc_scheme" where
  "immutable_cache_shutdown_signals s = (if installed s > 0 then s\<lparr>prev := Freed, installed := 0\<rparr> else s)"

subsection \<open>Delivery\<close>

text \<open>The kernel delivers a signal: a one-shot action is reset first; the default action of these signals
  ends the process (\<open>False\<close>). Handlers of other code are logged.\<close>

definition deliver_signal :: "(nat \<Rightarrow> bool) \<Rightarrow> int \<Rightarrow> 'a sigproc_scheme \<Rightarrow> crash + (bool \<times> 'a sigproc_scheme)" where
  "deliver_signal unmap_ok n s =
     (let sa = actions s n;
          s = (if sa_flags sa AND SA_ONESHOT \<noteq> 0 then s\<lparr>actions := (actions s)(n := sa\<lparr>sa_handler := SIG_DFL\<rparr>)\<rparr> else s)
      in case sa_handler sa of
           SIG_DFL \<Rightarrow> Inr (False, s)
         | SIG_ERR \<Rightarrow> Inr (False, s)
         | SIG_IGN \<Rightarrow> Inr (True, s)
         | Handler h \<Rightarrow> Inr (True, log_event (if sa_flags sa AND SA_SIGINFO = SA_SIGINFO then CallSiginfo (Handler h) n else CallPlain (Handler h) n) s)
         | immutable_cache_core_unmap_handler \<Rightarrow> ebind (immutable_cache_core_unmap unmap_ok n s) (\<lambda>s. Inr (True, s)))"

subsection \<open>What is installed\<close>

text \<open>The actions of other code that are saved.\<close>

definition chained :: "sigaction_t \<Rightarrow> bool" where
  "chained sa \<longleftrightarrow> (\<exists>h. sa_handler sa = Handler h)"

definition saved :: "(int \<Rightarrow> sigaction_t) \<Rightarrow> int \<Rightarrow> immutable_cache_signal_entry_t" where
  "saved A n = \<lparr>signo = n, siginfo = sa_flags (A n) AND SA_SIGINFO = SA_SIGINFO, phandler = sa_handler (A n)\<rparr>"

definition taken_over :: "sigaction_t \<Rightarrow> sigaction_t" where
  "taken_over sa = (if chained sa then sa\<lparr>sa_handler := immutable_cache_core_unmap_handler\<rparr>
     else sa\<lparr>sa_mask := {}, sa_flags := SA_ONESHOT, sa_handler := immutable_cache_core_unmap_handler\<rparr>)"

text \<open>The state when the signals \<open>done\<close> have been registered; \<open>A\<close> are the actions before.\<close>

definition registry :: "(int \<Rightarrow> sigaction_t) \<Rightarrow> int set \<Rightarrow> 'a sigproc_scheme \<Rightarrow> bool" where
  "registry A D s \<longleftrightarrow> (\<exists>ps. (prev s = Block ps \<or> prev s = NullPtr \<and> ps = []) \<and> installed s = length ps \<and> distinct (map signo ps) \<and>
     set ps = saved A ` {n \<in> D. chained (A n)})"

definition registered :: "(int \<Rightarrow> sigaction_t) \<Rightarrow> int set \<Rightarrow> 'a sigproc_scheme \<Rightarrow> bool" where
  "registered A D s \<longleftrightarrow> (\<forall>n. actions s n = (if n \<in> D then taken_over (A n) else A n)) \<and> registry A D s"

text \<open>What registration leaves alone.\<close>

definition same_but_signals :: "'a sigproc_scheme \<Rightarrow> 'a sigproc_scheme \<Rightarrow> bool" where
  "same_but_signals s t \<longleftrightarrow> sigaction_ok t = sigaction_ok s \<and> sigset_ok t = sigset_ok s \<and> sig_events t = sig_events s \<and>
     sma t = sma s \<and> hdrs t = hdrs s \<and> cache t = cache s \<and> mem t = mem s \<and> header t = header s \<and> slots t = slots s \<and>
     os.truncate t = os.truncate s"

lemma signo_saved [simp]: "signo (saved A n) = n"
  by (simp add: saved_def)

lemma taken_over_handler [simp]: "sa_handler (taken_over sa) = immutable_cache_core_unmap_handler"
  by (simp add: taken_over_def)

lemma register_ok:
  assumes r: "registered A D s" and n: "sigaction_ok s n" "sigset_ok s n" "sa_handler (A n) \<noteq> immutable_cache_core_unmap_handler"
  shows "\<exists>s'. immutable_cache_register_signal n immutable_cache_core_unmap_handler s = Inr (True, s') \<and> registered A (insert n D) s' \<and>
    same_but_signals s s'"
proof (cases "n \<in> D")
  case True
  then have "actions s n = taken_over (A n)" using r by (simp add: registered_def)
  then have "immutable_cache_register_signal n immutable_cache_core_unmap_handler s = Inr (True, s)"
    unfolding immutable_cache_register_signal_def Let_def using n(1) by (simp only: if_False if_True taken_over_handler not_True_eq_False simp_thms)
  then show ?thesis using r True by (intro exI [of _ s]) (simp add: insert_absorb same_but_signals_def)
next
  case False
  obtain ps where ps: "prev s = Block ps \<or> prev s = NullPtr \<and> ps = []" "installed s = length ps" "distinct (map signo ps)"
    "set ps = saved A ` {n \<in> D. chained (A n)}" using r by (auto simp: registered_def registry_def)
  have a: "actions s n = A n" using r False by (simp add: registered_def)
  show ?thesis
  proof (cases "chained (A n)")
    case True
    let ?s = "s\<lparr>prev := Block (ps @ [saved A n]), installed := installed s + 1, actions := (actions s)(n := taken_over (A n))\<rparr>"
    have "immutable_cache_register_signal n immutable_cache_core_unmap_handler s = Inr (True, ?s)"
    proof -
      obtain h where h: "sa_handler (A n) = Handler h" using True by (auto simp: chained_def)
      have "append_prev (saved A n) s = Inr (s\<lparr>prev := Block (ps @ [saved A n]), installed := installed s + 1\<rparr>)"
        using ps(1) by (rule disjE) (simp_all add: append_prev_def ps(2))
      then show ?thesis using n(1,2) a h True by (simp add: immutable_cache_register_signal_def saved_def taken_over_def Let_def)
    qed
    moreover have "n \<notin> signo ` set ps" using False unfolding ps(4) by auto
    moreover have "{m \<in> insert n D. chained (A m)} = insert n {m \<in> D. chained (A m)}" using True by auto
    moreover have "same_but_signals s ?s" by (simp add: same_but_signals_def os.defs)
    moreover have "\<forall>m. actions ?s m = (if m \<in> insert n D then taken_over (A m) else A m)" using r by (simp add: registered_def)
    ultimately show ?thesis using ps by (intro exI [of _ ?s]) (simp add: registered_def registry_def)
  next
    case nc: False
    let ?s = "s\<lparr>actions := (actions s)(n := taken_over (A n))\<rparr>"
    have "immutable_cache_register_signal n immutable_cache_core_unmap_handler s = Inr (True, ?s)"
    proof -
      have "sa_handler (A n) = SIG_ERR \<or> sa_handler (A n) = SIG_DFL \<or> sa_handler (A n) = SIG_IGN"
        using nc n(3) by (cases "sa_handler (A n)") (simp_all add: chained_def)
      then show ?thesis using nc by (elim disjE) (simp_all add: immutable_cache_register_signal_def taken_over_def a n(1,2) Let_def)
    qed
    moreover have "{m \<in> insert n D. chained (A m)} = {m \<in> D. chained (A m)}" using nc by auto
    moreover have "same_but_signals s ?s" by (simp add: same_but_signals_def os.defs)
    moreover have "\<forall>m. actions ?s m = (if m \<in> insert n D then taken_over (A m) else A m)" using r by (simp add: registered_def)
    moreover have "prev ?s = prev s" "installed ?s = installed s" by simp_all
    ultimately show ?thesis unfolding registered_def registry_def using ps by (intro exI [of _ ?s] conjI) (assumption | metis)+
  qed
qed

lemma register_signals_ok:
  assumes "registered A D s" "\<forall>n \<in> set ns. sigaction_ok s n \<and> sigset_ok s n \<and> sa_handler (A n) \<noteq> immutable_cache_core_unmap_handler"
  shows "\<exists>s'. register_signals ns s = Inr s' \<and> registered A (D \<union> set ns) s' \<and> same_but_signals s s'"
  using assms
proof (induction ns arbitrary: D s)
  case Nil
  then show ?case by (simp add: same_but_signals_def)
next
  case (Cons n ns)
  obtain t where t: "immutable_cache_register_signal n immutable_cache_core_unmap_handler s = Inr (True, t)" "registered A (insert n D) t"
    "same_but_signals s t" using register_ok [OF Cons.prems(1), of n] Cons.prems(2) by auto
  have "\<forall>n \<in> set ns. sigaction_ok t n \<and> sigset_ok t n \<and> sa_handler (A n) \<noteq> immutable_cache_core_unmap_handler"
    using Cons.prems(2) t(3) by (simp add: same_but_signals_def)
  from Cons.IH [OF t(2) this] obtain u where u: "register_signals ns t = Inr u" "registered A (insert n D \<union> set ns) u" "same_but_signals t u"
    by blast
  then show ?case using t(1,3) by (intro exI [of _ u]) (simp add: same_but_signals_def)
qed

text \<open>The saved handler of a signal, and no other, is called.\<close>

lemma rehandle_skip: "lst = n \<Longrightarrow> rehandle_loop n lst ps s = s"
  by (cases ps) simp_all

lemma rehandle_loop_ok:
  "n \<noteq> lst \<Longrightarrow> distinct (map signo ps) \<Longrightarrow> rehandle_loop n lst ps s =
    (case filter (\<lambda>p. signo p = n) ps of [] \<Rightarrow> s
     | p # _ \<Rightarrow> log_event (if siginfo p then CallSiginfo (phandler p) n else CallPlain (phandler p) n) s)"
  by (induction ps arbitrary: lst) (auto simp: rehandle_skip)

lemma rehandle_ok:
  assumes r: "registry A D s" and n: "n \<in> D" "n \<noteq> 0"
  shows "immutable_cache_rehandle_signal n s = Inr (if chained (A n)
    then log_event (if sa_flags (A n) AND SA_SIGINFO = SA_SIGINFO then CallSiginfo (sa_handler (A n)) n else CallPlain (sa_handler (A n)) n) s
    else s)"
proof -
  obtain ps where ps: "prev s = Block ps \<or> prev s = NullPtr \<and> ps = []" "installed s = length ps" "distinct (map signo ps)"
    "set ps = saved A ` {n \<in> D. chained (A n)}" using r by (auto simp: registry_def)
  have eq: "immutable_cache_rehandle_signal n s = Inr (rehandle_loop n 0 ps s)" using ps(1,2) by (auto simp: immutable_cache_rehandle_signal_def)
  show ?thesis
  proof (cases "chained (A n)")
    case False
    then have "filter (\<lambda>p. signo p = n) ps = []" unfolding filter_empty_conv ps(4) by auto
    with False show ?thesis using eq rehandle_loop_ok [OF n(2) ps(3), of s] by simp
  next
    case True
    then have "saved A n \<in> set ps" using ps(4) n(1) by blast
    then have "filter (\<lambda>p. signo p = n) ps \<noteq> []" unfolding filter_empty_conv using signo_saved [of A n] by blast
    then obtain p qs where pq: "filter (\<lambda>p. signo p = n) ps = p # qs" by (cases "filter (\<lambda>p. signo p = n) ps") simp_all
    then have "p \<in> set (filter (\<lambda>p. signo p = n) ps)" by simp
    then have "p = saved A n" unfolding set_filter ps(4) using signo_saved by auto
    with pq have "filter (\<lambda>p. signo p = n) ps = saved A n # qs" by simp
    with True show ?thesis using eq rehandle_loop_ok [OF n(2) ps(3), of s] by (simp add: saved_def)
  qed
qed

end
