(* ===== verification/Signals_Props.thy ===== *)
theory Signals_Props
  imports Signals Iterator_Props
begin

unbundle bit_operations_syntax

text \<open>
  The statements on the signal handlers.
\<close>

subsection \<open>The state after installation and a delivery\<close>

lemma set_signals_ok:
  assumes "installed s = 0" "prev s = NullPtr"
    "\<forall>n \<in> set coredump_signals. sigaction_ok s n \<and> sigset_ok s n \<and> sa_handler (actions s n) \<noteq> immutable_cache_core_unmap_handler"
  shows "\<exists>s'. immutable_cache_set_signals True s = Inr s' \<and> registered (actions s) (set coredump_signals) s' \<and> same_but_signals s s'"
proof -
  have "registered (actions s) {} s" using assms(1,2) by (simp add: registered_def registry_def)
  from register_signals_ok [OF this assms(3)] assms(1) show ?thesis by (simp add: immutable_cache_set_signals_def)
qed

lemma unmap_keep [simp]: "sma (immutable_cache_unmap ok s) = sma s" "proc.more (immutable_cache_unmap ok s) = proc.more s"
  by (simp_all add: immutable_cache_unmap_def immutable_cache_warning_def)

lemma unmap_more:
  "sma (fold (\<lambda>i. immutable_cache_unmap (f i)) is s) = sma s" "proc.more (fold (\<lambda>i. immutable_cache_unmap (f i)) is s) = proc.more s"
  by (induction "is" arbitrary: s) simp_all

lemma detach_ok:
  assumes "initialized (sma s)"
  shows "\<exists>t. immutable_cache_sma_detach f s = Inr t \<and> \<not> initialized (sma t) \<and> proc.more t = proc.more s"
  using assms by (simp add: immutable_cache_sma_detach_def unmap_more Let_def)

lemma proc_more_sigproc:
  fixes s t :: "'a sigproc_scheme"
  assumes "proc.more t = proc.more s"
  shows "actions t = actions s" "installed t = installed s" "prev t = prev s" "cache t = cache s" "sig_events t = sig_events s"
  using assms by (cases s; cases t; simp)+

lemma log_event_simps [simp]:
  "sma (log_event e s) = sma s" "cache (log_event e s) = cache s" "actions (log_event e s) = actions s" "installed (log_event e s) = installed s"
  "prev (log_event e s) = prev s" "sig_events (log_event e s) = sig_events s @ [e]"
  by (simp_all add: log_event_def)

lemma registry_cong: "registry A D s \<Longrightarrow> prev t = prev s \<Longrightarrow> installed t = installed s \<Longrightarrow> registry A D t"
  by (simp add: registry_def)

lemma registeredD: "registered A D s \<Longrightarrow> registry A D s"
  by (simp add: registered_def)

definition saved_call :: "sigaction_t \<Rightarrow> int \<Rightarrow> sig_event list" where
  "saved_call sa n = (if chained sa then [if sa_flags sa AND SA_SIGINFO = SA_SIGINFO then CallSiginfo (sa_handler sa) n else CallPlain (sa_handler sa) n] else [])"

lemma coredump_signals_pos: "n \<in> set coredump_signals \<Longrightarrow> n \<noteq> 0"
  by (auto simp: coredump_signals_def)

lemma rehandle_events:
  assumes "registry A D s" "n \<in> D" "n \<noteq> 0"
  shows "\<exists>t. immutable_cache_rehandle_signal n s = Inr t \<and> sig_events t = sig_events s @ saved_call (A n) n \<and> sma t = sma s \<and> cache t = cache s \<and>
    actions t = actions s"
  using rehandle_ok [OF assms] by (simp add: saved_call_def)

subsection \<open>A process with signals\<close>

definition sample_sigproc :: "sigaction_t \<Rightarrow> sigproc" where
  "sample_sigproc sa = cproc.extend
     (sample_proc\<lparr>sma := empty_sma\<lparr>initialized := True\<rparr>, cache := Some \<lparr>cshmaddr = 0, serializer = None, nslots = 1, loaded_serializer = False\<rparr>\<rparr>)
     (sigproc.fields (\<lambda>_. sa) (\<lambda>_. True) (\<lambda>_. True) 0 NullPtr [])"

definition sample_action :: sigaction_t where
  "sample_action = \<lparr>sa_handler = Handler 7, sa_flags = SA_SIGINFO, sa_mask = {}\<rparr>"

lemma sample_sigproc_simps [simp]:
  "installed (sample_sigproc sa) = 0" "prev (sample_sigproc sa) = NullPtr" "actions (sample_sigproc sa) = (\<lambda>_. sa)"
  "sigaction_ok (sample_sigproc sa) n" "sigset_ok (sample_sigproc sa) n" "sig_events (sample_sigproc sa) = []"
  "cache (sample_sigproc sa) = Some \<lparr>cshmaddr = 0, serializer = None, nslots = 1, loaded_serializer = False\<rparr>"
  "initialized (sma (sample_sigproc sa))"
  by (simp_all add: sample_sigproc_def sample_proc_def sample_mproc_def cproc.defs sigproc.defs)

subsection \<open>Properties\<close>

text \<open>C24: With \<^verbatim>\<open>coredump_unmap\<close> every signal that dumps core gets the handler of the extension and the
  others keep theirs; the handler then calls exactly the handler that was installed before, with
  its own calling convention, and never itself; nothing else of the state changes.\<close>

theorem signals_chain:
  assumes "installed s = 0" "prev s = NullPtr"
    "\<forall>n \<in> set coredump_signals. sigaction_ok s n \<and> sigset_ok s n \<and> sa_handler (actions s n) \<noteq> immutable_cache_core_unmap_handler"
  shows "\<exists>s'. immutable_cache_set_signals True s = Inr s' \<and> same_but_signals s s' \<and>
    (\<forall>n. sa_handler (actions s' n) = (if n \<in> set coredump_signals then immutable_cache_core_unmap_handler else sa_handler (actions s n))) \<and>
    (\<forall>n \<in> set coredump_signals. \<exists>t. immutable_cache_rehandle_signal n s' = Inr t \<and> sig_events t = sig_events s @ saved_call (actions s n) n)"
proof -
  obtain s' where s': "immutable_cache_set_signals True s = Inr s'" "registered (actions s) (set coredump_signals) s'" "same_but_signals s s'"
    using set_signals_ok [OF assms] by blast
  have "\<forall>n \<in> set coredump_signals. \<exists>t. immutable_cache_rehandle_signal n s' = Inr t \<and> sig_events t = sig_events s @ saved_call (actions s n) n"
    using rehandle_events [OF registeredD [OF s'(2)]] coredump_signals_pos s'(3) by (fastforce simp: same_but_signals_def)
  moreover have "\<forall>n. sa_handler (actions s' n) = (if n \<in> set coredump_signals then immutable_cache_core_unmap_handler else sa_handler (actions s n))"
    using s'(2) by (simp add: registered_def)
  ultimately show ?thesis using s'(1,3) by blast
qed

theorem signals_chain_witness:
  "\<exists>s' t. immutable_cache_set_signals True (sample_sigproc sample_action) = Inr s' \<and>
    immutable_cache_rehandle_signal 11 s' = Inr t \<and> sig_events t = [CallSiginfo (Handler 7) 11]"
proof -
  have h: "\<forall>n \<in> set coredump_signals. sigaction_ok (sample_sigproc sample_action) n \<and> sigset_ok (sample_sigproc sample_action) n \<and>
    sa_handler (actions (sample_sigproc sample_action) n) \<noteq> immutable_cache_core_unmap_handler" by (simp add: sample_action_def)
  obtain s' where s': "immutable_cache_set_signals True (sample_sigproc sample_action) = Inr s'"
    "\<forall>n \<in> set coredump_signals. \<exists>t. immutable_cache_rehandle_signal n s' = Inr t \<and> sig_events t = sig_events (sample_sigproc sample_action) @ saved_call (actions (sample_sigproc sample_action) n) n"
    using signals_chain [OF _ _ h] by (auto intro: that)
  have "(11 :: int) \<in> set coredump_signals" by (simp add: coredump_signals_def)
  from s'(2) [rule_format, OF this] s'(1) show ?thesis by (auto simp: saved_call_def chained_def sample_action_def SA_SIGINFO_def)
qed



end
