(* ===== verification/Serializers.thy ===== *)
theory Serializers
  imports Cache
begin

text \<open>
  The registry of serializers of \<^verbatim>\<open>immutable_cache.c\<close>: an array of 16 slots, a slot with a null name
  being empty (\<open>None\<close>), the list of their names (\<^verbatim>\<open>php_immutable_cache.c\<close>), the built-in
  serializers (\<^verbatim>\<open>immutable_cache_cache.c\<close>) and the choice of the serializer of a cache.
\<close>

subsection \<open>Registration and lookup\<close>

definition IMMUTABLE_CACHE_MAX_SERIALIZERS :: nat where
  "IMMUTABLE_CACHE_MAX_SERIALIZERS = 16"

type_synonym serializers = "immutable_cache_serializer_t option list"

text \<open>\<^verbatim>\<open>{{0,}}\<close>.\<close>

definition immutable_cache_serializers :: serializers where
  "immutable_cache_serializers = replicate IMMUTABLE_CACHE_MAX_SERIALIZERS None"

text \<open>The loop over the slots, from slot \<open>i\<close>.\<close>

function register_at :: "immutable_cache_serializer_t \<Rightarrow> nat \<Rightarrow> serializers \<Rightarrow> bool \<times> serializers" where
  "register_at x i reg =
     (if i < IMMUTABLE_CACHE_MAX_SERIALIZERS
      then if reg ! i = None
           then (True, if i < IMMUTABLE_CACHE_MAX_SERIALIZERS - 1 then reg[i := Some x, i + 1 := None] else reg[i := Some x])
           else register_at x (Suc i) reg
      else (False, reg))"
  by pat_completeness auto
termination by (relation "measure (\<lambda>(x, i, reg). IMMUTABLE_CACHE_MAX_SERIALIZERS - i)") auto

declare register_at.simps [simp del]

definition immutable_cache_register_serializer ::
  "immutable_cache_serializer_t \<Rightarrow> serializers \<Rightarrow> 'a os_scheme \<Rightarrow> bool \<times> serializers \<times> 'a os_scheme" where
  "immutable_cache_register_serializer x reg s =
     (if ser_name x = ''default''
      then (False, reg, immutable_cache_warning ''_immutable_cache_register_serializer: The serializer name 'default' is reserved.'' s)
      else (let (ok, reg) = register_at x 0 reg in (ok, reg, s)))"

definition immutable_cache_get_serializers :: "serializers \<Rightarrow> immutable_cache_serializer_t option" where
  "immutable_cache_get_serializers reg = reg ! 0"

text \<open>The names: the loop stops at an empty slot only.\<close>

function names_from :: "serializers \<Rightarrow> nat \<Rightarrow> crash + string list" where
  "names_from reg i =
     (if i < length reg
      then (case reg ! i of None \<Rightarrow> Inr [] | Some x \<Rightarrow> ebind (names_from reg (Suc i)) (\<lambda>ns. Inr (ser_name x # ns)))
      else Inl BadAccess)"
  by pat_completeness auto
termination by (relation "measure (\<lambda>(reg, i). length reg - i)") auto

declare names_from.simps [simp del]

fun join_names :: "string list \<Rightarrow> string" where
  "join_names [] = ''''"
| "join_names [n] = n"
| "join_names (n # ns) = n @ '', '' @ join_names ns"

definition immutable_cache_get_supported_serializer_names :: "serializers \<Rightarrow> crash + string" where
  "immutable_cache_get_supported_serializer_names reg =
     ebind (names_from reg 0) (\<lambda>ns. Inr (if ns = [] then ''Broken'' else join_names ns @ '', default''))"

fun find_named :: "string \<Rightarrow> serializers \<Rightarrow> immutable_cache_serializer_t option" where
  "find_named name [] = None"
| "find_named name (r # reg) =
     (case r of Some x \<Rightarrow> if ser_name x = name then Some x else find_named name reg | None \<Rightarrow> find_named name reg)"

definition immutable_cache_find_serializer ::
  "string \<Rightarrow> serializers \<Rightarrow> 'a os_scheme \<Rightarrow> crash + (immutable_cache_serializer_t option \<times> 'a os_scheme)" where
  "immutable_cache_find_serializer name reg s =
     (case find_named name reg of
        Some x \<Rightarrow> Inr (Some x, s)
      | None \<Rightarrow>
          if name \<noteq> ''default''
          then ebind (immutable_cache_get_supported_serializer_names reg) (\<lambda>names.
                 Inr (None, immutable_cache_warning (''Could not find immutable_cache.serializer='' @ name @ ''. Supported serializers: '' @ names) s))
          else Inr (None, s))"

subsection \<open>The built-in serializers\<close>

text \<open>The engine's serializer, \<open>None\<close> when an exception was thrown: the buffer is released then.\<close>

definition php_immutable_cache_serializer :: "zend_abi \<Rightarrow> heap \<Rightarrow> zval \<Rightarrow> string option" where
  "php_immutable_cache_serializer Z H z = (case php_var_serialize Z H z of None \<Rightarrow> None | Some buf \<Rightarrow> Some buf)"

definition php_immutable_cache_unserializer :: "zend_abi \<Rightarrow> string \<Rightarrow> php option" where
  "php_immutable_cache_unserializer Z buf = (case php_var_unserialize Z buf of None \<Rightarrow> None | Some v \<Rightarrow> Some v)"

definition php_serializer :: "zend_abi \<Rightarrow> immutable_cache_serializer_t" where
  "php_serializer Z = \<lparr>ser_name = ''php'', serialize = php_immutable_cache_serializer Z, unserialize = php_immutable_cache_unserializer Z\<rparr>"

text \<open>igbinary returns \<open>0\<close> on success.\<close>

definition igbinary_immutable_cache_serializer :: "(heap \<Rightarrow> zval \<Rightarrow> int \<times> string) \<Rightarrow> heap \<Rightarrow> zval \<Rightarrow> string option" where
  "igbinary_immutable_cache_serializer igbinary_serialize H z = (let (rc, buf) = igbinary_serialize H z in if rc = 0 then Some buf else None)"

definition igbinary_immutable_cache_unserializer :: "(string \<Rightarrow> int \<times> php) \<Rightarrow> string \<Rightarrow> php option" where
  "igbinary_immutable_cache_unserializer igbinary_unserialize buf = (let (rc, v) = igbinary_unserialize buf in if rc = 0 then Some v else None)"

text \<open>igbinary as the build finds it: its functions when the extension is loaded.\<close>

type_synonym igbinary_ext = "((heap \<Rightarrow> zval \<Rightarrow> int \<times> string) \<times> (string \<Rightarrow> int \<times> php)) option"

subsection \<open>The serializer of a cache\<close>

definition immutable_cache_cache_serializer ::
  "string \<Rightarrow> serializers \<Rightarrow> 'a cproc_scheme \<Rightarrow> crash + 'a cproc_scheme" where
  "immutable_cache_cache_serializer name reg s =
     (case cache s of
        None \<Rightarrow> Inr s
      | Some c \<Rightarrow>
          if \<not> loaded_serializer c \<and> serializer c = None
          then ebind (immutable_cache_find_serializer name reg s) (\<lambda>(r, s).
                 Inr (s\<lparr>cache := Some (c\<lparr>serializer := r, loaded_serializer := loaded_serializer c \<or> r \<noteq> None \<or> name = ''php''\<rparr>)\<rparr>))
          else Inr s)"

subsection \<open>Laws\<close>

text \<open>The slots in use are a prefix.\<close>

definition registry_of :: "immutable_cache_serializer_t list \<Rightarrow> serializers" where
  "registry_of xs = map Some xs @ replicate (16 - length xs) None"

lemma empty_registry: "immutable_cache_serializers = registry_of []"
  by (simp add: immutable_cache_serializers_def IMMUTABLE_CACHE_MAX_SERIALIZERS_def registry_of_def)

lemma registry_nth:
  "length xs \<le> 16 \<Longrightarrow> i < 16 \<Longrightarrow> registry_of xs ! i = (if i < length xs then Some (xs ! i) else None)"
  by (simp add: registry_of_def nth_append)

lemma registry_append:
  assumes "length xs < 16"
  shows "(registry_of xs)[length xs := Some x] = registry_of (xs @ [x])"
    "(registry_of xs)[length xs := Some x, Suc (length xs) := None] = registry_of (xs @ [x])"
proof -
  have "replicate (16 - length xs) None = None # replicate (15 - length xs) (None :: immutable_cache_serializer_t option)"
    using assms by (simp add: Suc_diff_le [symmetric] flip: replicate_Suc)
  then show a: "(registry_of xs)[length xs := Some x] = registry_of (xs @ [x])" by (simp add: registry_of_def list_update_append)
  have "registry_of (xs @ [x]) ! Suc (length xs) = None \<or> length (registry_of (xs @ [x])) \<le> Suc (length xs)"
    using assms by (auto simp: registry_of_def nth_append)
  then show "(registry_of xs)[length xs := Some x, Suc (length xs) := None] = registry_of (xs @ [x])"
    unfolding a by (metis list_update_beyond list_update_id)
qed

lemma register_at_ok:
  "i \<le> length xs \<Longrightarrow> length xs \<le> 16 \<Longrightarrow>
    register_at x i (registry_of xs) = (if length xs < 16 then (True, registry_of (xs @ [x])) else (False, registry_of xs))"
proof (induction "length xs - i" arbitrary: i)
  case 0
  then show ?case using registry_append [of xs x] registry_nth [of xs i]
    by (subst register_at.simps) (auto simp: IMMUTABLE_CACHE_MAX_SERIALIZERS_def)
next
  case (Suc n)
  then have "registry_of xs ! i \<noteq> None" "i < 16" using registry_nth [of xs i] by simp_all
  with Suc show ?case by (subst register_at.simps) (auto simp: IMMUTABLE_CACHE_MAX_SERIALIZERS_def)
qed

lemma find_named_ok: "find_named name (registry_of xs) = find (\<lambda>x. ser_name x = name) xs"
proof -
  have "find_named name (replicate n None) = None" for n by (induction n) simp_all
  then have "find_named name (map Some xs @ replicate n None) = find (\<lambda>x. ser_name x = name) xs" for n by (induction xs) simp_all
  then show ?thesis by (simp add: registry_of_def)
qed

lemma names_from_ok:
  "i \<le> length xs \<Longrightarrow> length xs \<le> 16 \<Longrightarrow>
    names_from (registry_of xs) i = (if length xs < 16 then Inr (map ser_name (drop i xs)) else Inl BadAccess)"
proof (induction "length xs - i" arbitrary: i)
  case 0
  then show ?case using registry_nth [of xs i] by (subst names_from.simps) (auto simp: registry_of_def)
next
  case (Suc n)
  then have i: "i < length xs" by simp
  have "registry_of xs ! i = Some (xs ! i)" "i < length (registry_of xs)" using registry_nth [of xs i] i Suc.prems by (simp_all add: registry_of_def)
  moreover have "names_from (registry_of xs) (Suc i) = (if length xs < 16 then Inr (map ser_name (drop (Suc i) xs)) else Inl BadAccess)"
    using Suc i by simp
  moreover have "map ser_name (drop i xs) = ser_name (xs ! i) # map ser_name (drop (Suc i) xs)" using Cons_nth_drop_Suc [OF i] by (metis list.simps(9))
  ultimately show ?case by (subst names_from.simps) auto
qed

subsection \<open>Properties\<close>

text \<open>C25: A serializer that is registered under a new name is found under it, and every other name is looked
  up as before; the name \<^verbatim>\<open>default\<close> is refused, and so is any serializer when all 16 slots are in use.\<close>

theorem serializer_registered:
  assumes "length xs \<le> 16" "ser_name x \<notin> ser_name ` set xs"
  shows "if ser_name x \<noteq> ''default'' \<and> length xs < 16
    then immutable_cache_register_serializer x (registry_of xs) s = (True, registry_of (xs @ [x]), s) \<and>
      find_named (ser_name x) (registry_of (xs @ [x])) = Some x \<and>
      (\<forall>name. name \<noteq> ser_name x \<longrightarrow> find_named name (registry_of (xs @ [x])) = find_named name (registry_of xs))
    else \<exists>s'. immutable_cache_register_serializer x (registry_of xs) s = (False, registry_of xs, s')"
proof -
  have n: "find (\<lambda>y. ser_name y = ser_name x) (xs @ [x]) = Some x" using assms(2) by (induction xs) auto
  have o: "find (\<lambda>y. ser_name y = name) (xs @ [x]) = find (\<lambda>y. ser_name y = name) xs" if "name \<noteq> ser_name x" for name
    using that by (induction xs) auto
  show ?thesis using register_at_ok [of 0 xs x] assms(1) n o by (auto simp: immutable_cache_register_serializer_def find_named_ok)
qed

theorem serializer_registered_witness:
  "\<exists>reg. immutable_cache_register_serializer (php_serializer sample_zend) immutable_cache_serializers (sample_mproc Map.empty ()) =
      (True, reg, sample_mproc Map.empty ()) \<and> find_named ''php'' reg \<noteq> None"
  using serializer_registered [of "[]" "php_serializer sample_zend" "sample_mproc Map.empty ()"]
  by (simp add: empty_registry php_serializer_def)

text \<open>C38: The list of supported serializers names the registered ones in order; when all 16 slots are in use
  the loop that collects the names reads behind the array.\<close>

theorem serializer_names:
  assumes "length xs \<le> 16"
  shows "immutable_cache_get_supported_serializer_names (registry_of xs) =
    (if length xs = 16 then Inl BadAccess else if xs = [] then Inr ''Broken'' else Inr (join_names (map ser_name xs) @ '', default''))"
  using names_from_ok [of 0 xs] assms by (auto simp: immutable_cache_get_supported_serializer_names_def)

theorem serializer_names_witness:
  "immutable_cache_get_supported_serializer_names (registry_of [php_serializer sample_zend]) = Inr ''php, default''"
  using serializer_names [of "[php_serializer sample_zend]"] by (simp add: php_serializer_def)

end
