(* ===== verification/Module.thy ===== *)
theory Module
  imports Signals Serializers Hash_Each
begin

text \<open>
  \<^verbatim>\<open>php_immutable_cache.c\<close>: start and end of the module and of a request, the settings and the PHP
  functions; and the preloading of data files of \<^verbatim>\<open>immutable_cache_cache.c\<close>. The build is the one for
  Linux without threads: \<^verbatim>\<open>mmap\<close>, \<^verbatim>\<open>mprotect\<close> and \<^verbatim>\<open>sigaction\<close> are there, the mutex macros are empty.
\<close>

subsection \<open>Globals\<close>

text \<open>\<^verbatim>\<open>protect_memory\<close> and \<^verbatim>\<open>entry_level\<close> are fields of the state of the locks.\<close>

record module = sigproc +
  shm_segments :: int
  shm_size :: int
  entries_hint :: int
  mmap_file_mask :: "string option"
  mod_initialized :: bool
  enable_cli :: bool
  enabled :: bool
  preload_path :: "string option"
  coredump_unmap :: bool
  serializer_name :: "string option"
  serializers :: serializers
  lock_ready :: bool

text \<open>The engine's functions on strings and values, and the file system: new objects are made in request
  memory; \<open>to_string\<close> is \<^verbatim>\<open>convert_to_string\<close>, \<open>symtable_key\<close> the conversion of numeric strings
  to integer keys.\<close>

record engine =
  new_str :: "heap \<Rightarrow> string \<Rightarrow> addr \<times> heap"
  new_zval :: "heap \<Rightarrow> php \<Rightarrow> zval \<times> heap"
  long_to_str :: "zend_ulong \<Rightarrow> string"
  to_string :: "heap \<Rightarrow> zval \<Rightarrow> string"
  symtable_key :: "string \<Rightarrow> pkey"
  ref_cell :: ref_cells
  stat_size :: "string \<Rightarrow> nat option"
  fopen :: "string \<Rightarrow> string option"
  scandir :: "string \<Rightarrow> string list option"

definition php_immutable_cache_init_globals :: "'a module_scheme \<Rightarrow> 'a module_scheme" where
  "php_immutable_cache_init_globals s =
     s\<lparr>mod_initialized := False, preload_path := None, coredump_unmap := False, serializer_name := None, entry_level := 0\<rparr>"

subsection \<open>Settings\<close>

text \<open>The handlers get the number the engine parsed; \<open>False\<close> is \<^verbatim>\<open>FAILURE\<close>.\<close>

definition OnUpdateShmSegments :: "int \<Rightarrow> 'a module_scheme \<Rightarrow> bool \<times> 'a module_scheme" where
  "OnUpdateShmSegments n s =
     (let s = (if n \<noteq> 1 then immutable_cache_warning ''immutable_cache.shm_segments setting ignored in MMAP mode'' s else s)
      in (True, s\<lparr>shm_segments := 1\<rparr>))"

definition OnUpdateShmSize :: "int \<Rightarrow> 'a module_scheme \<Rightarrow> bool \<times> 'a module_scheme" where
  "OnUpdateShmSize n s =
     (if n \<le> 0 then (False, s)
      else if n < 1048576
      then (True, (immutable_cache_warning ''immutable_cache.shm_size now uses M/G suffixes, please update your ini files'' s)\<lparr>shm_size := n * 1048576\<rparr>)
      else (True, s\<lparr>shm_size := n\<rparr>))"

record ini =
  ini_enabled :: bool
  ini_shm_segments :: int
  ini_shm_size :: int
  ini_entries_hint :: int
  ini_mmap_file_mask :: "string option"
  ini_enable_cli :: bool
  ini_protect_memory :: bool
  ini_preload_path :: "string option"
  ini_coredump_unmap :: bool
  ini_serializer :: string

text \<open>\<^verbatim>\<open>REGISTER_INI_ENTRIES\<close>: the engine falls back on the default of an entry (256M) when its handler
  refuses the configured value. An empty serializer name is refused, too.\<close>

definition REGISTER_INI_ENTRIES :: "ini \<Rightarrow> 'a module_scheme \<Rightarrow> 'a module_scheme" where
  "REGISTER_INI_ENTRIES c s =
     (let (_, s) = OnUpdateShmSegments (ini_shm_segments c) (s\<lparr>enabled := ini_enabled c\<rparr>);
          (ok, s) = OnUpdateShmSize (ini_shm_size c) s;
          (_, s) = (if ok then (ok, s) else OnUpdateShmSize 268435456 s)
      in s\<lparr>entries_hint := ini_entries_hint c, mmap_file_mask := ini_mmap_file_mask c, enable_cli := ini_enable_cli c,
           protect_memory := ini_protect_memory c, preload_path := ini_preload_path c, coredump_unmap := ini_coredump_unmap c,
           serializer_name := Some (if ini_serializer c = '''' then ''default'' else ini_serializer c)\<rparr>)"

definition immutable_cache_is_enabled :: "'a module_scheme \<Rightarrow> bool" where
  "immutable_cache_is_enabled s = enabled s"

subsection \<open>Preloading\<close>

definition MAXPATHLEN :: nat where
  "MAXPATHLEN = 4096"

text \<open>\<^verbatim>\<open>strrchr\<close>: what is before and what follows the last occurrence of a character.\<close>

fun strrchr :: "char \<Rightarrow> string \<Rightarrow> (string \<times> string) option" where
  "strrchr c [] = None"
| "strrchr c (x # xs) =
     (case strrchr c xs of
        Some (pre, post) \<Rightarrow> Some (x # pre, post)
      | None \<Rightarrow> if x = c then Some ([], xs) else None)"

text \<open>The value of a data file, \<open>None\<close> for an undefined one. The result of \<^verbatim>\<open>fopen\<close> is not checked.\<close>

definition data_unserialize :: "engine \<Rightarrow> zend_abi \<Rightarrow> string \<Rightarrow> crash + php option" where
  "data_unserialize E Z filename =
     (case stat_size E filename of
        None \<Rightarrow> Inr None
      | Some n \<Rightarrow>
          (case fopen E filename of
             None \<Rightarrow> Inl BadAccess
           | Some contents \<Rightarrow>
               (let buf = take n contents
                in if length buf < 1 then Inr None else Inr (php_var_unserialize Z buf))))"

definition immutable_cache_load_data ::
  "engine \<Rightarrow> zend_abi \<Rightarrow> nat \<Rightarrow> int \<Rightarrow> string \<Rightarrow> 'a cproc_scheme \<Rightarrow> crash + (bool \<times> 'a cproc_scheme)" where
  "immutable_cache_load_data E Z fuel t data_file s =
     (case strrchr CHR ''/'' data_file of
        None \<Rightarrow> Inr (False, s)
      | Some (_, p) \<Rightarrow>
          if p = [] then Inr (False, s)
          else (case strrchr CHR ''.'' (take (MAXPATHLEN - 1) p) of
                  None \<Rightarrow> Inr (False, s)
                | Some (key, _) \<Rightarrow>
                    ebind (data_unserialize E Z data_file) (\<lambda>d.
                      case d of
                        None \<Rightarrow> Inr (True, s)
                      | Some v \<Rightarrow>
                          (let (z, H) = new_zval E (mem s) v;
                               (name, H) = new_str E H key
                           in ebind (immutable_cache_cache_store fuel Z t name z (s\<lparr>mem := H\<rparr>)) (\<lambda>(_, s). Inr (True, s))))))"

fun preload_files ::
  "engine \<Rightarrow> zend_abi \<Rightarrow> nat \<Rightarrow> int \<Rightarrow> string \<Rightarrow> string list \<Rightarrow> bool \<Rightarrow> 'a cproc_scheme \<Rightarrow> crash + (bool \<times> 'a cproc_scheme)" where
  "preload_files E Z fuel t path [] result s = Inr (result, s)"
| "preload_files E Z fuel t path (n # ns) result s =
     (case strrchr CHR ''.'' n of
        Some (_, ext) \<Rightarrow>
          if ext = ''data''
          then ebind (immutable_cache_load_data E Z fuel t (take (MAXPATHLEN - 1) (path @ ''/'' @ n)) s) (\<lambda>(ok, s).
                 preload_files E Z fuel t path ns (result \<or> ok) s)
          else preload_files E Z fuel t path ns result s
      | None \<Rightarrow> preload_files E Z fuel t path ns result s)"

definition immutable_cache_cache_preload ::
  "engine \<Rightarrow> zend_abi \<Rightarrow> nat \<Rightarrow> int \<Rightarrow> string \<Rightarrow> 'a cproc_scheme \<Rightarrow> crash + (bool \<times> 'a cproc_scheme)" where
  "immutable_cache_cache_preload E Z fuel t path s =
     (case scandir E path of None \<Rightarrow> Inr (False, s) | Some ns \<Rightarrow> preload_files E Z fuel t path ns False s)"

subsection \<open>Start and end of the module\<close>

text \<open>What the operating system gives: the name of the server interface, the memory mappings and what
  they contain, the clock, the results of the two \<^verbatim>\<open>pthread\<close> calls, the igbinary extension.\<close>

record host =
  sapi_name :: string
  maps :: mmap_env
  raw_pages :: "nat \<Rightarrow> nat \<Rightarrow> block_t"
  clock :: int
  rc_attr_init :: int
  rc_attr_pshared :: int
  igbinary :: igbinary_ext

definition register_builtin_serializers :: "zend_abi \<Rightarrow> host \<Rightarrow> 'a module_scheme \<Rightarrow> 'a module_scheme" where
  "register_builtin_serializers Z h s =
     (let (_, reg, s) = immutable_cache_register_serializer (php_serializer Z) (serializers s) s;
          s = s\<lparr>serializers := reg\<rparr>
      in case igbinary h of
           Some (ser, unser) \<Rightarrow>
             (let (_, reg, s) = immutable_cache_register_serializer
                    \<lparr>ser_name = ''igbinary'', serialize = igbinary_immutable_cache_serializer ser, unserialize = igbinary_immutable_cache_unserializer unser\<rparr>
                    (serializers s) s
              in s\<lparr>serializers := reg\<rparr>)
         | None \<Rightarrow>
             if serializer_name s = Some ''igbinary''
             then immutable_cache_warning ''immutable_cache failed to find igbinary. The igbinary extension must be loaded before immutable_cache.'' s
             else s)"

definition PHP_MINIT :: "engine \<Rightarrow> zend_abi \<Rightarrow> host \<Rightarrow> nat \<Rightarrow> ini \<Rightarrow> 'a module_scheme \<Rightarrow> crash + 'a module_scheme" where
  "PHP_MINIT E Z h fuel c s =
     (let s = REGISTER_INI_ENTRIES c (php_immutable_cache_init_globals s);
          s = s\<lparr>lock_ready := snd (immutable_cache_lock_init (rc_attr_init h) (rc_attr_pshared h) (lock_ready s))\<rparr>;
          s = (if \<not> enable_cli s \<and> sapi_name h = ''cli'' then s\<lparr>enabled := False\<rparr> else s)
      in if enabled s \<and> \<not> mod_initialized s
         then ebind (immutable_cache_sma_init (maps h) (raw_pages h) (shm_segments s) (nat (shm_size s)) (mmap_file_mask s) (s\<lparr>mod_initialized := True\<rparr>)) (\<lambda>s.
           let s = register_builtin_serializers Z h s
           in if immutable_cache_get_serializers (serializers s) = None then Inl AssertFailed
              else ebind (immutable_cache_find_serializer (case serializer_name s of Some n \<Rightarrow> n | None \<Rightarrow> '''') (serializers s) s) (\<lambda>(ser, s).
                ebind (immutable_cache_cache_create ser (entries_hint s) (clock h) s) (\<lambda>s.
                  case preload_path s of
                    None \<Rightarrow> Inr s
                  | Some path \<Rightarrow> ebind (immutable_cache_cache_preload E Z fuel (clock h) path s) (\<lambda>(_, s). Inr s))))
         else Inr s)"

definition PHP_MSHUTDOWN :: "(nat \<Rightarrow> bool) \<Rightarrow> 'a module_scheme \<Rightarrow> crash + 'a module_scheme" where
  "PHP_MSHUTDOWN munmap_ok s =
     (let s = (if enabled s \<and> mod_initialized s then immutable_cache_sma_protect_memory False s else s);
          s = s\<lparr>lock_ready := immutable_cache_lock_cleanup (lock_ready s)\<rparr>
      in if enabled s
         then ebind (if mod_initialized s
                     then ebind (immutable_cache_sma_detach munmap_ok (immutable_cache_cache_detach (immutable_cache_sma_protect_memory False s))) (\<lambda>s.
                            Inr (s\<lparr>mod_initialized := False\<rparr>))
                     else Inr s) (\<lambda>s. Inr (immutable_cache_shutdown_signals s))
         else Inr s)"

text \<open>With the setting at its default the serializer name is never null; a null cache is an access to
  address zero.\<close>

definition PHP_RINIT :: "'a module_scheme \<Rightarrow> crash + 'a module_scheme" where
  "PHP_RINIT s =
     (if enabled s
      then ebind (case serializer_name s of
                    None \<Rightarrow> Inr s
                  | Some name \<Rightarrow>
                      ebind (immutable_cache_cache_serializer name (serializers s) s) (\<lambda>s.
                        case cache s of None \<Rightarrow> Inl BadAccess | Some c \<Rightarrow> Inr (s\<lparr>cache := Some (c\<lparr>loaded_serializer := True\<rparr>)\<rparr>)))
             (\<lambda>s. immutable_cache_set_signals (coredump_unmap s) s)
      else Inr s)"

end
