(* ===== verification/Functions.thy ===== *)
theory Functions
  imports Module
begin

text \<open>
  The PHP functions of \<^verbatim>\<open>php_immutable_cache.c\<close>. The value a function returns is a constructor of
  \<open>retval\<close>; arrays that a function builds are lists of their elements, in order.
\<close>

datatype retval =
    RNull | RBool bool | RFetched fetched
  | RFetchedArray "(string \<times> fetched) list"
  | RTrueArray "string list"
  | RFailedArray "(pkey \<times> int) list"
  | RCacheInfo cache_info | RKeyInfo key_stat
  | RSmaInfo nat size_t size_t "(size_t \<times> size_t) list list option"

subsection \<open>Reports\<close>

definition php_immutable_cache_cache_info :: "bool \<Rightarrow> 'a cproc_scheme \<Rightarrow> crash + (retval \<times> 'a cproc_scheme)" where
  "php_immutable_cache_cache_info limited s =
     ebind (immutable_cache_cache_info limited s) (\<lambda>(r, s).
       case r of
         Some i \<Rightarrow> Inr (RCacheInfo i, s)
       | None \<Rightarrow> Inr (RBool False, immutable_cache_warning
             ''No immutable_cache info available.  Perhaps immutable_cache is not enabled? Check immutable_cache.enabled in your ini file'' s))"

definition php_immutable_cache_key_info :: "zend_abi \<Rightarrow> addr \<Rightarrow> 'a cproc_scheme \<Rightarrow> crash + (retval \<times> 'a cproc_scheme)" where
  "php_immutable_cache_key_info Z key s =
     ebind (immutable_cache_cache_stat Z key s) (\<lambda>(r, s). Inr (case r of Some i \<Rightarrow> RKeyInfo i | None \<Rightarrow> RNull, s))"

definition php_immutable_cache_sma_info :: "bool \<Rightarrow> 'a proc_scheme \<Rightarrow> crash + (retval \<times> 'a proc_scheme)" where
  "php_immutable_cache_sma_info limited s =
     ebind (immutable_cache_sma_info s limited) (\<lambda>(r, s).
       case r of
         None \<Rightarrow> Inr (RBool False, immutable_cache_warning
             ''No immutable_cache SMA info available.  Perhaps immutable_cache is disabled via immutable_cache.enabled?'' s)
       | Some i \<Rightarrow> Inr (RSmaInfo (num_seg i) (info_seg_size i) (immutable_cache_sma_get_avail_mem s)
             (if limited then None else Some (take (num_seg i) (info_list i))), s))"

definition php_immutable_cache_enabled :: "'a module_scheme \<Rightarrow> retval" where
  "php_immutable_cache_enabled s = RBool (enabled s)"

subsection \<open>Storing\<close>

text \<open>A numeric key becomes a string of its own, which is released after the store.\<close>

definition key_string :: "engine \<Rightarrow> zend_ulong \<Rightarrow> addr option \<Rightarrow> heap \<Rightarrow> addr \<times> heap" where
  "key_string E h key H = (case key of Some k \<Rightarrow> (k, H) | None \<Rightarrow> new_str E H (long_to_str E h))"

definition release_key :: "addr option \<Rightarrow> addr \<Rightarrow> heap \<Rightarrow> heap" where
  "release_key key k H = (case key of Some _ \<Rightarrow> H | None \<Rightarrow> H(k := None))"

fun store_elems ::
  "engine \<Rightarrow> zend_abi \<Rightarrow> nat \<Rightarrow> int \<Rightarrow> elem list \<Rightarrow> 'a cproc_scheme \<Rightarrow> crash + ((pkey \<times> int) list \<times> 'a cproc_scheme)" where
  "store_elems E Z fuel t [] s = Inr ([], s)"
| "store_elems E Z fuel t ((h, key, z) # xs) s =
     (let (k, H) = key_string E h key (mem s); s = s\<lparr>mem := H\<rparr>
      in ebind (read_str (mem s) k) (\<lambda>ks.
         ebind (immutable_cache_cache_store fuel Z t k (ZVAL_DEREF (ref_cell E) z) s) (\<lambda>(ok, s).
         let s = s\<lparr>mem := release_key key k (mem s)\<rparr>
         in ebind (store_elems E Z fuel t xs s) (\<lambda>(fs, s).
              Inr (if ok then fs else (symtable_key E (zstr_val ks), - 1) # fs, s)))))"

definition load_serializer :: "'a module_scheme \<Rightarrow> crash + 'a module_scheme" where
  "load_serializer s =
     (case cache s of
        Some c \<Rightarrow>
          (case serializer_name s of
             Some name \<Rightarrow>
               if \<not> loaded_serializer c
               then ebind (immutable_cache_cache_serializer name (serializers s) s) (\<lambda>s.
                      case cache s of None \<Rightarrow> Inr s | Some c \<Rightarrow> Inr (s\<lparr>cache := Some (c\<lparr>loaded_serializer := True\<rparr>)\<rparr>))
               else Inr s
           | None \<Rightarrow> Inr s)
      | None \<Rightarrow> Inr s)"

definition immutable_cache_store_helper ::
  "engine \<Rightarrow> zend_abi \<Rightarrow> nat \<Rightarrow> int \<Rightarrow> zval \<Rightarrow> zval option \<Rightarrow> 'a module_scheme \<Rightarrow> crash + (retval \<times> 'a module_scheme)" where
  "immutable_cache_store_helper E Z fuel t key val s =
     ebind (load_serializer s) (\<lambda>s.
       case key of
         IS_ARRAY a \<Rightarrow>
           ebind (ZEND_HASH_FOREACH (mem s) a) (\<lambda>xs.
           ebind (store_elems E Z fuel t xs s) (\<lambda>(fs, s). Inr (RFailedArray fs, s)))
       | IS_STRING k \<Rightarrow>
           (case val of
              None \<Rightarrow> Inr (RBool False, s)
            | Some v \<Rightarrow> ebind (immutable_cache_cache_store fuel Z t k v s) (\<lambda>(ok, s). Inr (RBool ok, s)))
       | _ \<Rightarrow> Inr (RBool False, immutable_cache_warning
             ''immutable_cache_store expects key parameter to be a string or an array of key/value pairs.'' s))"

definition php_immutable_cache_add ::
  "engine \<Rightarrow> zend_abi \<Rightarrow> nat \<Rightarrow> int \<Rightarrow> zval \<Rightarrow> zval option \<Rightarrow> 'a module_scheme \<Rightarrow> crash + (retval \<times> 'a module_scheme)" where
  "php_immutable_cache_add = immutable_cache_store_helper"

subsection \<open>Fetching\<close>

text \<open>\<^verbatim>\<open>zend_hash_update\<close> on the array that is returned.\<close>

fun hash_update :: "string \<Rightarrow> 'v \<Rightarrow> (string \<times> 'v) list \<Rightarrow> (string \<times> 'v) list" where
  "hash_update k v [] = [(k, v)]"
| "hash_update k v ((j, w) # es) = (if j = k then (k, v) # es else (j, w) # hash_update k v es)"

definition convert_key :: "engine \<Rightarrow> zval \<Rightarrow> 'a mproc_scheme \<Rightarrow> zval \<times> 'a mproc_scheme" where
  "convert_key E key s =
     (case key of
        IS_STRING _ \<Rightarrow> (key, s)
      | IS_ARRAY _ \<Rightarrow> (key, s)
      | _ \<Rightarrow> (let (k, H) = new_str E (mem s) (to_string E (mem s) key) in (IS_STRING k, s\<lparr>mem := H\<rparr>)))"

fun fetch_elems ::
  "engine \<Rightarrow> zend_abi \<Rightarrow> int \<Rightarrow> elem list \<Rightarrow> (string \<times> fetched) list \<Rightarrow> 'a cproc_scheme \<Rightarrow> crash + ((string \<times> fetched) list \<times> 'a cproc_scheme)" where
  "fetch_elems E Z t [] acc s = Inr (acc, s)"
| "fetch_elems E Z t ((h, key, z) # xs) acc s =
     (case ZVAL_DEREF (ref_cell E) z of
        IS_STRING k \<Rightarrow>
          ebind (read_str (mem s) k) (\<lambda>ks.
          ebind (immutable_cache_cache_fetch Z k t s) (\<lambda>(ok, v, s).
            fetch_elems E Z t xs (case (ok, v) of (True, Some x) \<Rightarrow> hash_update (zstr_val ks) x acc | _ \<Rightarrow> acc) s))
      | _ \<Rightarrow> fetch_elems E Z t xs acc (immutable_cache_warning ''immutable_cache_fetch() expects a string or array of strings.'' s))"

text \<open>The result and what is assigned to \<^verbatim>\<open>success\<close>.\<close>

definition php_immutable_cache_fetch ::
  "engine \<Rightarrow> zend_abi \<Rightarrow> int \<Rightarrow> zval \<Rightarrow> 'a cproc_scheme \<Rightarrow> crash + (retval \<times> bool \<times> 'a cproc_scheme)" where
  "php_immutable_cache_fetch E Z t key s =
     (let (key, s) = convert_key E key s
      in case key of
           IS_STRING k \<Rightarrow>
             ebind (immutable_cache_cache_fetch Z k t s) (\<lambda>(ok, v, s).
               Inr (if ok then (case v of Some x \<Rightarrow> RFetched x | None \<Rightarrow> RNull) else RBool False, ok, s))
         | IS_ARRAY a \<Rightarrow>
             ebind (ZEND_HASH_FOREACH (mem s) a) (\<lambda>xs.
             ebind (fetch_elems E Z t xs [] s) (\<lambda>(es, s). Inr (RFetchedArray es, True, s)))
         | _ \<Rightarrow> Inr (RBool False, False, immutable_cache_warning ''immutable_cache_fetch() expects a string or array of strings.'' s))"

text \<open>\<^verbatim>\<open>zend_hash_add_new\<close> appends without looking for the key.\<close>

fun exists_elems ::
  "engine \<Rightarrow> zend_abi \<Rightarrow> int \<Rightarrow> elem list \<Rightarrow> 'a cproc_scheme \<Rightarrow> crash + (string list \<times> 'a cproc_scheme)" where
  "exists_elems E Z t [] s = Inr ([], s)"
| "exists_elems E Z t ((h, key, z) # xs) s =
     (case ZVAL_DEREF (ref_cell E) z of
        IS_STRING k \<Rightarrow>
          ebind (read_str (mem s) k) (\<lambda>ks.
          ebind (immutable_cache_cache_exists Z k t s) (\<lambda>(ok, s).
          ebind (exists_elems E Z t xs s) (\<lambda>(es, s). Inr (if ok then zstr_val ks # es else es, s))))
      | _ \<Rightarrow> exists_elems E Z t xs (immutable_cache_warning ''immutable_cache_exists() expects a string or array of strings.'' s))"

definition php_immutable_cache_exists ::
  "engine \<Rightarrow> zend_abi \<Rightarrow> int \<Rightarrow> zval \<Rightarrow> 'a cproc_scheme \<Rightarrow> crash + (retval \<times> 'a cproc_scheme)" where
  "php_immutable_cache_exists E Z t key s =
     (let (key, s) = convert_key E key s
      in case key of
           IS_STRING k \<Rightarrow> ebind (immutable_cache_cache_exists Z k t s) (\<lambda>(ok, s). Inr (RBool ok, s))
         | IS_ARRAY a \<Rightarrow>
             ebind (ZEND_HASH_FOREACH (mem s) a) (\<lambda>xs.
             ebind (exists_elems E Z t xs s) (\<lambda>(es, s). Inr (RTrueArray es, s)))
         | _ \<Rightarrow> Inr (RBool False, immutable_cache_warning ''immutable_cache_exists() expects a string or array of strings.'' s))"

end
