(* ===== verification/Functions_Laws.thy ===== *)
theory Functions_Laws
  imports Functions Cache_Props
begin

text \<open>
  The loops of the PHP functions over the arrays a script passes.
\<close>

subsection \<open>Names\<close>

text \<open>The strings that the elements of an array hold, and the string keys of its elements.\<close>

definition elem_names :: "ref_cells \<Rightarrow> heap \<Rightarrow> elem list \<Rightarrow> string list \<Rightarrow> bool" where
  "elem_names R H = list_all2 (\<lambda>(h, key, z) n. \<exists>a s. ZVAL_DEREF R z = IS_STRING a \<and> H a = Some (CStr s) \<and> zstr_val s = n)"

definition elem_keys :: "heap \<Rightarrow> elem list \<Rightarrow> string list \<Rightarrow> bool" where
  "elem_keys H = list_all2 (\<lambda>(h, key, z) n. \<exists>a s. key = Some a \<and> H a = Some (CStr s) \<and> zstr_val s = n)"

lemma elem_names_preserves: "elem_names R H xs ns \<Longrightarrow> preserves H H' \<Longrightarrow> elem_names R H' xs ns"
  unfolding elem_names_def by (erule list_all2_mono) (use preserves_str in fastforce)

lemma elem_keys_preserves: "elem_keys H xs ns \<Longrightarrow> preserves H H' \<Longrightarrow> elem_keys H' xs ns"
  unfolding elem_keys_def by (erule list_all2_mono) (use preserves_str in fastforce)

lemma strings_elem_names:
  assumes "list_all2 (elem_rep H) xs es" "\<forall>e \<in> set es. \<exists>w. snd e = PStr w"
  shows "\<exists>ns. elem_names R H xs ns \<and> map PStr ns = map snd es"
  using assms
proof (induction rule: list_all2_induct)
  case Nil
  then show ?case by (simp add: elem_names_def)
next
  case (Cons x xs e es)
  obtain h k z where x: "x = (h, k, z)" by (cases x)
  obtain w where w: "snd e = PStr w" using Cons.prems by auto
  obtain a s where a: "z = IS_STRING a" "H a = Some (CStr s)" "zstr_val s = w"
    using Cons.hyps(1) x w by (auto simp: elem_rep_def elim: rep.cases)
  obtain ns where ns: "elem_names R H xs ns" "map PStr ns = map snd es" using Cons.IH Cons.prems by auto
  have "elem_names R H (x # xs) (w # ns)" using ns(1) x a by (simp add: elem_names_def)
  then show ?case using ns(2) w by (metis list.simps(9))
qed

lemma string_elem_keys:
  assumes "list_all2 (elem_rep H) xs es" "\<forall>e \<in> set es. \<exists>n. fst e = KStr n"
  shows "\<exists>ns. elem_keys H xs ns \<and> map KStr ns = map fst es"
  using assms
proof (induction rule: list_all2_induct)
  case Nil
  then show ?case by (simp add: elem_keys_def)
next
  case (Cons x xs e es)
  obtain h k z where x: "x = (h, k, z)" by (cases x)
  obtain n where n: "fst e = KStr n" using Cons.prems by auto
  obtain a s where a: "k = Some a" "H a = Some (CStr s)" "zstr_val s = n"
    using Cons.hyps(1) x n by (auto simp: elem_rep_def split: option.splits)
  obtain ns where ns: "elem_keys H xs ns" "map KStr ns = map fst es" using Cons.IH Cons.prems by auto
  have "elem_keys H (x # xs) (n # ns)" using ns(1) x a by (simp add: elem_keys_def)
  then show ?case using ns(2) n by (metis list.simps(9))
qed

subsection \<open>Fetching several keys\<close>

lemma map_of_hash_update: "map_of (hash_update k v es) = (map_of es)(k \<mapsto> v)"
  by (induction k v es rule: hash_update.induct) (auto simp: fun_eq_iff)

lemma fetched_is_preserves: "fetched_is H g v \<Longrightarrow> preserves H H' \<Longrightarrow> fetched_is H' g v"
  by (cases g) (auto simp: preserves_rep)

text \<open>The value that a fetch of the keys \<open>N\<close> finds under a key, and what the array must hold.\<close>

definition found :: "zend_abi \<Rightarrow> immutable_cache_serializer_t option \<Rightarrow> (string \<rightharpoonup> stored) \<Rightarrow> string \<Rightarrow> php option" where
  "found Z ser M k = (case M k of None \<Rightarrow> None | Some w \<Rightarrow> read_stored Z ser w)"

definition holds_found :: "heap \<Rightarrow> php option \<Rightarrow> fetched option \<Rightarrow> fetched option \<Rightarrow> bool" where
  "holds_found H x a r \<longleftrightarrow> (case x of None \<Rightarrow> r = a | Some v \<Rightarrow> \<exists>g. r = Some g \<and> fetched_is H g v)"

lemma holds_found_mono: "holds_found H x a r \<Longrightarrow> preserves H H' \<Longrightarrow> holds_found H' x a r"
  by (cases x) (auto simp: holds_found_def intro: fetched_is_preserves)

definition fetched_under ::
  "zend_abi \<Rightarrow> immutable_cache_serializer_t option \<Rightarrow> (string \<rightharpoonup> stored) \<Rightarrow> string set \<Rightarrow> heap \<Rightarrow> (string \<rightharpoonup> fetched) \<Rightarrow> (string \<rightharpoonup> fetched) \<Rightarrow> bool" where
  "fetched_under Z ser M N H acc res \<longleftrightarrow> (\<forall>k. holds_found H (if k \<in> N then found Z ser M k else None) (acc k) (res k))"

lemma fetched_under_insert:
  assumes "fetched_under Z ser M N H acc' res" "fetched_under Z ser M {n} H acc acc'"
  shows "fetched_under Z ser M (insert n N) H acc res"
  unfolding fetched_under_def
proof
  fix k
  have 1: "holds_found H (if k \<in> N then found Z ser M k else None) (acc' k) (res k)"
    and 2: "holds_found H (if k = n then found Z ser M k else None) (acc k) (acc' k)" using assms by (simp_all add: fetched_under_def)
  show "holds_found H (if k \<in> insert n N then found Z ser M k else None) (acc k) (res k)"
  proof (cases "k \<in> N \<and> found Z ser M k \<noteq> None")
    case True
    then show ?thesis using 1 by (auto simp: holds_found_def)
  next
    case False
    then have "res k = acc' k" using 1 by (auto simp: holds_found_def split: if_splits)
    then show ?thesis using 2 False by (cases "k = n") (auto simp: holds_found_def)
  qed
qed

text \<open>One fetch, as a step of the loop.\<close>

lemma fetch_one:
  assumes "fetch_spec Z ser (M n) H ok v"
  shows "fetched_under Z ser M {n} H (map_of acc) (map_of (case (ok, v) of (True, Some x) \<Rightarrow> hash_update n x acc | _ \<Rightarrow> acc))"
proof (cases "found Z ser M n")
  case None
  then have "\<not> ok" using assms by (auto simp: found_def fetch_spec_def split: option.splits)
  then show ?thesis using None by (auto simp: fetched_under_def holds_found_def)
next
  case (Some w)
  then obtain g where "ok" "v = Some g" "fetched_is H g w" using assms by (auto simp: found_def fetch_spec_def split: option.splits)
  then show ?thesis using Some by (auto simp: fetched_under_def holds_found_def map_of_hash_update)
qed

lemma fetch_elems_ok:
  assumes "represents Z s M" "cache s = Some c" "lock_rc s = []" "elem_names (ref_cell E) (mem s) xs ns"
  shows "\<exists>es s'. fetch_elems E Z t xs acc s = Inr (es, s') \<and> represents Z s' M \<and> cache_kept Z s s' \<and>
    fetched_under Z (serializer c) M (set ns) (mem s') (map_of acc) (map_of es)"
  using assms
proof (induction xs arbitrary: ns acc s)
  case Nil
  then have "ns = []" by (simp add: elem_names_def)
  moreover have "cache_kept Z s s" using cache_kept_same [OF represents_wf [OF Nil.prems(1)]] by (simp add: same_os_def)
  ultimately show ?case using Nil.prems(1) by (simp add: fetched_under_def holds_found_def)
next
  case (Cons x xs)
  obtain h key z where x: "x = (h, key, z)" by (cases x)
  obtain n ns' where ns: "ns = n # ns'" using Cons.prems(4) by (auto simp: elem_names_def list_all2_Cons1)
  obtain a ks where a: "ZVAL_DEREF (ref_cell E) z = IS_STRING a" "mem s a = Some (CStr ks)" "zstr_val ks = n" and en: "elem_names (ref_cell E) (mem s) xs ns'"
    using Cons.prems(4) unfolding x ns by (auto simp: elem_names_def)
  obtain ok v u where u: "immutable_cache_cache_fetch Z a t s = Inr (ok, v, u)" "represents Z u M" "cache_kept Z s u"
    "fetch_spec Z (serializer c) (M n) (mem u) ok v"
    using fetch_represents [OF Cons.prems(1,2) a(2), of t] Cons.prems(3) a(3) by auto
  let ?acc = "case (ok, v) of (True, Some x) \<Rightarrow> hash_update n x acc | _ \<Rightarrow> acc"
  have k: "cache u = Some c" "lock_rc u = []" "preserves (mem s) (mem u)" using u(3) Cons.prems(2,3) by (auto simp: cache_kept_def same_os_def)
  obtain es w where w: "fetch_elems E Z t xs ?acc u = Inr (es, w)" "represents Z w M" "cache_kept Z u w"
    "fetched_under Z (serializer c) M (set ns') (mem w) (map_of ?acc) (map_of es)"
    using Cons.IH [OF u(2) k(1,2) elem_names_preserves [OF en k(3)]] by blast
  have "preserves (mem u) (mem w)" using w(3) by (simp add: cache_kept_def)
  then have "fetched_under Z (serializer c) M {n} (mem w) (map_of acc) (map_of ?acc)"
    using fetch_one [where M = M and n = n, OF u(4), of acc] holds_found_mono unfolding fetched_under_def by blast
  from fetched_under_insert [OF w(4) this] have "fetched_under Z (serializer c) M (set ns) (mem w) (map_of acc) (map_of es)" by (simp add: ns)
  moreover have "cache_kept Z s w" by (rule cache_kept_trans [OF u(3) w(3)])
  moreover have "fetch_elems E Z t (x # xs) acc s = Inr (es, w)" using x a(1,2) u(1) w(1) unfolding a(3) [symmetric] by simp
  ultimately show ?case using w(2) by blast
qed

subsection \<open>Looking up several keys\<close>

lemma exists_elems_ok:
  assumes "represents Z s M" "lock_rc s = []" "elem_names (ref_cell E) (mem s) xs ns"
  shows "\<exists>s'. exists_elems E Z t xs s = Inr (filter (\<lambda>n. M n \<noteq> None) ns, s') \<and> represents Z s' M \<and> proc.more s' = proc.more s"
  using assms
proof (induction xs arbitrary: ns s)
  case Nil
  then show ?case by (simp add: elem_names_def)
next
  case (Cons x xs)
  obtain h key z where x: "x = (h, key, z)" by (cases x)
  obtain n ns' where ns: "ns = n # ns'" using Cons.prems(3) by (auto simp: elem_names_def list_all2_Cons1)
  obtain a ks where a: "ZVAL_DEREF (ref_cell E) z = IS_STRING a" "mem s a = Some (CStr ks)" "zstr_val ks = n" and en: "elem_names (ref_cell E) (mem s) xs ns'"
    using Cons.prems(3) unfolding x ns by (auto simp: elem_names_def)
  obtain u where u: "immutable_cache_cache_exists Z a t s = Inr (M n \<noteq> None, u)" "represents Z u M" "cache_kept Z s u" "proc.more u = proc.more s"
    using exists_represents [OF Cons.prems(1) a(2), of t] Cons.prems(2) a(3) by auto
  have "lock_rc u = []" using u(3) Cons.prems(2) by (simp add: cache_kept_def same_os_def)
  moreover have "elem_names (ref_cell E) (mem u) xs ns'" using en proc_more_cproc(1) [OF u(4)] by simp
  ultimately obtain w where w: "exists_elems E Z t xs u = Inr (filter (\<lambda>n. M n \<noteq> None) ns', w)" "represents Z w M" "proc.more w = proc.more u"
    using Cons.IH [OF u(2)] by blast
  have "exists_elems E Z t (x # xs) s = Inr (filter (\<lambda>n. M n \<noteq> None) ns, w)" using x ns a u(1) w(1) by simp
  then show ?case using w(2,3) u(4) by auto
qed

subsection \<open>Storing several keys\<close>

text \<open>Every value can be stored, as long as only keys are added.\<close>

definition all_storable :: "engine \<Rightarrow> zend_abi \<Rightarrow> nat \<Rightarrow> int \<Rightarrow> immutable_cache_serializer_t option \<Rightarrow> elem list \<Rightarrow> 'a cproc_scheme \<Rightarrow> bool" where
  "all_storable E Z fuel t ser xs s \<longleftrightarrow>
     (\<forall>(h, key, z) \<in> set xs. \<forall>k u. key = Some k \<longrightarrow> cache_kept Z s u \<longrightarrow> (\<exists>w S. to_store fuel Z ser t k (ZVAL_DEREF (ref_cell E) z) u w S))"

lemma all_storable_step:
  "all_storable E Z fuel t ser (x # xs) s \<Longrightarrow> cache_kept Z s u \<Longrightarrow> all_storable E Z fuel t ser xs u"
  unfolding all_storable_def using cache_kept_trans by fastforce

definition added :: "(string \<rightharpoonup> stored) \<Rightarrow> (string \<rightharpoonup> stored) \<Rightarrow> string \<Rightarrow> bool" where
  "added M M' n \<longleftrightarrow> M n = None \<and> M' n \<noteq> None"

lemma store_elems_ok:
  assumes "represents Z s M" "cache s = Some c" "elem_keys (mem s) xs ns" "distinct ns" "all_storable E Z fuel t (serializer c) xs s"
  shows "\<exists>M' s'. store_elems E Z fuel t xs s = Inr (map (\<lambda>n. (symtable_key E n, - 1)) (filter (\<lambda>n. \<not> added M M' n) ns), s') \<and>
    represents Z s' M' \<and> cache_kept Z s s' \<and> M \<subseteq>\<^sub>m M' \<and> dom M' \<subseteq> dom M \<union> set ns"
  using assms
proof (induction xs arbitrary: ns s M)
  case Nil
  then have "ns = []" by (simp add: elem_keys_def)
  moreover have "cache_kept Z s s" using cache_kept_same [OF represents_wf [OF Nil.prems(1)]] by (simp add: same_os_def)
  ultimately show ?case using Nil.prems(1) by (intro exI [of _ M]) simp
next
  case (Cons x xs)
  obtain h key z where x: "x = (h, key, z)" by (cases x)
  obtain n ns' where ns: "ns = n # ns'" using Cons.prems(3) by (auto simp: elem_keys_def list_all2_Cons1)
  obtain k ks where k: "key = Some k" "mem s k = Some (CStr ks)" "zstr_val ks = n" and ek: "elem_keys (mem s) xs ns'"
    using Cons.prems(3) unfolding x ns by (auto simp: elem_keys_def)
  have d: "n \<notin> set ns'" "distinct ns'" using Cons.prems(4) ns by simp_all
  have refl: "cache_kept Z s s" using cache_kept_same [OF represents_wf [OF Cons.prems(1)]] by (simp add: same_os_def)
  obtain w S where st: "to_store fuel Z (serializer c) t k (ZVAL_DEREF (ref_cell E) z) s w S"
    using Cons.prems(5) x k(1) refl unfolding all_storable_def by fastforce
  obtain ret u where u: "immutable_cache_cache_store fuel Z t k (ZVAL_DEREF (ref_cell E) z) s = Inr (ret, u)" "cache_kept Z s u"
    "represents Z u (if ret then M(n \<mapsto> w) else M)" "ret \<longrightarrow> M n = None"
    using store_represents [OF Cons.prems(1,2) k(2) st] k(3) by auto
  let ?M = "if ret then M(n \<mapsto> w) else M"
  have c: "cache u = Some c" "preserves (mem s) (mem u)" using u(2) Cons.prems(2) by (auto simp: cache_kept_def)
  obtain M' v where v: "store_elems E Z fuel t xs u = Inr (map (\<lambda>n. (symtable_key E n, - 1)) (filter (\<lambda>m. \<not> added ?M M' m) ns'), v)"
    "represents Z v M'" "cache_kept Z u v" "?M \<subseteq>\<^sub>m M'" "dom M' \<subseteq> dom ?M \<union> set ns'"
    using Cons.IH [OF u(3) c(1) elem_keys_preserves [OF ek c(2)] d(2) all_storable_step [OF Cons.prems(5) u(2)]] by blast
  have "M \<subseteq>\<^sub>m ?M" using u(4) by (auto simp: map_le_def dom_def)
  from map_le_trans [OF this v(4)] have M: "M \<subseteq>\<^sub>m M'" "dom M' \<subseteq> dom M \<union> set ns" using v(5) ns by (auto split: if_splits)
  have n: "added M M' n \<longleftrightarrow> ret"
  proof (cases ret)
    case True
    then have "M n = None" "M' n = Some w" using u(4) v(4) by (auto simp: map_le_def)
    then show ?thesis using True by (simp add: added_def)
  next
    case False
    then have "M n = None \<longrightarrow> M' n = None" using v(5) d(1) by auto
    then show ?thesis using False by (cases "M n") (simp_all add: added_def)
  qed
  have f: "filter (\<lambda>m. \<not> added ?M M' m) ns' = filter (\<lambda>m. \<not> added M M' m) ns'"
    by (rule filter_cong) (use d(1) in \<open>auto simp: added_def\<close>)
  have "s\<lparr>mem := mem s\<rparr> = s" "u\<lparr>mem := mem u\<rparr> = u" by (cases s, simp) (cases u, simp)
  then have "store_elems E Z fuel t (x # xs) s = Inr (map (\<lambda>n. (symtable_key E n, - 1)) (filter (\<lambda>m. \<not> added M M' m) ns), v)"
    using x k u(1) v(1) f n ns by (simp add: key_string_def release_key_def)
  moreover have "cache_kept Z s v" by (rule cache_kept_trans [OF u(2) v(3)])
  ultimately show ?case using v(2) M by blast
qed

end
