(* ===== verification/Functions_Props.thy ===== *)
theory Functions_Props
  imports Functions_Laws
begin

unbundle bit_operations_syntax

text \<open>
  The statements on the PHP functions and on the start of the module.
\<close>

subsection \<open>Start of the module\<close>

text \<open>Creating the cache in the writable state after start-up is as creating it in the protected state.\<close>

lemma create_protected:
  assumes "lock_rc s = []"
  shows "immutable_cache_cache_create ser hint now (immutable_cache_sma_protect_memory True s) = immutable_cache_cache_create ser hint now s"
  using malloc_protected [OF assms]
  by (simp add: immutable_cache_cache_create_def immutable_cache_cache_alloc_aligned_header_def immutable_cache_sma_malloc_def Let_def)

lemma start_shm_wf:
  assumes "\<not> initialized (sma s)" "sma_last (sma s) = 0" "mmap_result env 0 = Some a0" "mmap_result env 1 = Some a1"
    "1232 \<le> sz" "sz < 2 ^ 63" "0 < a0" "8 dvd a0" "a0 + sz < 2 ^ 64"
    and H: "zend_ok Z" "heap_hashed Z (mem s)" "dom (mem s) \<subseteq> {..<2 ^ 64}" "dom (mem s) \<inter> {a0..<a0 + sz} = {}"
  shows "\<exists>s'. immutable_cache_sma_init env raw n sz None s = Inr s' \<and> shm_wf Z (immutable_cache_sma_protect_memory True s') \<and>
    sma_num (sma s') = 1 \<and> fits (hdrs s' ! 0) (sz - 1240) \<and> lock_rc s' = lock_rc s \<and> entry_level s' = entry_level s \<and> proc.more s' = proc.more s"
proof -
  obtain s' where s': "immutable_cache_sma_init env raw n sz None s = Inr s'" "sma_wf (immutable_cache_sma_protect_memory True s')"
    "sma_num (sma s') = 1" "fits (hdrs s' ! 0) (sz - 1240)" using sma_init_wf [OF assms(1-9), of raw n] by blast
  have e: "segs (sma s') ! 0 = \<lparr>seg_size = sz, shmaddr = a0\<rparr>" "proc.more s' = proc.more s" "lock_rc s' = lock_rc s" "entry_level s' = entry_level s"
    using s'(1) assms(1,3-5) by (auto simp: immutable_cache_sma_init_def immutable_cache_mmap_def)
  let ?t = "immutable_cache_sma_protect_memory True s'"
  have t: "mem ?t = mem s" "sma ?t = sma s'" using e(2) proc_more_mproc [of s' s] by (simp_all add: immutable_cache_sma_protect_memory_def)
  have "\<not> immutable_cache_sma_contains_pointer (sma s') a" if "a \<in> dom (mem s)" for a
    using that H(4) e(1) s'(3) by (auto simp: immutable_cache_sma_contains_pointer_def)
  then have "shm_closed Z (sma ?t) (mem ?t)" "in_regions ?t" unfolding t shm_closed_def in_regions_def by blast+
  then have "shm_wf Z ?t" using s'(2) H t by (simp add: shm_wf_def)
  then show ?thesis using s' e by blast
qed

text \<open>Creating the cache leaves the settings alone.\<close>

lemma create_more:
  fixes s :: "'a cproc_scheme"
  assumes "sma_wf s" "immutable_cache_cache_create ser hint now s = Inr s'"
  shows "cproc.more s' = cproc.more s"
proof -
  let ?S = "sizeof_cache_header + 8 * slots_for hint"
  have sb: "?S + 64 < 2 ^ 64 - 40" using slots_for_bounds(2) [of hint] by (simp add: sizeof_cache_header_def)
  obtain p sz t where t: "immutable_cache_sma_malloc s (?S + 64) = Inr (p, t)" "alloc_post s (?S + 64) p sz t"
    using malloc_ok [OF assms(1) sb] by blast
  have "cproc.more t = cproc.more s" using t(2) proc_more_cproc [of t s] by (simp add: alloc_post_def kept_def)
  moreover have "immutable_cache_cache_alloc_aligned_header s (sizeof_cache_header + slots_for hint * 8) =
    Inr (unat ((word_of_nat p + 63 :: 64 word) AND NOT 63), t)"
    using t(1) by (simp add: immutable_cache_cache_alloc_aligned_header_def mult.commute)
  ultimately show ?thesis using assms(2)
    by (auto simp: immutable_cache_cache_create_def slots_for_def [symmetric] immutable_cache_sma_protect_memory_def Let_def split: if_splits)
qed

lemma cproc_more_module:
  fixes s t :: "'a module_scheme"
  assumes "cproc.more t = cproc.more s"
  shows "serializers t = serializers s" "serializer_name t = serializer_name s" "entries_hint t = entries_hint s" "preload_path t = preload_path s"
  using assms by (cases s; cases t; simp)+

text \<open>The state when the settings have been read.\<close>

definition configured :: "host \<Rightarrow> ini \<Rightarrow> 'a module_scheme \<Rightarrow> 'a module_scheme" where
  "configured h c s =
     (let s = REGISTER_INI_ENTRIES c (php_immutable_cache_init_globals s);
          s = s\<lparr>lock_ready := snd (immutable_cache_lock_init (rc_attr_init h) (rc_attr_pshared h) (lock_ready s))\<rparr>
      in if \<not> enable_cli s \<and> sapi_name h = ''cli'' then s\<lparr>enabled := False\<rparr> else s)"

text \<open>The size of the segment: bytes, or megabytes when the number is small, or the default.\<close>

definition segment_bytes :: "int \<Rightarrow> int" where
  "segment_bytes n = (if n \<le> 0 then 268435456 else if n < 1048576 then n * 1048576 else n)"

lemma configured_simps:
  "sma (configured h c s) = sma s" "mem (configured h c s) = mem s" "lock_rc (configured h c s) = lock_rc s" "entry_level (configured h c s) = 0"
  "serializers (configured h c s) = serializers s" "mod_initialized (configured h c s) = False"
  "enabled (configured h c s) = (ini_enabled c \<and> (ini_enable_cli c \<or> sapi_name h \<noteq> ''cli''))"
  "shm_size (configured h c s) = segment_bytes (ini_shm_size c)" "mmap_file_mask (configured h c s) = ini_mmap_file_mask c"
  "entries_hint (configured h c s) = ini_entries_hint c" "preload_path (configured h c s) = ini_preload_path c"
  "serializer_name (configured h c s) = Some (if ini_serializer c = '''' then ''default'' else ini_serializer c)"
  by (auto simp: configured_def REGISTER_INI_ENTRIES_def php_immutable_cache_init_globals_def OnUpdateShmSegments_def OnUpdateShmSize_def
      segment_bytes_def immutable_cache_warning_def Let_def)

lemma MINIT_configured:
  "PHP_MINIT E Z h fuel c s = (let s = configured h c s in
     if enabled s \<and> \<not> mod_initialized s
     then ebind (immutable_cache_sma_init (maps h) (raw_pages h) (shm_segments s) (nat (shm_size s)) (mmap_file_mask s) (s\<lparr>mod_initialized := True\<rparr>)) (\<lambda>s.
       let s = register_builtin_serializers Z h s
       in if immutable_cache_get_serializers (serializers s) = None then Inl AssertFailed
          else ebind (immutable_cache_find_serializer (case serializer_name s of Some n \<Rightarrow> n | None \<Rightarrow> '''') (serializers s) s) (\<lambda>(ser, s).
            ebind (immutable_cache_cache_create ser (entries_hint s) (clock h) s) (\<lambda>s.
              case preload_path s of
                None \<Rightarrow> Inr s
              | Some path \<Rightarrow> ebind (immutable_cache_cache_preload E Z fuel (clock h) path s) (\<lambda>(_, s). Inr s))))
     else Inr s)"
  unfolding PHP_MINIT_def configured_def Let_def ..

lemma shm_wf_serializers:
  "shm_wf Z (immutable_cache_sma_protect_memory p (s\<lparr>serializers := r\<rparr>)) = shm_wf Z (immutable_cache_sma_protect_memory p s)"
  by (simp add: shm_wf_def sma_wf_def segments_apart_def SMA_ADDR_def in_regions_def sma_regions_def immutable_cache_sma_protect_memory_def)

lemma register_php:
  assumes "serializers s = immutable_cache_serializers" "igbinary h = None" "serializer_name s \<noteq> Some ''igbinary''"
  shows "register_builtin_serializers Z h s = s\<lparr>serializers := registry_of [php_serializer Z]\<rparr>"
proof -
  have "immutable_cache_register_serializer (php_serializer Z) (registry_of []) s = (True, registry_of [php_serializer Z], s)"
    using register_at_ok [of 0 "[]" "php_serializer Z"] by (simp add: immutable_cache_register_serializer_def php_serializer_def)
  then show ?thesis using assms by (simp add: register_builtin_serializers_def empty_registry)
qed

subsection \<open>Concrete states\<close>

lemma long_to_store:
  assumes "mem s k = Some (CStr ks)" "length (zstr_val ks) \<le> 1000"
  shows "to_store (Suc 0) sample_zend None t k (IS_LONG 7) s (Value (PLong 7))
    (if immutable_cache_sma_contains_pointer (sma s) k then 64 else 64 + 8 * ((32 + length (zstr_val ks)) div 8))"
proof -
  have "8 * ((24 + length (zstr_val ks) + 1 + 7) div 8) = 8 * ((32 + length (zstr_val ks)) div 8)" by simp
  moreover have "(32 + length (zstr_val ks)) div 8 < 2305843009213693939" using assms(2) by (simp add: div_less_iff_less_mult)
  ultimately show ?thesis using assms(1) unfolding to_store_def
    by (simp add: persist_size_def immutable_cache_cache_init_entry_def immutable_cache_persist_init_context_def
        immutable_cache_persist_calc_def immutable_cache_persist_calc_str_def immutable_cache_persist_calc_memoize_def
        ADD_SIZE_def sample_zend_def sizeof_entry_def rep_long)
qed

text \<open>An array with one string key.\<close>

definition pair_heap :: heap where
  "pair_heap = [
     16 \<mapsto> CStr sample_key,
     48 \<mapsto> CHt \<lparr>ht_refcount = 1, ht_immutable = False, ht_packed = False, ht_static_keys = True, ht_uninitialized = False,
       ht_has_destructor = True, nTableMask = -2, nNumUsed = 1, nNumOfElements = 1, nInternalPointer = Some 0,
       nNextFreeElement = 0, arData = 64\<rparr>,
     64 \<mapsto> CData (Buckets [\<lparr>bval = IS_LONG 7, bh = 0, bkey = Some 16\<rparr>])]"

lemma pair_heap_ok: "heap_hashed sample_zend pair_heap" "dom pair_heap \<subseteq> {..<1048576}"
  by (auto simp: pair_heap_def heap_hashed_def str_hashed_def split: if_splits)

text \<open>The representation does not look at the settings.\<close>

lemma represents_extend: "represents Z (cproc.extend s x) M = represents Z s M"
proof -
  have e: "sma (cproc.extend s x) = sma s" "hdrs (cproc.extend s x) = hdrs s" "mem (cproc.extend s x) = mem s" "cache (cproc.extend s x) = cache s"
    "header (cproc.extend s x) = header s" "slots (cproc.extend s x) = slots s" "entry_level (cproc.extend s x) = entry_level s"
    "protect_memory (cproc.extend s x) = protect_memory s" "writable (cproc.extend s x) = writable s" by (simp_all add: cproc.defs)
  show ?thesis
    unfolding represents_def cache_wf_def shm_wf_def sma_wf_def segments_apart_def SMA_ADDR_def in_regions_def sma_regions_def table_ok_def
      table_reserved_def cache_has_def e ..
qed

lemma sample_stored_ab:
  obtains s :: cproc and c where "represents sample_zend s [''ab'' \<mapsto> Value (PLong 7)]" "cache s = Some c" "serializer c = None" "lock_rc s = []"
    "rep (mem s) (IS_ARRAY 48) sample_value"
proof -
  obtain s :: cproc and c where s: "represents sample_zend s Map.empty" "cache s = Some c" "serializer c = None" "mem s = sample_heap"
    "lock_rc s = []" "sma_num (sma s) = 1" "fits (hdrs s ! 0) 50000" "\<forall>a < 1048576. \<not> immutable_cache_sma_contains_pointer (sma s) a"
    by (rule sample_cache)
  obtain ks where k: "mem s 32 = Some (CStr ks)" "zstr_val ks = ''ab''" using s(4) by (simp add: sample_heap_at)
  have nc: "\<not> immutable_cache_sma_contains_pointer (sma s) 32" using s(8) by simp
  have st: "to_store (Suc 0) sample_zend (serializer c) 0 32 (IS_LONG 7) s (Value (PLong 7)) 96"
    using long_to_store [OF k(1), of 0] nc k(2) s(3) by simp
  have f: "fits (hdrs s ! 0) 96" by (rule fits_mono [OF s(7)]) simp_all
  obtain ret s' where s': "cache_kept sample_zend s s'" "represents sample_zend s' (if ret then Map.empty(zstr_val ks \<mapsto> Value (PLong 7)) else Map.empty)"
    "\<not> ret \<longrightarrow> lock_rc s = [] \<longrightarrow> (Map.empty :: string \<rightharpoonup> stored) (zstr_val ks) \<noteq> None \<or> (\<forall>i < sma_num (sma s). \<not> fits (hdrs s ! i) 96)"
    using store_represents [OF s(1,2) k(1) st] by blast
  then have "ret" using s(5,6) f by auto
  with s'(2) k(2) have "represents sample_zend s' [''ab'' \<mapsto> Value (PLong 7)]" by simp
  moreover have "rep (mem s') (IS_ARRAY 48) sample_value"
    by (rule preserves_rep [of "mem s"]) (use s'(1) sample_rep s(4) in \<open>simp_all add: cache_kept_def\<close>)
  ultimately show thesis using that [of s' c] s s'(1) by (simp add: cache_kept_def same_os_def)
qed

subsection \<open>Properties\<close>


text \<open>A process before the module is started.\<close>

definition blank_module :: module where
  "blank_module = \<lparr>blocked = 0, held_r = (\<lambda>_. 0), held_w = (\<lambda>_. 0), lock_rc = [], warnings = [],
     protect_memory = False, entry_level = 0, writable = (\<lambda>_. True), sma = empty_sma, hdrs = [], mem = Map.empty,
     cache = None, header = \<lparr>nhits = 0, nmisses = 0, ninserts = 0, nentries = 0, hmem_size = 0, stime = 0, state = 0\<rparr>, slots = [],
     actions = (\<lambda>_. \<lparr>sa_handler = SIG_DFL, sa_flags = 0, sa_mask = {}\<rparr>), sigaction_ok = (\<lambda>_. True), sigset_ok = (\<lambda>_. True),
     installed = 0, prev = NullPtr, sig_events = [],
     shm_segments = 1, shm_size = 0, entries_hint = 0, mmap_file_mask = None, mod_initialized = False, enable_cli = False, enabled = False,
     preload_path = None, coredump_unmap = False, serializer_name = None, serializers = immutable_cache_serializers, lock_ready = False\<rparr>"

definition sample_host :: host where
  "sample_host = \<lparr>sapi_name = ''fpm-fcgi'', maps = \<lparr>mkstemp = (\<lambda>_ _. None), ftruncate_ok = (\<lambda>_. True),
     mmap_result = (\<lambda>i. Some (if i = 0 then 268435456 else 65536))\<rparr>, raw_pages = sample_raw, clock = 0,
     rc_attr_init = 0, rc_attr_pshared = 0, igbinary = None\<rparr>"

definition default_ini :: ini where
  "default_ini = \<lparr>ini_enabled = True, ini_shm_segments = 1, ini_shm_size = 268435456, ini_entries_hint = 4096, ini_mmap_file_mask = None,
     ini_enable_cli = False, ini_protect_memory = False, ini_preload_path = None, ini_coredump_unmap = False, ini_serializer = ''default''\<rparr>"

text \<open>An engine that puts new strings at a fixed place.\<close>

definition sample_engine :: engine where
  "sample_engine = \<lparr>new_str = (\<lambda>H n. (8, H(8 \<mapsto> CStr \<lparr>str_refcount = 1, str_immutable = False, zstr_h = 0, zstr_val = n\<rparr>))),
     new_zval = (\<lambda>H v. (IS_NULL, H)), long_to_str = (\<lambda>n. ''0''), to_string = (\<lambda>H z. ''''), symtable_key = KStr, ref_cell = (\<lambda>_. IS_NULL),
     stat_size = (\<lambda>_. None), fopen = (\<lambda>_. None), scandir = (\<lambda>_. None)\<rparr>"






end
