(* ===== verification/Lock_Backends.thy ===== *)
theory Lock_Backends
  imports Locks "HOL-Library.Monad_Syntax"
begin

unbundle bit_operations_syntax

text \<open>
  The five implementations of a lock among which \<^verbatim>\<open>immutable_cache_lock.c\<close> chooses when it is built, the
  wrappers of \<^verbatim>\<open>immutable_cache_windows_srwlock_kernel.c\<close> and the mutex of \<^verbatim>\<open>immutable_cache_mutex.c\<close>, seen by
  all processes that share the lock: an acquisition by process \<open>i\<close> is \<open>None\<close> when the caller has to wait.
  The choice of the preprocessor is the argument \<open>backend\<close>.

  What the primitives of the C library and of the system do follows their specification: a
  read-write lock has any number of readers or one writer, a recursive mutex one owner and a
  count, a lock on a file one kind of lock for each process. \<open>sys n\<close> is the error number of the \<open>n\<close>-th
  call an operation makes, \<open>0\<close> when the system has nothing to object.
\<close>

subsection \<open>Locks\<close>

datatype backend = PHP_WIN32 | NATIVE_RWLOCK | LOCK_RECURSIVE | SPIN_LOCK | FCNTL_LOCK

text \<open>\<^verbatim>\<open>pthread_rwlock_t\<close>, \<^verbatim>\<open>SRWLOCK\<close> and the locks of a file; \<^verbatim>\<open>pthread_mutex_t\<close>; the word of the spin lock; a lock that was destroyed.\<close>

datatype lock_state = Rwlock "nat list" "nat option" | Mutex "nat option" nat | Spin "64 word" | Destroyed

definition EINTR :: int where
  "EINTR = 4"

type_synonym syscalls = "nat \<Rightarrow> int"

subsection \<open>Primitives of the library\<close>

fun take_shared :: "nat \<Rightarrow> lock_state \<Rightarrow> lock_state option" where
  "take_shared i (Rwlock rs None) = Some (Rwlock (i # rs) None)"
| "take_shared i l = None"

fun take_exclusive :: "nat \<Rightarrow> lock_state \<Rightarrow> lock_state option" where
  "take_exclusive i (Rwlock [] None) = Some (Rwlock [] (Some i))"
| "take_exclusive i l = None"

fun give_back :: "nat \<Rightarrow> lock_state \<Rightarrow> lock_state" where
  "give_back i (Rwlock rs w) = (if w = Some i then Rwlock rs None else Rwlock (remove1 i rs) w)"
| "give_back i l = l"

definition pthread_call :: "int \<Rightarrow> lock_state option \<Rightarrow> lock_state \<Rightarrow> (int \<times> lock_state) option" where
  "pthread_call rc r l = (if rc \<noteq> 0 then Some (rc, l) else map_option (Pair 0) r)"

fun pthread_mutex_lock :: "nat \<Rightarrow> lock_state \<Rightarrow> lock_state option" where
  "pthread_mutex_lock i (Mutex None n) = Some (Mutex (Some i) 1)"
| "pthread_mutex_lock i (Mutex (Some j) n) = (if i = j then Some (Mutex (Some i) (n + 1)) else None)"
| "pthread_mutex_lock i l = None"

fun pthread_mutex_unlock :: "nat \<Rightarrow> lock_state \<Rightarrow> lock_state" where
  "pthread_mutex_unlock i (Mutex (Some j) n) =
     (if i \<noteq> j then Mutex (Some j) n else if n \<le> 1 then Mutex None 0 else Mutex (Some i) (n - 1))"
| "pthread_mutex_unlock i l = l"

text \<open>A process has one lock on the file; setting another kind replaces it.\<close>

fun F_RDLCK :: "nat \<Rightarrow> lock_state \<Rightarrow> lock_state option" where
  "F_RDLCK i (Rwlock rs w) = (if w = None \<or> w = Some i then Some (Rwlock (List.insert i rs) None) else None)"
| "F_RDLCK i l = None"

fun F_WRLCK :: "nat \<Rightarrow> lock_state \<Rightarrow> lock_state option" where
  "F_WRLCK i (Rwlock rs w) = (if set rs \<subseteq> {i} \<and> (w = None \<or> w = Some i) then Some (Rwlock [] (Some i)) else None)"
| "F_WRLCK i l = None"

fun F_UNLCK :: "nat \<Rightarrow> lock_state \<Rightarrow> lock_state option" where
  "F_UNLCK i (Rwlock rs w) = Some (Rwlock (removeAll i rs) (if w = Some i then None else w))"
| "F_UNLCK i l = None"

subsection \<open>Windows\<close>

definition immutable_cache_windows_cs_create :: "lock_state \<Rightarrow> lock_state" where
  "immutable_cache_windows_cs_create l = Rwlock [] None"

definition immutable_cache_windows_cs_lock :: "nat \<Rightarrow> lock_state \<Rightarrow> lock_state option" where
  "immutable_cache_windows_cs_lock i l = take_exclusive i l"

definition immutable_cache_windows_cs_rdlock :: "nat \<Rightarrow> lock_state \<Rightarrow> lock_state option" where
  "immutable_cache_windows_cs_rdlock i l = take_shared i l"

definition immutable_cache_windows_cs_unlock_rd :: "nat \<Rightarrow> lock_state \<Rightarrow> lock_state" where
  "immutable_cache_windows_cs_unlock_rd i l = give_back i l"

definition immutable_cache_windows_cs_unlock_wr :: "nat \<Rightarrow> lock_state \<Rightarrow> lock_state" where
  "immutable_cache_windows_cs_unlock_wr i l = give_back i l"

definition immutable_cache_windows_cs_destroy :: "lock_state \<Rightarrow> lock_state" where
  "immutable_cache_windows_cs_destroy l = l"

definition windows_lock_init :: bool where
  "windows_lock_init = True"

definition windows_lock_create :: "lock_state \<Rightarrow> bool \<times> lock_state" where
  "windows_lock_create l = (True, immutable_cache_windows_cs_create l)"

definition windows_rlock_impl :: "nat \<Rightarrow> lock_state \<Rightarrow> (bool \<times> lock_state) option" where
  "windows_rlock_impl i l = map_option (Pair True) (immutable_cache_windows_cs_rdlock i l)"

definition windows_wlock_impl :: "nat \<Rightarrow> lock_state \<Rightarrow> (bool \<times> lock_state) option" where
  "windows_wlock_impl i l = map_option (Pair True) (immutable_cache_windows_cs_lock i l)"

definition windows_wunlock :: "nat \<Rightarrow> lock_state \<Rightarrow> lock_state" where
  "windows_wunlock i l = immutable_cache_windows_cs_unlock_wr i l"

definition windows_runlock :: "nat \<Rightarrow> lock_state \<Rightarrow> lock_state" where
  "windows_runlock i l = immutable_cache_windows_cs_unlock_rd i l"

definition windows_lock_destroy :: "lock_state \<Rightarrow> lock_state" where
  "windows_lock_destroy l = immutable_cache_windows_cs_destroy l"

subsection \<open>Read-write locks of the thread library\<close>

definition native_lock_create :: "int \<Rightarrow> lock_state \<Rightarrow> bool \<times> lock_state" where
  "native_lock_create rc l = (if rc = 0 then (True, Rwlock [] None) else (False, l))"

definition native_rlock_impl :: "int \<Rightarrow> nat \<Rightarrow> lock_state \<Rightarrow> (bool \<times> lock_state) option" where
  "native_rlock_impl rc i l = do { (r, l) \<leftarrow> pthread_call rc (take_shared i l) l; Some (r = 0, l) }"

definition native_wlock_impl :: "int \<Rightarrow> nat \<Rightarrow> lock_state \<Rightarrow> (bool \<times> lock_state) option" where
  "native_wlock_impl rc i l = do { (r, l) \<leftarrow> pthread_call rc (take_exclusive i l) l; Some (r = 0, l) }"

definition native_wunlock :: "nat \<Rightarrow> lock_state \<Rightarrow> lock_state" where
  "native_wunlock i l = give_back i l"

definition native_runlock :: "nat \<Rightarrow> lock_state \<Rightarrow> lock_state" where
  "native_runlock i l = give_back i l"

definition native_lock_destroy :: "lock_state \<Rightarrow> lock_state" where
  "native_lock_destroy l = Destroyed"

subsection \<open>Recursive mutex\<close>

text \<open>The result of \<^verbatim>\<open>pthread_mutexattr_settype\<close> is not looked at.\<close>

definition recursive_lock_init :: "int \<Rightarrow> int \<Rightarrow> bool \<Rightarrow> bool \<times> bool" where
  "recursive_lock_init rc_init rc_pshared ready =
     (if ready then (True, ready)
      else (let ready = True
            in if rc_init \<noteq> 0 then (False, ready)
               else if rc_pshared \<noteq> 0 then (False, ready)
               else (True, ready)))"

definition recursive_lock_cleanup :: "bool \<Rightarrow> bool" where
  "recursive_lock_cleanup ready = (if \<not> ready then ready else False)"

definition recursive_lock_create :: "int \<Rightarrow> lock_state \<Rightarrow> bool \<times> lock_state" where
  "recursive_lock_create rc l = (True, if rc = 0 then Mutex None 0 else l)"

definition recursive_rlock_impl :: "int \<Rightarrow> nat \<Rightarrow> lock_state \<Rightarrow> (bool \<times> lock_state) option" where
  "recursive_rlock_impl rc i l = do { (r, l) \<leftarrow> pthread_call rc (pthread_mutex_lock i l) l; Some (r = 0, l) }"

definition recursive_wlock_impl :: "int \<Rightarrow> nat \<Rightarrow> lock_state \<Rightarrow> (bool \<times> lock_state) option" where
  "recursive_wlock_impl rc i l = do { (r, l) \<leftarrow> pthread_call rc (pthread_mutex_lock i l) l; Some (r = 0, l) }"

definition recursive_wunlock :: "nat \<Rightarrow> lock_state \<Rightarrow> lock_state" where
  "recursive_wunlock i l = pthread_mutex_unlock i l"

definition recursive_runlock :: "nat \<Rightarrow> lock_state \<Rightarrow> lock_state" where
  "recursive_runlock i l = pthread_mutex_unlock i l"

definition recursive_lock_destroy :: "lock_state \<Rightarrow> lock_state" where
  "recursive_lock_destroy l = Destroyed"

subsection \<open>Spin lock\<close>

text \<open>\<^verbatim>\<open>xchgl\<close> exchanges a 32-bit register with the low half of the 64-bit word \<^verbatim>\<open>state\<close>.\<close>

definition xchgl :: "32 word \<Rightarrow> 64 word \<Rightarrow> 32 word \<times> 64 word" where
  "xchgl r m = (ucast m, (m AND NOT (mask 32)) OR ucast r)"

text \<open>The result of an attempt is the old value: \<open>0\<close> when the lock was free.\<close>

definition immutable_cache_lock_try :: "64 word \<Rightarrow> 32 word \<times> 64 word" where
  "immutable_cache_lock_try m = xchgl 1 m"

text \<open>The loop: before each attempt the other processes leave the word as the next element of the list says.
  \<open>None\<close>: the list ends before the lock is taken.\<close>

fun immutable_cache_lock_get :: "64 word list \<Rightarrow> 64 word option" where
  "immutable_cache_lock_get [] = None"
| "immutable_cache_lock_get (m # ms) =
     (let (failed, m) = immutable_cache_lock_try m
      in if failed \<noteq> 0 then immutable_cache_lock_get ms else Some m)"

definition immutable_cache_lock_release :: "64 word \<Rightarrow> bool \<times> 64 word" where
  "immutable_cache_lock_release m = (let (released, m) = xchgl 0 m in (released = 0, m))"

text \<open>\<^verbatim>\<open>immutable_cache_lock_init\<close> of this and of the next implementation: \<^verbatim>\<open>return 0\<close>.\<close>

definition stateless_lock_init :: bool where
  "stateless_lock_init = False"

text \<open>The function ends without a \<^verbatim>\<open>return\<close>: its result is whatever \<open>junk\<close> is left in the register.\<close>

definition spin_lock_create :: "bool \<Rightarrow> lock_state \<Rightarrow> bool \<times> lock_state" where
  "spin_lock_create junk l = (junk, Spin 0)"

text \<open>One attempt of the loop by the process that is scheduled; a failed one leaves the word as it is.\<close>

definition spin_attempt :: "lock_state \<Rightarrow> lock_state option" where
  "spin_attempt l = (case l of Spin m \<Rightarrow> map_option Spin (immutable_cache_lock_get [m]) | _ \<Rightarrow> None)"

definition spin_rlock_impl :: "lock_state \<Rightarrow> (bool \<times> lock_state) option" where
  "spin_rlock_impl l = map_option (Pair True) (spin_attempt l)"

definition spin_wlock_impl :: "lock_state \<Rightarrow> (bool \<times> lock_state) option" where
  "spin_wlock_impl l = map_option (Pair True) (spin_attempt l)"

definition spin_wunlock :: "lock_state \<Rightarrow> lock_state" where
  "spin_wunlock l = (case l of Spin m \<Rightarrow> Spin (snd (immutable_cache_lock_release m)) | _ \<Rightarrow> l)"

definition spin_runlock :: "lock_state \<Rightarrow> lock_state" where
  "spin_runlock l = (case l of Spin m \<Rightarrow> Spin (snd (immutable_cache_lock_release m)) | _ \<Rightarrow> l)"

definition spin_lock_destroy :: "lock_state \<Rightarrow> lock_state" where
  "spin_lock_destroy l = l"

subsection \<open>File lock\<close>

text \<open>The loop of \<^verbatim>\<open>immutable_cache_fcntl_call\<close> over interrupted calls: the error of the first one that is not
  interrupted, \<open>None\<close> when all of them are.\<close>

partial_function (option) fcntl_loop :: "syscalls \<Rightarrow> nat \<Rightarrow> int option" where
  [code]: "fcntl_loop sys n = (if sys n = EINTR then fcntl_loop sys (Suc n) else Some (sys n))"

definition immutable_cache_fcntl_call :: "syscalls \<Rightarrow> lock_state option \<Rightarrow> lock_state \<Rightarrow> (int \<times> lock_state) option" where
  "immutable_cache_fcntl_call sys r l =
     do { err \<leftarrow> fcntl_loop sys 0; if err \<noteq> 0 then Some (- 1, l) else map_option (Pair 0) r }"

text \<open>\<open>fd\<close> is the result of \<^verbatim>\<open>mkstemp\<close>.\<close>

definition fcntl_lock_create :: "int \<Rightarrow> bool \<times> lock_state" where
  "fcntl_lock_create fd = (fd > 0, Rwlock [] None)"

definition fcntl_rlock_impl :: "syscalls \<Rightarrow> nat \<Rightarrow> lock_state \<Rightarrow> (bool \<times> lock_state) option" where
  "fcntl_rlock_impl sys i l = do { (_, l) \<leftarrow> immutable_cache_fcntl_call sys (F_RDLCK i l) l; Some (True, l) }"

definition fcntl_wlock_impl :: "syscalls \<Rightarrow> nat \<Rightarrow> lock_state \<Rightarrow> (bool \<times> lock_state) option" where
  "fcntl_wlock_impl sys i l = do { (_, l) \<leftarrow> immutable_cache_fcntl_call sys (F_WRLCK i l) l; Some (True, l) }"

definition fcntl_wunlock :: "syscalls \<Rightarrow> nat \<Rightarrow> lock_state \<Rightarrow> lock_state option" where
  "fcntl_wunlock sys i l = map_option snd (immutable_cache_fcntl_call sys (F_UNLCK i l) l)"

definition fcntl_runlock :: "syscalls \<Rightarrow> nat \<Rightarrow> lock_state \<Rightarrow> lock_state option" where
  "fcntl_runlock sys i l = map_option snd (immutable_cache_fcntl_call sys (F_UNLCK i l) l)"

text \<open>\<^verbatim>\<open>close\<close> gives up the locks of the calling process.\<close>

definition fcntl_lock_destroy :: "nat \<Rightarrow> lock_state \<Rightarrow> lock_state" where
  "fcntl_lock_destroy i l = (case F_UNLCK i l of None \<Rightarrow> l | Some l \<Rightarrow> l)"

subsection \<open>The mutex of \<^verbatim>\<open>immutable_cache_mutex.c\<close>\<close>

definition immutable_cache_mutex_init :: "int \<Rightarrow> int \<Rightarrow> bool \<Rightarrow> bool \<times> bool" where
  "immutable_cache_mutex_init rc_init rc_pshared ready =
     (if ready then (True, ready)
      else (let ready = True
            in if rc_init \<noteq> 0 then (False, ready)
               else if rc_pshared \<noteq> 0 then (False, ready)
               else (True, ready)))"

definition immutable_cache_mutex_cleanup :: "bool \<Rightarrow> bool" where
  "immutable_cache_mutex_cleanup ready = (if \<not> ready then ready else False)"

definition immutable_cache_mutex_create :: "int \<Rightarrow> lock_state \<Rightarrow> bool \<times> lock_state" where
  "immutable_cache_mutex_create rc l = (True, if rc = 0 then Mutex None 0 else l)"

text \<open>A mutex that is not recursive: its owner waits for itself.\<close>

fun plain_mutex_lock :: "nat \<Rightarrow> lock_state \<Rightarrow> lock_state option" where
  "plain_mutex_lock i (Mutex None n) = Some (Mutex (Some i) 1)"
| "plain_mutex_lock i l = None"

definition immutable_cache_mutex_lock ::
  "nat \<Rightarrow> lock_state \<times> 'a os_scheme \<Rightarrow> (bool \<times> lock_state \<times> 'a os_scheme) option" where
  "immutable_cache_mutex_lock i = (\<lambda>(l, s).
     let (rc, s) = next_rc (HANDLE_BLOCK_INTERRUPTIONS s)
     in do {
       (r, l) \<leftarrow> pthread_call rc (plain_mutex_lock i l) l;
       Some (if r = 0 then (True, l, s)
             else (False, l, immutable_cache_warning ''Failed to acquire lock'' (HANDLE_UNBLOCK_INTERRUPTIONS s)))
     })"

definition immutable_cache_mutex_unlock ::
  "nat \<Rightarrow> lock_state \<times> 'a os_scheme \<Rightarrow> bool \<times> lock_state \<times> 'a os_scheme" where
  "immutable_cache_mutex_unlock i = (\<lambda>(l, s). (True, pthread_mutex_unlock i l, HANDLE_UNBLOCK_INTERRUPTIONS s))"

definition immutable_cache_mutex_destroy :: "lock_state \<Rightarrow> lock_state" where
  "immutable_cache_mutex_destroy l = Destroyed"

subsection \<open>The choice\<close>

text \<open>A lock just after a successful \<^verbatim>\<open>CREATE_LOCK\<close>.\<close>

fun backend_created :: "backend \<Rightarrow> lock_state \<Rightarrow> lock_state" where
  "backend_created PHP_WIN32 l = snd (windows_lock_create l)"
| "backend_created NATIVE_RWLOCK l = snd (native_lock_create 0 l)"
| "backend_created LOCK_RECURSIVE l = snd (recursive_lock_create 0 l)"
| "backend_created SPIN_LOCK l = snd (spin_lock_create True l)"
| "backend_created FCNTL_LOCK l = snd (fcntl_lock_create 3)"

fun backend_rlock :: "backend \<Rightarrow> syscalls \<Rightarrow> nat \<Rightarrow> lock_state \<Rightarrow> (bool \<times> lock_state) option" where
  "backend_rlock PHP_WIN32 sys i l = windows_rlock_impl i l"
| "backend_rlock NATIVE_RWLOCK sys i l = native_rlock_impl (sys 0) i l"
| "backend_rlock LOCK_RECURSIVE sys i l = recursive_rlock_impl (sys 0) i l"
| "backend_rlock SPIN_LOCK sys i l = spin_rlock_impl l"
| "backend_rlock FCNTL_LOCK sys i l = fcntl_rlock_impl sys i l"

fun backend_wlock :: "backend \<Rightarrow> syscalls \<Rightarrow> nat \<Rightarrow> lock_state \<Rightarrow> (bool \<times> lock_state) option" where
  "backend_wlock PHP_WIN32 sys i l = windows_wlock_impl i l"
| "backend_wlock NATIVE_RWLOCK sys i l = native_wlock_impl (sys 0) i l"
| "backend_wlock LOCK_RECURSIVE sys i l = recursive_wlock_impl (sys 0) i l"
| "backend_wlock SPIN_LOCK sys i l = spin_wlock_impl l"
| "backend_wlock FCNTL_LOCK sys i l = fcntl_wlock_impl sys i l"

fun backend_runlock :: "backend \<Rightarrow> syscalls \<Rightarrow> nat \<Rightarrow> lock_state \<Rightarrow> lock_state option" where
  "backend_runlock PHP_WIN32 sys i l = Some (windows_runlock i l)"
| "backend_runlock NATIVE_RWLOCK sys i l = Some (native_runlock i l)"
| "backend_runlock LOCK_RECURSIVE sys i l = Some (recursive_runlock i l)"
| "backend_runlock SPIN_LOCK sys i l = Some (spin_runlock l)"
| "backend_runlock FCNTL_LOCK sys i l = fcntl_runlock sys i l"

fun backend_wunlock :: "backend \<Rightarrow> syscalls \<Rightarrow> nat \<Rightarrow> lock_state \<Rightarrow> lock_state option" where
  "backend_wunlock PHP_WIN32 sys i l = Some (windows_wunlock i l)"
| "backend_wunlock NATIVE_RWLOCK sys i l = Some (native_wunlock i l)"
| "backend_wunlock LOCK_RECURSIVE sys i l = Some (recursive_wunlock i l)"
| "backend_wunlock SPIN_LOCK sys i l = Some (spin_wunlock l)"
| "backend_wunlock FCNTL_LOCK sys i l = fcntl_wunlock sys i l"

text \<open>What the file lock needs of the system, because its errors are not looked at: a call is interrupted
  finitely often and does not fail otherwise.\<close>

definition dependable :: "backend \<Rightarrow> syscalls \<Rightarrow> bool" where
  "dependable b sys \<longleftrightarrow> (b = FCNTL_LOCK \<longrightarrow> (\<exists>n. sys n = 0 \<and> (\<forall>m < n. sys m = EINTR)))"

end
