(* ===== verification/Lock_Laws.thy ===== *)
theory Lock_Laws
  imports Lock_Backends
begin

text \<open>
  The contract of a lock, and that each of the five implementations keeps it: a writer is alone, a
  free lock can be taken. The file lock keeps it as long as its system calls do not fail.
\<close>

subsection \<open>The contract\<close>

text \<open>\<open>held l R W\<close>: in state \<open>l\<close> the processes in \<open>R\<close> hold the lock for reading, those in \<open>W\<close> for writing.\<close>

locale rw_lock =
  fixes held :: "'l \<Rightarrow> nat set \<Rightarrow> nat set \<Rightarrow> bool" and ok :: "syscalls \<Rightarrow> bool"
    and rlock wlock :: "syscalls \<Rightarrow> nat \<Rightarrow> 'l \<Rightarrow> (bool \<times> 'l) option" and runlock wunlock :: "syscalls \<Rightarrow> nat \<Rightarrow> 'l \<Rightarrow> 'l option"
  assumes alone: "held l R W \<Longrightarrow> W = {} \<or> R = {} \<and> (\<exists>i. W = {i})"
    and rlock_law: "held l R W \<Longrightarrow> i \<notin> R \<union> W \<Longrightarrow> ok sys \<Longrightarrow> rlock sys i l = Some (True, l') \<Longrightarrow> W = {} \<and> held l' (insert i R) {}"
    and rlock_refused: "rlock sys i l = Some (False, l') \<Longrightarrow> l' = l"
    and wlock_law: "held l R W \<Longrightarrow> i \<notin> R \<union> W \<Longrightarrow> ok sys \<Longrightarrow> wlock sys i l = Some (True, l') \<Longrightarrow> R = {} \<and> W = {} \<and> held l' {} {i}"
    and wlock_refused: "wlock sys i l = Some (False, l') \<Longrightarrow> l' = l"
    and runlock_law: "held l R W \<Longrightarrow> i \<in> R \<Longrightarrow> ok sys \<Longrightarrow> \<exists>l'. runlock sys i l = Some l' \<and> held l' (R - {i}) W"
    and wunlock_law: "held l R W \<Longrightarrow> i \<in> W \<Longrightarrow> ok sys \<Longrightarrow> \<exists>l'. wunlock sys i l = Some l' \<and> held l' R (W - {i})"
    and rlock_free: "held l {} {} \<Longrightarrow> ok sys \<Longrightarrow> rlock sys i l \<noteq> None"
    and wlock_free: "held l {} {} \<Longrightarrow> ok sys \<Longrightarrow> wlock sys i l \<noteq> None"
begin

lemma writer_alone: "held l R W \<Longrightarrow> i \<in> W \<Longrightarrow> R = {} \<and> W = {i}"
  using alone by blast

lemma writer_excludes: "held l R W \<Longrightarrow> i \<in> W \<Longrightarrow> j \<in> R \<union> W \<Longrightarrow> i = j"
  using writer_alone by blast

lemma runlock_held: "held l R W \<Longrightarrow> i \<in> R \<Longrightarrow> ok sys \<Longrightarrow> runlock sys i l = Some l' \<Longrightarrow> held l' (R - {i}) W"
  using runlock_law by fastforce

lemma wunlock_held: "held l R W \<Longrightarrow> i \<in> W \<Longrightarrow> ok sys \<Longrightarrow> wunlock sys i l = Some l' \<Longrightarrow> held l' R (W - {i})"
  using wunlock_law by fastforce

end

subsection \<open>Who holds a lock\<close>

definition single_holder :: "nat set \<Rightarrow> nat set \<Rightarrow> nat \<Rightarrow> bool" where
  "single_holder R W i \<longleftrightarrow> R = {i} \<and> W = {} \<or> R = {} \<and> W = {i}"

fun lock_holds :: "backend \<Rightarrow> lock_state \<Rightarrow> nat set \<Rightarrow> nat set \<Rightarrow> bool" where
  "lock_holds LOCK_RECURSIVE (Mutex None n) R W \<longleftrightarrow> R = {} \<and> W = {}"
| "lock_holds LOCK_RECURSIVE (Mutex (Some i) n) R W \<longleftrightarrow> n = 1 \<and> single_holder R W i"
| "lock_holds SPIN_LOCK (Spin m) R W \<longleftrightarrow>
     (if R = {} \<and> W = {} then ucast m = (0 :: 32 word) else ucast m = (1 :: 32 word) \<and> (\<exists>i. single_holder R W i))"
| "lock_holds b (Rwlock rs w) R W \<longleftrightarrow> b \<notin> {LOCK_RECURSIVE, SPIN_LOCK} \<and> distinct rs \<and> R = set rs \<and> W = set_option w \<and> (w \<noteq> None \<longrightarrow> rs = [])"
| "lock_holds b l R W \<longleftrightarrow> False"

lemma rwlock_holds:
  assumes "lock_holds b l R W" "b \<notin> {LOCK_RECURSIVE, SPIN_LOCK}"
  obtains rs w where "l = Rwlock rs w" "distinct rs" "R = set rs" "W = set_option w" "w \<noteq> None \<longrightarrow> rs = []"
  using assms by (cases b; cases l) auto

lemma mutex_holds:
  assumes "lock_holds LOCK_RECURSIVE l R W"
  obtains (free) n where "l = Mutex None n" "R = {}" "W = {}" | (owned) i where "l = Mutex (Some i) 1" "single_holder R W i"
proof (cases l)
  case (Mutex w n)
  with assms that show thesis by (cases w) auto
qed (use assms in auto)

lemma spin_holds:
  assumes "lock_holds SPIN_LOCK l R W"
  obtains (free) m where "l = Spin m" "ucast m = (0 :: 32 word)" "R = {}" "W = {}"
  | (taken) m i where "l = Spin m" "ucast m = (1 :: 32 word)" "single_holder R W i"
proof (cases l)
  case (Spin m)
  with assms that show thesis by (auto split: if_splits)
qed (use assms in auto)

lemma lock_alone: "lock_holds b l R W \<Longrightarrow> W = {} \<or> R = {} \<and> (\<exists>i. W = {i})"
proof -
  assume h: "lock_holds b l R W"
  consider "b = LOCK_RECURSIVE" | "b = SPIN_LOCK" | "b \<notin> {LOCK_RECURSIVE, SPIN_LOCK}" by blast
  then show ?thesis
  proof cases
    case 1
    with h have "lock_holds LOCK_RECURSIVE l R W" by simp
    then show ?thesis by (cases rule: mutex_holds) (auto simp: single_holder_def)
  next
    case 2
    with h have "lock_holds SPIN_LOCK l R W" by simp
    then show ?thesis by (cases rule: spin_holds) (auto simp: single_holder_def)
  next
    case 3
    from h 3 obtain rs w where "R = set rs" "W = set_option w" "w \<noteq> None \<longrightarrow> rs = []" by (rule rwlock_holds)
    then show ?thesis by (cases w) auto
  qed
qed

lemma created_holds: "lock_holds b (backend_created b l) {} {}"
  by (cases b) (simp_all add: windows_lock_create_def immutable_cache_windows_cs_create_def native_lock_create_def
    recursive_lock_create_def spin_lock_create_def fcntl_lock_create_def)

subsection \<open>The exchange of the spin lock\<close>

lemma xchgl_word [simp]: "ucast (snd (xchgl r m)) = r" "fst (xchgl r m) = ucast m"
  by (auto simp: xchgl_def bit_simps intro!: bit_word_eqI)

lemma lock_get_one:
  "immutable_cache_lock_get [m] = (if ucast m = (0 :: 32 word) then Some (snd (xchgl 1 m)) else None)"
  by (simp add: immutable_cache_lock_try_def Let_def split: prod.splits) (metis fst_conv xchgl_word(2) snd_conv)

lemma spin_attempt_Spin: "spin_attempt (Spin m) = (if ucast m = (0 :: 32 word) then Some (Spin (snd (xchgl 1 m))) else None)"
  unfolding spin_attempt_def lock_state.case lock_get_one by simp

lemma spin_release: "snd (immutable_cache_lock_release m) = snd (xchgl 0 m)"
  by (simp add: immutable_cache_lock_release_def Let_def split: prod.splits)

subsection \<open>The loop of the file lock\<close>

lemma fcntl_loop_from:
  assumes "sys (n + k) \<noteq> EINTR" "\<forall>m < k. sys (n + m) = EINTR"
  shows "fcntl_loop sys n = Some (sys (n + k))"
  using assms
proof (induction k arbitrary: n)
  case 0
  then show ?case by (simp add: fcntl_loop.simps)
next
  case (Suc k)
  have "sys n = EINTR" using Suc.prems(2) by force
  moreover have "fcntl_loop sys (Suc n) = Some (sys (Suc n + k))" by (rule Suc.IH) (use Suc.prems in auto)
  ultimately show ?case by (subst fcntl_loop.simps) simp
qed

lemma fcntl_call_ok:
  assumes "dependable FCNTL_LOCK sys"
  shows "immutable_cache_fcntl_call sys r l = map_option (Pair 0) r"
proof -
  obtain n where n: "sys n = 0" "\<forall>m < n. sys m = EINTR" using assms by (auto simp: dependable_def)
  have "fcntl_loop sys 0 = Some 0" using fcntl_loop_from [of sys 0 n] n by (simp add: EINTR_def)
  then show ?thesis by (simp add: immutable_cache_fcntl_call_def)
qed

subsection \<open>Every implementation keeps the contract\<close>

lemmas backend_defs =
  windows_rlock_impl_def windows_wlock_impl_def windows_runlock_def windows_wunlock_def
  immutable_cache_windows_cs_rdlock_def immutable_cache_windows_cs_lock_def
  immutable_cache_windows_cs_unlock_rd_def immutable_cache_windows_cs_unlock_wr_def
  native_rlock_impl_def native_wlock_impl_def native_runlock_def native_wunlock_def pthread_call_def
  recursive_rlock_impl_def recursive_wlock_impl_def recursive_runlock_def recursive_wunlock_def
  spin_rlock_impl_def spin_wlock_impl_def spin_runlock_def spin_wunlock_def spin_attempt_Spin spin_release
  fcntl_rlock_impl_def fcntl_wlock_impl_def fcntl_runlock_def fcntl_wunlock_def

lemma mutex_laws:
  assumes h: "lock_holds LOCK_RECURSIVE l R W"
  shows "i \<notin> R \<union> W \<Longrightarrow> backend_rlock LOCK_RECURSIVE sys i l = Some (True, l') \<Longrightarrow> R = {} \<and> W = {} \<and> lock_holds LOCK_RECURSIVE l' {i} {} \<and> lock_holds LOCK_RECURSIVE l' {} {i}"
    "backend_wlock LOCK_RECURSIVE sys i l = backend_rlock LOCK_RECURSIVE sys i l"
    "i \<in> R \<union> W \<Longrightarrow> \<exists>l'. backend_runlock LOCK_RECURSIVE sys i l = Some l' \<and> backend_wunlock LOCK_RECURSIVE sys i l = Some l' \<and>
      R \<union> W = {i} \<and> lock_holds LOCK_RECURSIVE l' {} {}"
    "R = {} \<Longrightarrow> W = {} \<Longrightarrow> backend_rlock LOCK_RECURSIVE sys i l \<noteq> None"
  using h by (cases rule: mutex_holds; auto simp: backend_defs single_holder_def split: if_splits)+

lemma spin_laws:
  assumes h: "lock_holds SPIN_LOCK l R W"
  shows "backend_rlock SPIN_LOCK sys i l = Some (True, l') \<Longrightarrow> R = {} \<and> W = {} \<and> lock_holds SPIN_LOCK l' {i} {} \<and> lock_holds SPIN_LOCK l' {} {i}"
    "backend_wlock SPIN_LOCK sys i l = backend_rlock SPIN_LOCK sys i l"
    "i \<in> R \<union> W \<Longrightarrow> \<exists>l'. backend_runlock SPIN_LOCK sys i l = Some l' \<and> backend_wunlock SPIN_LOCK sys i l = Some l' \<and>
      R \<union> W = {i} \<and> lock_holds SPIN_LOCK l' {} {}"
    "R = {} \<Longrightarrow> W = {} \<Longrightarrow> backend_rlock SPIN_LOCK sys i l \<noteq> None"
proof -
  show "backend_rlock SPIN_LOCK sys i l = Some (True, l') \<Longrightarrow> R = {} \<and> W = {} \<and> lock_holds SPIN_LOCK l' {i} {} \<and> lock_holds SPIN_LOCK l' {} {i}"
    using h by (cases rule: spin_holds) (auto simp: backend_defs single_holder_def split: if_splits intro!: exI [of _ i])
  show "i \<in> R \<union> W \<Longrightarrow> \<exists>l'. backend_runlock SPIN_LOCK sys i l = Some l' \<and> backend_wunlock SPIN_LOCK sys i l = Some l' \<and>
      R \<union> W = {i} \<and> lock_holds SPIN_LOCK l' {} {}"
    using h by (cases rule: spin_holds) (auto simp: backend_defs single_holder_def)
  show "R = {} \<Longrightarrow> W = {} \<Longrightarrow> backend_rlock SPIN_LOCK sys i l \<noteq> None"
    using h by (cases rule: spin_holds) (auto simp: backend_defs single_holder_def)
qed (simp add: backend_defs)

lemma rwlock_laws:
  assumes h: "lock_holds b l R W" and b: "b \<notin> {LOCK_RECURSIVE, SPIN_LOCK}" and d: "dependable b sys"
  shows "i \<notin> R \<union> W \<Longrightarrow> backend_rlock b sys i l = Some (True, l') \<Longrightarrow> W = {} \<and> lock_holds b l' (insert i R) {}"
    "i \<notin> R \<union> W \<Longrightarrow> backend_wlock b sys i l = Some (True, l') \<Longrightarrow> R = {} \<and> W = {} \<and> lock_holds b l' {} {i}"
    "i \<in> R \<Longrightarrow> \<exists>l'. backend_runlock b sys i l = Some l' \<and> lock_holds b l' (R - {i}) W"
    "i \<in> W \<Longrightarrow> \<exists>l'. backend_wunlock b sys i l = Some l' \<and> lock_holds b l' R (W - {i})"
    "R = {} \<Longrightarrow> W = {} \<Longrightarrow> backend_rlock b sys i l \<noteq> None \<and> backend_wlock b sys i l \<noteq> None"
proof -
  obtain rs w where l: "l = Rwlock rs w" "distinct rs" "R = set rs" "W = set_option w" "w \<noteq> None \<longrightarrow> rs = []"
    using h b by (rule rwlock_holds)
  note fc = fcntl_call_ok [of sys]
  show "i \<notin> R \<union> W \<Longrightarrow> backend_rlock b sys i l = Some (True, l') \<Longrightarrow> W = {} \<and> lock_holds b l' (insert i R) {}"
    using b d l by (cases b; cases w) (auto simp: backend_defs fc split: if_splits)
  show "i \<notin> R \<union> W \<Longrightarrow> backend_wlock b sys i l = Some (True, l') \<Longrightarrow> R = {} \<and> W = {} \<and> lock_holds b l' {} {i}"
    using b d l by (cases b; cases w; cases rs) (auto simp: backend_defs fc split: if_splits)
  show "i \<in> R \<Longrightarrow> \<exists>l'. backend_runlock b sys i l = Some l' \<and> lock_holds b l' (R - {i}) W"
    using b d l by (cases b; cases w) (auto simp: backend_defs fc distinct_removeAll)
  show "i \<in> W \<Longrightarrow> \<exists>l'. backend_wunlock b sys i l = Some l' \<and> lock_holds b l' R (W - {i})"
    using b d l by (cases b; cases w) (auto simp: backend_defs fc)
  show "R = {} \<Longrightarrow> W = {} \<Longrightarrow> backend_rlock b sys i l \<noteq> None \<and> backend_wlock b sys i l \<noteq> None"
    using b d l by (cases b; cases w) (auto simp: backend_defs fc)
qed

lemma backend_refused:
  "backend_rlock b sys i l = Some (False, l') \<Longrightarrow> l' = l" "backend_wlock b sys i l = Some (False, l') \<Longrightarrow> l' = l"
  by (cases b; auto simp: backend_defs bind_eq_Some_conv split: if_splits)+

lemma one_holder:
  assumes "lock_holds b l R W" "R \<union> W = {i}"
  shows "i \<in> R \<Longrightarrow> R - {i} = {} \<and> W = {}" "i \<in> W \<Longrightarrow> R = {} \<and> W - {i} = {}"
  using lock_alone [OF assms(1)] assms(2) by auto

text \<open>An implementation without a difference between readers and writers.\<close>

lemma exclusive_rw_lock:
  assumes take: "\<And>l R W i sys l'. lock_holds b l R W \<Longrightarrow> i \<notin> R \<union> W \<Longrightarrow> backend_rlock b sys i l = Some (True, l') \<Longrightarrow>
      R = {} \<and> W = {} \<and> lock_holds b l' {i} {} \<and> lock_holds b l' {} {i}"
    and same: "\<And>sys i l. backend_wlock b sys i l = backend_rlock b sys i l"
    and give: "\<And>l R W i sys. lock_holds b l R W \<Longrightarrow> i \<in> R \<union> W \<Longrightarrow>
      \<exists>l'. backend_runlock b sys i l = Some l' \<and> backend_wunlock b sys i l = Some l' \<and> R \<union> W = {i} \<and> lock_holds b l' {} {}"
    and free: "\<And>l sys i. lock_holds b l {} {} \<Longrightarrow> backend_rlock b sys i l \<noteq> None"
  shows "rw_lock (lock_holds b) (dependable b) (backend_rlock b) (backend_wlock b) (backend_runlock b) (backend_wunlock b)"
proof
  fix l R W i sys l'
  show "lock_holds b l R W \<Longrightarrow> W = {} \<or> R = {} \<and> (\<exists>i. W = {i})" by (rule lock_alone)
  show "backend_rlock b sys i l = Some (False, l') \<Longrightarrow> l' = l" "backend_wlock b sys i l = Some (False, l') \<Longrightarrow> l' = l"
    by (fact backend_refused)+
  assume d: "dependable b sys"
  show "lock_holds b l {} {} \<Longrightarrow> backend_rlock b sys i l \<noteq> None" by (rule free)
  show "lock_holds b l {} {} \<Longrightarrow> backend_wlock b sys i l \<noteq> None" unfolding same by (rule free)
  assume h: "lock_holds b l R W"
  show "i \<notin> R \<union> W \<Longrightarrow> backend_rlock b sys i l = Some (True, l') \<Longrightarrow> W = {} \<and> lock_holds b l' (insert i R) {}"
    using take [OF h] by blast
  show "i \<notin> R \<union> W \<Longrightarrow> backend_wlock b sys i l = Some (True, l') \<Longrightarrow> R = {} \<and> W = {} \<and> lock_holds b l' {} {i}"
    unfolding same using take [OF h] by blast
  show "i \<in> R \<Longrightarrow> \<exists>l'. backend_runlock b sys i l = Some l' \<and> lock_holds b l' (R - {i}) W"
    using give [OF h] one_holder(1) [OF h] by (metis UnI1)
  show "i \<in> W \<Longrightarrow> \<exists>l'. backend_wunlock b sys i l = Some l' \<and> lock_holds b l' R (W - {i})"
    using give [OF h] one_holder(2) [OF h] by (metis UnI2)
qed

interpretation lck: rw_lock "lock_holds b" "dependable b" "backend_rlock b" "backend_wlock b" "backend_runlock b" "backend_wunlock b" for b
proof -
  consider "b = LOCK_RECURSIVE" | "b = SPIN_LOCK" | "b \<notin> {LOCK_RECURSIVE, SPIN_LOCK}" by blast
  then show "rw_lock (lock_holds b) (dependable b) (backend_rlock b) (backend_wlock b) (backend_runlock b) (backend_wunlock b)"
  proof cases
    case 1
    show ?thesis unfolding 1 by (rule exclusive_rw_lock) (fact mutex_laws(1), simp add: backend_defs, fact mutex_laws(3), rule mutex_laws(4), simp_all)
  next
    case 2
    show ?thesis unfolding 2 by (rule exclusive_rw_lock) (erule spin_laws(1), assumption, simp add: backend_defs, fact spin_laws(3), rule spin_laws(4), simp_all)
  next
    case 3
    show ?thesis
    proof
      fix l R W i sys l'
      show "lock_holds b l R W \<Longrightarrow> W = {} \<or> R = {} \<and> (\<exists>i. W = {i})" by (rule lock_alone)
      show "backend_rlock b sys i l = Some (False, l') \<Longrightarrow> l' = l" "backend_wlock b sys i l = Some (False, l') \<Longrightarrow> l' = l"
        by (fact backend_refused)+
      assume d: "dependable b sys"
      show "lock_holds b l {} {} \<Longrightarrow> backend_rlock b sys i l \<noteq> None" "lock_holds b l {} {} \<Longrightarrow> backend_wlock b sys i l \<noteq> None"
        using rwlock_laws(5) [OF _ 3 d] by simp_all
    qed (auto dest: rwlock_laws(1,2) [OF _ 3] rwlock_laws(3,4) [OF _ 3])
  qed
qed

subsection \<open>Use of a lock\<close>

text \<open>The states of a lock that processes take and release in any order, and who holds it there. The
  extension never takes a lock it already holds.\<close>

inductive lock_use :: "backend \<Rightarrow> lock_state \<Rightarrow> nat set \<Rightarrow> nat set \<Rightarrow> bool" for b where
  use_created: "lock_use b (backend_created b l) {} {}"
| use_rlock: "lock_use b l R W \<Longrightarrow> i \<notin> R \<union> W \<Longrightarrow> dependable b sys \<Longrightarrow> backend_rlock b sys i l = Some (ok, l') \<Longrightarrow>
    lock_use b l' (if ok then insert i R else R) W"
| use_wlock: "lock_use b l R W \<Longrightarrow> i \<notin> R \<union> W \<Longrightarrow> dependable b sys \<Longrightarrow> backend_wlock b sys i l = Some (ok, l') \<Longrightarrow>
    lock_use b l' R (if ok then insert i W else W)"
| use_runlock: "lock_use b l R W \<Longrightarrow> i \<in> R \<Longrightarrow> dependable b sys \<Longrightarrow> backend_runlock b sys i l = Some l' \<Longrightarrow> lock_use b l' (R - {i}) W"
| use_wunlock: "lock_use b l R W \<Longrightarrow> i \<in> W \<Longrightarrow> dependable b sys \<Longrightarrow> backend_wunlock b sys i l = Some l' \<Longrightarrow> lock_use b l' R (W - {i})"

lemma lock_use_holds: "lock_use b l R W \<Longrightarrow> lock_holds b l R W"
proof (induction rule: lock_use.induct)
  case (use_created l)
  show ?case by (rule created_holds)
next
  case (use_rlock l R W i sys ok l')
  then show ?case using lck.rlock_law [of b l R W i sys l'] backend_refused(1) [of b sys i l l'] by (cases ok) auto
next
  case (use_wlock l R W i sys ok l')
  then show ?case using lck.wlock_law [of b l R W i sys l'] backend_refused(2) [of b sys i l l'] by (cases ok) auto
qed (blast intro: lck.runlock_held lck.wunlock_held)+


lemma sample_use: "lock_use SPIN_LOCK (Spin 1) {} {7}"
proof -
  have "lock_use SPIN_LOCK (Spin 0) {} {}" using use_created [of SPIN_LOCK "Spin 0"] by (simp add: spin_lock_create_def)
  moreover have "dependable SPIN_LOCK (\<lambda>_. 0)" by (simp add: dependable_def)
  moreover have "backend_wlock SPIN_LOCK (\<lambda>_. 0) 7 (Spin 0) = Some (True, Spin 1)"
    by (simp add: spin_wlock_impl_def spin_attempt_def immutable_cache_lock_try_def xchgl_def)
  ultimately show ?thesis using use_wlock [of SPIN_LOCK "Spin 0" "{}" "{}" 7 "\<lambda>_. 0" True "Spin 1"] by simp
qed


text \<open>C39: The file lock does not look at the result of \<^verbatim>\<open>fcntl\<close>. Its loop ends as soon as one call is not
  interrupted; when that call fails the lock function still returns success without any lock, so two
  processes are told that they may write at the same time.\<close>

theorem fcntl_error_ignored:
  assumes "sys n \<noteq> EINTR" "\<forall>m < n. sys m = EINTR"
  shows "fcntl_loop sys 0 = Some (sys n) \<and>
    (sys n \<noteq> 0 \<longrightarrow> (\<forall>i l. backend_wlock FCNTL_LOCK sys i l = Some (True, l) \<and> backend_rlock FCNTL_LOCK sys i l = Some (True, l)))"
proof -
  have "fcntl_loop sys 0 = Some (sys n)" using fcntl_loop_from [of sys 0 n] assms by simp
  then show ?thesis by (simp add: fcntl_wlock_impl_def fcntl_rlock_impl_def immutable_cache_fcntl_call_def)
qed

theorem fcntl_error_ignored_witness:
  "backend_wlock FCNTL_LOCK (\<lambda>n. if n = 0 then EINTR else 35) 1 (Rwlock [] (Some 2)) = Some (True, Rwlock [] (Some 2))"
  using fcntl_error_ignored [of "\<lambda>n. if n = 0 then EINTR else 35" 1] by (simp add: EINTR_def)

subsection \<open>The mutex\<close>

text \<open>An acquisition that is refused leaves interruptions as they were, one that succeeds is undone by the release.\<close>

lemma mutex_balanced:
  assumes "immutable_cache_mutex_lock i (l, s) = Some (ok, l', s')"
  shows "if ok then (\<exists>n. l = Mutex None n) \<and> blocked (snd (snd (immutable_cache_mutex_unlock i (l', s')))) = blocked s \<and>
      fst (snd (immutable_cache_mutex_unlock i (l', s'))) = Mutex None 0
    else l' = l \<and> blocked s' = blocked s \<and> lock_rc s \<noteq> []"
  using assms by (cases "(i, l)" rule: plain_mutex_lock.cases)
    (auto simp: immutable_cache_mutex_lock_def immutable_cache_mutex_unlock_def pthread_call_def lock_defs bind_eq_Some_conv split: if_splits list.splits)

end
