(* ===== verification/Concurrent.thy ===== *)
theory Concurrent
  imports Cache_Props Lock_Laws
begin

text \<open>
  The cache used by any number of processes at the same time: \<^verbatim>\<open>immutable_cache_cache_find\<close> and
  \<^verbatim>\<open>immutable_cache_cache_store\<close> cut into the steps between which other processes may run. A lookup
  takes one of the 16 fine-grained locks for reading; an insertion takes the lock of the
  segments and then the fine-grained lock of its key for writing. A chain holds keys of several fine-grained
  locks, so a lookup walks a chain while another process appends to it.

  A step reads or writes one shared word, takes or releases one lock, or works on memory that no other
  process can reach. The steps of all processes form one sequence (sequential
  consistency); the order in which an insertion writes the link of the new entry and then publishes the entry is the order of the source.
  The memory of the state is shared memory only. What a store has copied for its entry belongs
  to the storing process until the entry is published, so the cells are kept with its program counter.
\<close>

subsection \<open>Program counters\<close>

text \<open>A store between copying and the end: the key, the new entry, and the copied cells.\<close>

record writer =
  wkey :: zend_string
  wnew :: addr
  wcells :: heap

text \<open>\<open>R_\<close>: in \<^verbatim>\<open>immutable_cache_cache_find\<close> with the key, the clock and the local variable \<^verbatim>\<open>entry\<close>. \<open>R_done\<close> has
  the result, \<open>None\<close> when the lock was refused. \<open>W_\<close>: in \<^verbatim>\<open>immutable_cache_cache_store\<close>; the walk has the
  entry whose link is being looked at (\<open>0\<close> for the slot) and the link.\<close>

datatype pc =
    Idle
  | R_lock zend_string int | R_head zend_string int | R_walk zend_string int addr
  | R_count zend_string int addr | R_store zend_string int addr int | R_hit zend_string int addr | R_atime zend_string int addr
  | R_unlock zend_string addr | R_done zend_string "addr option"
  | W_sma writer | W_fine writer | W_head writer | W_walk writer addr addr | W_next writer addr | W_publish writer addr
  | W_mem writer | W_nentries writer | W_ninserts writer | W_fine_unlock writer bool | W_sma_unlock writer bool
  | W_free writer | W_done bool

record conc =
  shared :: cproc
  locks :: "immutable_cache_lock_t \<Rightarrow> lock_state"
  pcs :: "nat \<Rightarrow> pc"

definition set_pc :: "nat \<Rightarrow> pc \<Rightarrow> conc \<Rightarrow> conc" where
  "set_pc i q S = S\<lparr>pcs := (pcs S)(i := q)\<rparr>"

definition set_lock :: "immutable_cache_lock_t \<Rightarrow> lock_state \<Rightarrow> conc \<Rightarrow> conc" where
  "set_lock l x S = S\<lparr>locks := (locks S)(l := x)\<rparr>"

definition set_shared :: "cproc \<Rightarrow> conc \<Rightarrow> conc" where
  "set_shared s S = S\<lparr>shared := s\<rparr>"

definition sma_lock :: "conc \<Rightarrow> immutable_cache_lock_t" where
  "sma_lock S = SmaLock (sma_num (sma (shared S)))"

definition fine_lock :: "zend_abi \<Rightarrow> conc \<Rightarrow> zend_string \<Rightarrow> immutable_cache_lock_t" where
  "fine_lock Z S ks = immutable_cache_sma_lookup_fine_grained_lock (shared S) (ZSTR_HASH Z ks)"

definition slot_of :: "zend_abi \<Rightarrow> immutable_cache_cache_t \<Rightarrow> zend_string \<Rightarrow> nat" where
  "slot_of Z c ks = snd (immutable_cache_cache_hash_slot Z (nslots c) ks)"

text \<open>The comparison of the key of the entry at \<open>p\<close>, with the link of the entry.\<close>

definition compare_at :: "zend_abi \<Rightarrow> heap \<Rightarrow> zend_string \<Rightarrow> addr \<Rightarrow> crash + (bool \<times> addr)" where
  "compare_at Z H ks p =
     ebind (read_entry H p) (\<lambda>e.
     ebind (immutable_cache_entry_key_equals H e ks (ZSTR_HASH Z ks)) (\<lambda>eq. Inr (eq, enext e)))"

text \<open>The statistics: \<^verbatim>\<open>nhits\<close> or \<^verbatim>\<open>nmisses\<close> of the header, \<^verbatim>\<open>nhits\<close> and \<^verbatim>\<open>atime\<close> of the entry.\<close>

definition stat_of :: "addr \<Rightarrow> immutable_cache_cache_header_t \<Rightarrow> int" where
  "stat_of r h = (if r \<noteq> 0 then nhits h else nmisses h)"

definition put_stat :: "addr \<Rightarrow> int \<Rightarrow> immutable_cache_cache_header_t \<Rightarrow> immutable_cache_cache_header_t" where
  "put_stat r v h = (if r \<noteq> 0 then h\<lparr>nhits := v\<rparr> else h\<lparr>nmisses := v\<rparr>)"

definition after_count :: "zend_string \<Rightarrow> int \<Rightarrow> addr \<Rightarrow> pc" where
  "after_count ks t r = (if r \<noteq> 0 then R_hit ks t r else R_unlock ks 0)"

subsection \<open>Steps of a lookup\<close>

inductive find_step :: "backend \<Rightarrow> zend_abi \<Rightarrow> immutable_cache_cache_t \<Rightarrow> nat \<Rightarrow> conc \<Rightarrow> conc \<Rightarrow> bool" for b Z c i where
  r_lock: "pcs S i = R_lock ks t \<Longrightarrow> dependable b sys \<Longrightarrow> backend_rlock b sys i (locks S (fine_lock Z S ks)) = Some (ok, l) \<Longrightarrow>
    find_step b Z c i S (set_pc i (if ok then R_head ks t else R_done ks None) (set_lock (fine_lock Z S ks) l S))"
| r_head: "pcs S i = R_head ks t \<Longrightarrow> find_step b Z c i S (set_pc i (R_walk ks t (slots (shared S) ! slot_of Z c ks)) S)"
| r_walk: "pcs S i = R_walk ks t p \<Longrightarrow> p \<noteq> 0 \<Longrightarrow> compare_at Z (mem (shared S)) ks p = Inr (False, nxt) \<Longrightarrow>
    find_step b Z c i S (set_pc i (R_walk ks t nxt) S)"
| r_match: "pcs S i = R_walk ks t p \<Longrightarrow> p \<noteq> 0 \<Longrightarrow> compare_at Z (mem (shared S)) ks p = Inr (True, nxt) \<Longrightarrow>
    find_step b Z c i S (set_pc i (if protect_memory (shared S) then R_unlock ks p else R_count ks t p) S)"
| r_end: "pcs S i = R_walk ks t 0 \<Longrightarrow>
    find_step b Z c i S (set_pc i (if protect_memory (shared S) then R_unlock ks 0 else R_count ks t 0) S)"
| r_count: "pcs S i = R_count ks t r \<Longrightarrow> b \<noteq> LOCK_RECURSIVE \<Longrightarrow>
    find_step b Z c i S (set_pc i (after_count ks t r)
      (set_shared ((shared S)\<lparr>header := put_stat r (stat_of r (header (shared S)) + 1) (header (shared S))\<rparr>) S))"
| r_load: "pcs S i = R_count ks t r \<Longrightarrow> b = LOCK_RECURSIVE \<Longrightarrow>
    find_step b Z c i S (set_pc i (R_store ks t r (stat_of r (header (shared S)))) S)"
| r_store: "pcs S i = R_store ks t r v \<Longrightarrow>
    find_step b Z c i S (set_pc i (after_count ks t r)
      (set_shared ((shared S)\<lparr>header := put_stat r (v + 1) (header (shared S))\<rparr>) S))"
| r_hit: "pcs S i = R_hit ks t r \<Longrightarrow> read_entry (mem (shared S)) r = Inr e \<Longrightarrow>
    find_step b Z c i S (set_pc i (R_atime ks t r)
      (set_shared ((shared S)\<lparr>mem := (mem (shared S))(r \<mapsto> CEntry (e\<lparr>enhits := enhits e + 1\<rparr>))\<rparr>) S))"
| r_atime: "pcs S i = R_atime ks t r \<Longrightarrow> read_entry (mem (shared S)) r = Inr e \<Longrightarrow>
    find_step b Z c i S (set_pc i (R_unlock ks r)
      (set_shared ((shared S)\<lparr>mem := (mem (shared S))(r \<mapsto> CEntry (e\<lparr>eatime := t\<rparr>))\<rparr>) S))"
| r_unlock: "pcs S i = R_unlock ks r \<Longrightarrow> dependable b sys \<Longrightarrow> backend_runlock b sys i (locks S (fine_lock Z S ks)) = Some l \<Longrightarrow>
    find_step b Z c i S (set_pc i (R_done ks (Some r)) (set_lock (fine_lock Z S ks) l S))"
| r_return: "pcs S i = R_done ks r \<Longrightarrow> find_step b Z c i S (set_pc i Idle S)"

subsection \<open>Steps of a store\<close>

text \<open>From the lock of the segments to the return. \<^verbatim>\<open>immutable_cache_sma_free\<close> takes and releases the lock of the
  segments itself: it runs when the lock is to be had.\<close>

inductive store_step :: "backend \<Rightarrow> zend_abi \<Rightarrow> immutable_cache_cache_t \<Rightarrow> nat \<Rightarrow> conc \<Rightarrow> conc \<Rightarrow> bool" for b Z c i where
  w_sma: "pcs S i = W_sma w \<Longrightarrow> dependable b sys \<Longrightarrow> backend_wlock b sys i (locks S (sma_lock S)) = Some (ok, l) \<Longrightarrow>
    store_step b Z c i S (set_pc i (if ok then W_fine w else W_free w) (set_lock (sma_lock S) l S))"
| w_fine: "pcs S i = W_fine w \<Longrightarrow> dependable b sys \<Longrightarrow> backend_wlock b sys i (locks S (fine_lock Z S (wkey w))) = Some (ok, l) \<Longrightarrow>
    store_step b Z c i S (set_pc i (if ok then W_head w else W_sma_unlock w False) (set_lock (fine_lock Z S (wkey w)) l S))"
| w_head: "pcs S i = W_head w \<Longrightarrow>
    store_step b Z c i S (set_pc i (W_walk w 0 (slots (shared S) ! slot_of Z c (wkey w))) S)"
| w_walk: "pcs S i = W_walk w prev p \<Longrightarrow> p \<noteq> 0 \<Longrightarrow> compare_at Z (mem (shared S)) (wkey w) p = Inr (False, nxt) \<Longrightarrow>
    store_step b Z c i S (set_pc i (W_walk w p nxt) S)"
| w_duplicate: "pcs S i = W_walk w prev p \<Longrightarrow> p \<noteq> 0 \<Longrightarrow> compare_at Z (mem (shared S)) (wkey w) p = Inr (True, nxt) \<Longrightarrow>
    store_step b Z c i S (set_pc i (W_fine_unlock w False) S)"
| w_end: "pcs S i = W_walk w prev 0 \<Longrightarrow> store_step b Z c i S (set_pc i (W_next w prev) S)"
| w_next: "pcs S i = W_next w prev \<Longrightarrow> read_entry (wcells w) (wnew w) = Inr e \<Longrightarrow>
    store_step b Z c i S (set_pc i (W_publish (w\<lparr>wcells := (wcells w)(wnew w \<mapsto> CEntry (e\<lparr>enext := 0\<rparr>))\<rparr>) prev) S)"
| w_publish: "pcs S i = W_publish w prev \<Longrightarrow>
    link_entry (slot_of Z c (wkey w)) prev (wnew w) ((shared S)\<lparr>mem := mem (shared S) ++ wcells w\<rparr>) = Inr s \<Longrightarrow>
    store_step b Z c i S (set_pc i (W_mem w) (set_shared s S))"
| w_mem: "pcs S i = W_mem w \<Longrightarrow> read_entry (mem (shared S)) (wnew w) = Inr e \<Longrightarrow>
    store_step b Z c i S (set_pc i (W_nentries w)
      (set_shared ((shared S)\<lparr>header := (header (shared S))\<lparr>hmem_size := hmem_size (header (shared S)) + emem_size e\<rparr>\<rparr>) S))"
| w_nentries: "pcs S i = W_nentries w \<Longrightarrow>
    store_step b Z c i S (set_pc i (W_ninserts w)
      (set_shared ((shared S)\<lparr>header := (header (shared S))\<lparr>nentries := nentries (header (shared S)) + 1\<rparr>\<rparr>) S))"
| w_ninserts: "pcs S i = W_ninserts w \<Longrightarrow>
    store_step b Z c i S (set_pc i (W_fine_unlock w True)
      (set_shared ((shared S)\<lparr>header := (header (shared S))\<lparr>ninserts := ninserts (header (shared S)) + 1\<rparr>\<rparr>) S))"
| w_fine_unlock: "pcs S i = W_fine_unlock w ret \<Longrightarrow> dependable b sys \<Longrightarrow>
    backend_wunlock b sys i (locks S (fine_lock Z S (wkey w))) = Some l \<Longrightarrow>
    store_step b Z c i S (set_pc i (W_sma_unlock w ret) (set_lock (fine_lock Z S (wkey w)) l S))"
| w_sma_unlock: "pcs S i = W_sma_unlock w ret \<Longrightarrow> dependable b sys \<Longrightarrow> backend_wunlock b sys i (locks S (sma_lock S)) = Some l \<Longrightarrow>
    store_step b Z c i S (set_pc i (if ret then W_done True else W_free w) (set_lock (sma_lock S) l S))"
| w_free: "pcs S i = W_free w \<Longrightarrow> dependable b sys \<Longrightarrow> backend_wlock b sys i (locks S (sma_lock S)) \<noteq> None \<Longrightarrow>
    immutable_cache_sma_free (shared S) (wnew w) = Inr s \<Longrightarrow>
    store_step b Z c i S (set_pc i (W_done False) (set_shared s S))"
| w_return: "pcs S i = W_done ret \<Longrightarrow> store_step b Z c i S (set_pc i Idle S)"

subsection \<open>Calls\<close>

text \<open>A process that is idle calls one of the functions. The request has memory \<open>req\<close> of its own. The copy of the
  value is made here: the allocation needs the lock of the segments, and the region it writes to
  is known to no other process.\<close>

definition process_view :: "heap \<Rightarrow> conc \<Rightarrow> cproc" where
  "process_view req S = (shared S)\<lparr>mem := mem (shared S) ++ req\<rparr>"

definition request_memory :: "zend_abi \<Rightarrow> conc \<Rightarrow> heap \<Rightarrow> bool" where
  "request_memory Z S req \<longleftrightarrow> heap_hashed Z req \<and> dom req \<subseteq> {..<2 ^ 64} \<and>
     (\<forall>a \<in> dom req. \<not> immutable_cache_sma_contains_pointer (sma (shared S)) a)"

text \<open>The cells a copy has added to the memory.\<close>

definition new_cells :: "cproc \<Rightarrow> cproc \<Rightarrow> heap" where
  "new_cells s s' = mem s' |` (- dom (mem s))"

inductive call_step :: "backend \<Rightarrow> zend_abi \<Rightarrow> immutable_cache_cache_t \<Rightarrow> nat \<Rightarrow> conc \<Rightarrow> conc \<Rightarrow> bool" for b Z c i where
  call_find: "pcs S i = Idle \<Longrightarrow> str_hashed Z ks \<Longrightarrow> call_step b Z c i S (set_pc i (R_lock ks t) S)"
| call_store: "pcs S i = Idle \<Longrightarrow> request_memory Z S req \<Longrightarrow> mem (process_view req S) key = Some (CStr ks) \<Longrightarrow>
    to_store fuel Z (serializer c) now key val (process_view req S) v n \<Longrightarrow>
    dependable b sys \<Longrightarrow> backend_wlock b sys i (locks S (sma_lock S)) \<noteq> None \<Longrightarrow>
    immutable_cache_persist fuel Z (serializer c) (immutable_cache_cache_init_entry key val now) (process_view req S) = Inr (new, s) \<Longrightarrow>
    call_step b Z c i S (set_pc i
      (if new = 0 then W_done False else W_sma \<lparr>wkey = ks, wnew = new, wcells = new_cells (process_view req S) s\<rparr>)
      (set_shared (s\<lparr>mem := mem (shared S)\<rparr>) S))"

text \<open>One step of one process.\<close>

definition conc_step :: "backend \<Rightarrow> zend_abi \<Rightarrow> immutable_cache_cache_t \<Rightarrow> conc \<Rightarrow> conc \<Rightarrow> bool" where
  "conc_step b Z c S T \<longleftrightarrow> (\<exists>i. find_step b Z c i S T \<or> store_step b Z c i S T \<or> call_step b Z c i S T)"

text \<open>A step of a call under way.\<close>

definition work_step :: "backend \<Rightarrow> zend_abi \<Rightarrow> immutable_cache_cache_t \<Rightarrow> conc \<Rightarrow> conc \<Rightarrow> bool" where
  "work_step b Z c S T \<longleftrightarrow> (\<exists>i. find_step b Z c i S T \<or> store_step b Z c i S T)"

end
