(* ===== verification/Concurrent_Heap.thy ===== *)
theory Concurrent_Heap
  imports Concurrent
begin

text \<open>
  What the steps of concurrent calls do to the shared table: a copy that has been made but not
  published, the publication of an entry, the release of one that is not needed.
\<close>

subsection \<open>An entry nobody else knows\<close>

definition private_ok :: "zend_abi \<Rightarrow> cproc \<Rightarrow> writer \<Rightarrow> bool" where
  "private_ok Z s w \<longleftrightarrow> str_hashed Z (wkey w) \<and> wnew w \<noteq> 0 \<and>
     (\<exists>sz. (wnew w, sz) \<in> sma_regions s \<and> dom (wcells w) \<subseteq> {wnew w..<wnew w + sz} \<and> dom (mem s) \<inter> {wnew w..<wnew w + sz} = {} \<and>
        (\<forall>c. cache s = Some c \<longrightarrow> cshmaddr c \<notin> {wnew w..<wnew w + sz})) \<and>
     heap_hashed Z (wcells w) \<and> (\<forall>a cl. wcells w a = Some cl \<longrightarrow> cell_shm Z (sma s) cl) \<and>
     (\<exists>e v. wcells w (wnew w) = Some (CEntry e) \<and> enext e = 0 \<and> key_at Z (mem s ++ wcells w) (wnew w) (zstr_val (wkey w)) \<and>
        holds (sma s) v (mem s ++ wcells w) (eval e))"

lemma preserves_add:
  assumes "preserves H H'" "dom H' \<inter> dom P = {}"
  shows "preserves (H ++ P) (H' ++ P)"
  unfolding preserves_def
proof (intro allI impI)
  fix a cl assume a: "(H ++ P) a = Some cl"
  show "case cl of CEntry e \<Rightarrow> (\<exists>e'. (H' ++ P) a = Some (CEntry e') \<and> same_entry e e') | _ \<Rightarrow> (H' ++ P) a = Some cl"
  proof (cases "P a")
    case (Some x)
    with a show ?thesis by (auto simp: same_entry_def map_add_Some_iff split: cell.splits)
  next
    case None
    then have "H a = Some cl" "(H' ++ P) a = H' a" using a by (simp_all add: map_add_def)
    with assms(1) [unfolded preserves_def, rule_format, of a cl] show ?thesis by (simp cong: cell.case_cong)
  qed
qed

text \<open>It survives what the other processes do.\<close>

lemma private_ok_keep:
  assumes p: "private_ok Z s w" and m: "preserves (mem s) (mem t)"
    and cp: "immutable_cache_sma_contains_pointer (sma t) = immutable_cache_sma_contains_pointer (sma s)"
    and r: "\<And>sz. (wnew w, sz) \<in> sma_regions s \<Longrightarrow> dom (mem s) \<inter> {wnew w..<wnew w + sz} = {} \<Longrightarrow>
      (wnew w, sz) \<in> sma_regions t \<and> dom (mem t) \<inter> {wnew w..<wnew w + sz} = {}"
    and c: "cache t = cache s"
  shows "private_ok Z t w"
proof -
  obtain sz e v where w: "str_hashed Z (wkey w)" "wnew w \<noteq> 0" "(wnew w, sz) \<in> sma_regions s" "dom (wcells w) \<subseteq> {wnew w..<wnew w + sz}"
    "dom (mem s) \<inter> {wnew w..<wnew w + sz} = {}" "heap_hashed Z (wcells w)" "\<forall>a cl. wcells w a = Some cl \<longrightarrow> cell_shm Z (sma s) cl"
    "wcells w (wnew w) = Some (CEntry e)" "enext e = 0" "key_at Z (mem s ++ wcells w) (wnew w) (zstr_val (wkey w))"
    "holds (sma s) v (mem s ++ wcells w) (eval e)" "\<forall>c. cache s = Some c \<longrightarrow> cshmaddr c \<notin> {wnew w..<wnew w + sz}"
    using p unfolding private_ok_def by blast
  note t = r [OF w(3,5)]
  have pr: "preserves (mem s ++ wcells w) (mem t ++ wcells w)" by (rule preserves_add [OF m]) (use t w(4) in blast)
  have "\<forall>a cl. wcells w a = Some cl \<longrightarrow> cell_shm Z (sma t) cl" using w(7) cell_shm_cong [OF cp] by simp
  moreover have "key_at Z (mem t ++ wcells w) (wnew w) (zstr_val (wkey w))" by (rule preserves_key_at [OF pr w(10)])
  moreover have "holds (sma t) v (mem t ++ wcells w) (eval e)" using holds_preserves [OF w(11) pr] holds_cong [OF cp] by simp
  ultimately show ?thesis using w(1,2,4,6,8,9,12) t c unfolding private_ok_def by (metis (no_types, lifting))
qed

text \<open>The table with the private cells in memory.\<close>

lemma private_join:
  assumes r: "represents Z s M" and p: "private_ok Z s w"
  shows "represents Z (s\<lparr>mem := mem s ++ wcells w\<rparr>) M" "cache_has Z (s\<lparr>mem := mem s ++ wcells w\<rparr>) k a \<longleftrightarrow> cache_has Z s k a"
    "mem s \<subseteq>\<^sub>m mem s ++ wcells w" "table_ok Z s cs \<Longrightarrow> table_ok Z (s\<lparr>mem := mem s ++ wcells w\<rparr>) cs"
    "cache_kept Z s (s\<lparr>mem := mem s ++ wcells w\<rparr>)"
proof -
  let ?t = "s\<lparr>mem := mem s ++ wcells w\<rparr>"
  obtain sz where w: "(wnew w, sz) \<in> sma_regions s" "dom (wcells w) \<subseteq> {wnew w..<wnew w + sz}" "dom (mem s) \<inter> {wnew w..<wnew w + sz} = {}"
    "heap_hashed Z (wcells w)" "\<forall>a cl. wcells w a = Some cl \<longrightarrow> cell_shm Z (sma s) cl"
    "\<forall>c. cache s = Some c \<longrightarrow> cshmaddr c \<notin> {wnew w..<wnew w + sz}"
    using p unfolding private_ok_def by blast
  obtain c cs0 where c: "cache s = Some c" "nslots c = length (slots s)" "0 < nslots c" "table_reserved s c" "table_ok Z s cs0"
    "shm_wf Z s" "entry_level s = 0" "0 < length (slots s)" using represents_wf [OF r] by (rule cache_wfE)
  show le: "mem s \<subseteq>\<^sub>m mem s ++ wcells w" using w(2,3) by (auto simp: map_le_def map_add_def split: option.splits)
  then have pr: "preserves (mem s) (mem ?t)" by (simp add: preserves_map_le)
  have rg: "sma_regions ?t = sma_regions s" by (rule sma_regions_keep) simp_all
  show tk: "table_ok Z ?t cs" if "table_ok Z s cs" for cs
    by (rule table_ok_keep [OF that pr]) (use chain_mono le rg in auto)
  have sw: "sma_wf ?t" using c(6) sma_wf_keep [of s ?t] by (simp add: shm_wf_def same_os_def)
  have ws: "sma_wf s" using c(6) by (simp add: shm_wf_def)
  have bd: "{wnew w..<wnew w + sz} \<subseteq> {..<2 ^ 64}" using sma_regions_bounds [OF ws w(1)] by auto
  have "shm_wf Z ?t"
    unfolding shm_wf_def
  proof (intro conjI)
    show "heap_hashed Z (mem ?t)" using c(6) w(4) by (auto simp: shm_wf_def heap_hashed_def map_add_Some_iff)
    show "dom (mem ?t) \<subseteq> {..<2 ^ 64}" using c(6) w(2) bd by (auto simp: shm_wf_def)
    show "shm_closed Z (sma ?t) (mem ?t)" using c(6) w(5) by (auto simp: shm_wf_def shm_closed_def map_add_Some_iff)
    show "in_regions ?t"
      unfolding in_regions_def rg
    proof (intro ballI impI)
      fix a assume a: "a \<in> dom (mem ?t)" "immutable_cache_sma_contains_pointer (sma ?t) a"
      show "\<exists>(p, n) \<in> sma_regions s. p \<le> a \<and> a < p + n"
      proof (cases "a \<in> dom (wcells w)")
        case True
        with w(2) have "wnew w \<le> a \<and> a < wnew w + sz" by auto
        with w(1) show ?thesis by (intro bexI [of _ "(wnew w, sz)"]) auto
      next
        case False
        then have "a \<in> dom (mem s)" using a(1) by auto
        with a(2) c(6) show ?thesis unfolding shm_wf_def in_regions_def by simp
      qed
    qed
  qed (use sw c(6) in \<open>simp_all add: shm_wf_def\<close>)
  moreover have "table_reserved ?t c"
  proof -
    obtain q n where q: "(q, n) \<in> sma_regions s" "q \<le> cshmaddr c" "cshmaddr c + sizeof_cache_header + 8 * nslots c \<le> q + n"
      "dom (mem s) \<inter> {q..<q + n} = {}" using c(4) unfolding table_reserved_def by blast
    have "(q, n) \<noteq> (wnew w, sz)" using q(2,3) w(6) c(1) by (auto simp: sizeof_cache_header_def)
    then have "separate (q, n) (wnew w, sz)" by (rule sma_regions_separate [OF ws q(1) w(1)])
    then have "{q..<q + n} \<inter> {wnew w..<wnew w + sz} = {}" by (auto simp: separate_def)
    then have "dom (mem ?t) \<inter> {q..<q + n} = {}" using q(4) w(2) by auto
    with q show ?thesis unfolding table_reserved_def rg by blast
  qed
  ultimately have wf: "cache_wf Z ?t" using c tk [OF c(5)] unfolding cache_wf_def by auto
  show h: "cache_has Z ?t k a \<longleftrightarrow> cache_has Z s k a" for k a
    by (rule cache_has_keep [OF c(5) tk [OF c(5)] c(8) _ pr]) simp
  show kp: "cache_kept Z s ?t" using wf pr by (simp add: cache_kept_def same_os_def)
  show "represents Z ?t M" by (rule represents_kept [OF r kp]) (simp add: h)
qed

subsection \<open>Publishing an entry\<close>

text \<open>The header once an insertion has counted its entry.\<close>

definition counted :: "int \<Rightarrow> immutable_cache_cache_header_t \<Rightarrow> immutable_cache_cache_header_t" where
  "counted n h = h\<lparr>hmem_size := hmem_size h + n, nentries := nentries h + 1, ninserts := ninserts h + 1\<rparr>"

lemma slot_of_eq: "str_hashed Z ks \<Longrightarrow> slot_of Z c ks = hash_slot Z (nslots c) (zstr_val ks)"
  by (simp add: slot_of_def immutable_cache_cache_hash_slot_def hash_slot_def ZSTR_HASH_eq Let_def)

lemma publish_ok:
  assumes r: "represents Z s M" and p: "private_ok Z s w" and c: "cache s = Some c" and ab: "\<nexists>a. cache_has Z s (zstr_val (wkey w)) a"
    and ch: "chain (mem s) (slots s ! slot_of Z c (wkey w)) as"
  obtains H L v where "link_entry (slot_of Z c (wkey w)) (last (0 # as)) (wnew w) (s\<lparr>mem := mem s ++ wcells w\<rparr>) = Inr (s\<lparr>mem := H, slots := L\<rparr>)"
    "represents Z (s\<lparr>mem := H, slots := L, header := counted (entry_mem H (wnew w)) (header s)\<rparr>) (M(zstr_val (wkey w) \<mapsto> v))"
    "M (zstr_val (wkey w)) = None" "preserves (mem s) H" "length L = length (slots s)" "dom H = dom (mem s) \<union> dom (wcells w)"
    "\<And>j bs. j < length (slots s) \<Longrightarrow> chain (mem s) (slots s ! j) bs \<Longrightarrow> \<exists>bs'. chain H (L ! j) (bs @ bs') \<and> set bs' \<subseteq> {wnew w}"
    "\<And>j a. cache_has Z (s\<lparr>mem := H, slots := L, header := counted (entry_mem H (wnew w)) (header s)\<rparr>) j a \<longleftrightarrow> cache_has Z s j a \<or> (j = zstr_val (wkey w) \<and> a = wnew w)"
    "\<exists>e. H (wnew w) = Some (CEntry e)"
proof -
  let ?k = "zstr_val (wkey w)" and ?i = "slot_of Z c (wkey w)" and ?n = "wnew w"
  let ?t = "s\<lparr>mem := mem s ++ wcells w\<rparr>"
  obtain sz e v where w: "str_hashed Z (wkey w)" "?n \<noteq> 0" "(?n, sz) \<in> sma_regions s" "dom (wcells w) \<subseteq> {?n..<?n + sz}"
    "dom (mem s) \<inter> {?n..<?n + sz} = {}" "wcells w ?n = Some (CEntry e)" "enext e = 0" "key_at Z (mem s ++ wcells w) ?n ?k"
    "holds (sma s) v (mem s ++ wcells w) (eval e)"
    using p unfolding private_ok_def by blast
  note j = private_join [OF r p]
  obtain c' cs where s: "cache s = Some c'" "nslots c' = length (slots s)" "0 < nslots c'" "table_reserved s c'" "table_ok Z s cs"
    "shm_wf Z s" "entry_level s = 0" "0 < length (slots s)" using represents_wf [OF r] by (rule cache_wfE)
  have tt: "table_ok Z ?t cs" and l0: "0 < length (slots ?t)" using j(4) [OF s(5)] s(8) by simp_all
  have i: "?i = hash_slot Z (length (slots ?t)) ?k" using slot_of_eq [OF w(1)] s(1,2) c by simp
  have il: "?i < length (slots ?t)" "?i < length cs" using hash_slot_less [OF l0] tt i by (simp_all add: table_ok_def)
  have cht: "chain (mem ?t) (slots ?t ! ?i) as" using chain_mono [OF ch j(3)] by simp
  have so: "slot_ok Z (mem ?t) (length (slots ?t)) ?i (slots ?t ! ?i) (cs ! ?i)" using table_slot [OF tt l0, of ?k] i by simp
  then have as: "cs ! ?i = as" using chain_det [OF cht, of "cs ! ?i"] by (simp add: slot_ok_def)
  have nm: "?n \<notin> dom (mem s)" using w(4-6) by force
  have nas: "?n \<notin> set as" using chain_entry [OF ch, of ?n] nm by blast
  have ds: "distinct as" using so as by (simp add: slot_ok_def)
  have te: "mem ?t ?n = Some (CEntry e)" using w(6) by simp
  obtain H p' where H: "link_entry ?i (last (0 # as)) ?n ?t = Inr (?t\<lparr>mem := H, slots := (slots ?t)[?i := p']\<rparr>)"
    "linked (mem ?t) {?n} H" "chain H p' (as @ [?n])" "H ?n = mem ?t ?n"
    "\<forall>p bs. chain (mem ?t) p bs \<longrightarrow> set bs \<inter> set as = {} \<longrightarrow> chain H p bs"
    using link_entry_ok [OF cht ds te w(7,2) nas il(1)] by blast
  let ?L = "(slots s)[?i := p']"
  let ?u = "s\<lparr>mem := H, slots := ?L, header := counted (entry_mem H ?n) (header s)\<rparr>"
  have prt: "preserves (mem ?t) H" and dH: "dom H = dom (mem ?t)" using H(2) by (simp_all add: linked_def)
  have pr: "preserves (mem s) H" using preserves_trans [OF preserves_map_le [OF j(3)], of H] prt by simp
  have oth: "chain H (slots s ! l) (cs ! l)" if "l < length cs" "l \<noteq> ?i" for l
  proof -
    have "set (cs ! l) \<inter> set (cs ! ?i) = {}" using table_disjoint [OF tt that(1) il(2)] that(2) by auto
    moreover have "chain (mem ?t) (slots s ! l) (cs ! l)" using tt that(1) unfolding table_ok_def slot_ok_def by fastforce
    ultimately show ?thesis using H(5) as by simp
  qed
  have ncs: "?n \<notin> set (concat cs)"
  proof
    assume "?n \<in> set (concat cs)"
    then obtain bs where "bs \<in> set cs" "?n \<in> set bs" by auto
    then obtain l where l: "l < length cs" "?n \<in> set (cs ! l)" by (metis in_set_conv_nth)
    have "chain (mem s) (slots s ! l) (cs ! l)" using s(5) l(1) unfolding table_ok_def slot_ok_def by blast
    then show False using chain_entry [OF _ l(2)] nm by blast
  qed
  have rg: "sma_regions ?u = sma_regions s" "sma_regions ?t = sma_regions s" by (rule sma_regions_keep; simp)+
  have em: "entry_mem (mem ?t) ?n = entry_mem H ?n" using H(4) by (simp add: entry_mem_def)
  have abt: "\<forall>a. \<not> cache_has Z ?t ?k a" using ab j(2) by simp
  have tu: "table_ok Z ?u (cs[?i := cs ! ?i @ [?n]])" "cache_has Z ?u l a \<longleftrightarrow> cache_has Z ?t l a \<or> (l = ?k \<and> a = ?n)" for l a
    by (rule table_ok_append [OF tt i il(2) _ ncs abt, of ?u p']; use w(3,8) prt H(3) as oth rg em in \<open>force simp: counted_def\<close>)+
  have "shm_wf Z ?u"
  proof (rule linked_shm_wf [of Z ?t ?u "{?n}"])
    show "shm_wf Z ?t" using represents_wf [OF j(1)] by (simp add: cache_wf_def)
    show "sma_wf ?u" using s(6) sma_wf_keep [of s ?u] by (simp add: shm_wf_def same_os_def)
    show "\<forall>a \<in> {?n}. immutable_cache_sma_contains_pointer (sma ?t) a"
      using region_start_contained [of s ?n sz] s(6) w(3) by (simp add: shm_wf_def)
  qed (use H(2) rg in simp_all)
  moreover have "table_reserved ?u c'"
    using represents_wf [OF j(1)] s(1) dH unfolding cache_wf_def table_reserved_def rg by auto
  ultimately have "cache_wf Z ?u" unfolding cache_wf_def using s(1-3,7) tu(1) by auto
  then have kp: "cache_kept Z s ?u" using pr by (simp add: cache_kept_def same_os_def)
  have hu: "cache_has Z ?u l a \<longleftrightarrow> cache_has Z s l a \<or> (l = ?k \<and> a = ?n)" for l a using tu(2) j(2) by simp
  have he: "H ?n = Some (CEntry e)" using H(4) te by simp
  have "holds (sma s) v H (eval e)" using holds_preserves [OF w(9)] prt by simp
  then have rep: "represents Z ?u (M(?k \<mapsto> v)) \<and> M ?k = None"
    by (intro represents_insert [OF r kp ab, of ?n e]) (simp_all add: hu he)
  have chs: "\<exists>bs'. chain H (?L ! l) (bs @ bs') \<and> set bs' \<subseteq> {?n}" if l: "l < length (slots s)" "chain (mem s) (slots s ! l) bs" for l bs
  proof (cases "l = ?i")
    case True
    then have "bs = as" using chain_det [OF ch, of bs] l(2) by simp
    then show ?thesis using True H(3) il(1) by (intro exI [of _ "[?n]"]) simp
  next
    case False
    have "l < length cs" using l(1) s(5) by (simp add: table_ok_def)
    moreover from this have "cs ! l = bs" using s(5) l(2) chain_det unfolding table_ok_def slot_ok_def by metis
    ultimately show ?thesis using oth [of l] False by (intro exI [of _ "[]"]) simp
  qed
  show thesis
    by (rule that [where H = H and L = ?L and v = v]) (use H(1) rep pr dH chs hu he in \<open>simp_all add: Un_commute\<close>)
qed

subsection \<open>Allocation and release\<close>

text \<open>The allocator may change under the table as long as the regions in use stay.\<close>

lemma realloc_represents:
  fixes s t :: cproc
  assumes r: "represents Z s M" and c: "cache s = Some c"
    and t: "same_os s t" "mem t = mem s" "cache t = cache s" "header t = header s" "slots t = slots s" "sma_wf t"
      "sma_num (sma t) = sma_num (sma s)" "segs (sma t) = segs (sma s)" "sma_size (sma t) = sma_size (sma s)"
    and rg: "\<And>q n. (q, n) \<in> sma_regions s \<Longrightarrow> q \<in> dom (mem s) \<or> dom (mem s) \<inter> {q..<q + n} \<noteq> {} \<or> cshmaddr c \<in> {q..<q + n} \<Longrightarrow> (q, n) \<in> sma_regions t"
  shows "represents Z t M" "cache_has Z t k a \<longleftrightarrow> cache_has Z s k a"
proof -
  obtain c' cs where s: "cache s = Some c'" "nslots c' = length (slots s)" "0 < nslots c'" "table_reserved s c'" "table_ok Z s cs"
    "shm_wf Z s" "entry_level s = 0" "0 < length (slots s)" using represents_wf [OF r] by (rule cache_wfE)
  have cp: "immutable_cache_sma_contains_pointer (sma t) = immutable_cache_sma_contains_pointer (sma s)"
    by (rule contains_pointer_cong [OF t(7,8)])
  have "in_regions t"
    unfolding in_regions_def cp t(2)
  proof (intro ballI impI)
    fix x assume x: "x \<in> dom (mem s)" "immutable_cache_sma_contains_pointer (sma s) x"
    then obtain q n where q: "(q, n) \<in> sma_regions s" "q \<le> x" "x < q + n" using s(6) unfolding shm_wf_def in_regions_def by blast
    have "dom (mem s) \<inter> {q..<q + n} \<noteq> {}" using q(2,3) x(1) by (metis IntI atLeastLessThan_iff empty_iff)
    then have "(q, n) \<in> sma_regions t" using rg [OF q(1)] by blast
    with q show "\<exists>(p, n) \<in> sma_regions t. p \<le> x \<and> x < p + n" by auto
  qed
  then have "shm_wf Z t" using s(6) t(2,6) shm_closed_cong [OF cp] by (simp add: shm_wf_def)
  moreover have tt: "table_ok Z t cs"
  proof -
    have "set (concat cs) \<subseteq> fst ` sma_regions t"
    proof
      fix x assume x: "x \<in> set (concat cs)"
      have "x \<in> dom (mem s)" using table_keyed [OF s(5) x] key_at_entry by blast
      moreover have "x \<in> fst ` sma_regions s" using s(5) x unfolding table_ok_def by blast
      ultimately show "x \<in> fst ` sma_regions t" using rg by force
    qed
    then show ?thesis using s(5) unfolding table_ok_def t(2,4,5) by blast
  qed
  moreover have "table_reserved t c'"
  proof -
    obtain q n where q: "(q, n) \<in> sma_regions s" "q \<le> cshmaddr c'" "cshmaddr c' + sizeof_cache_header + 8 * nslots c' \<le> q + n"
      "dom (mem s) \<inter> {q..<q + n} = {}" using s(4) unfolding table_reserved_def by blast
    have "(q, n) \<in> sma_regions t" by (rule rg [OF q(1)]) (use q(2,3) s(1) c in \<open>simp add: sizeof_cache_header_def\<close>)
    with q t(2) show ?thesis unfolding table_reserved_def by auto
  qed
  ultimately have "cache_wf Z t" using s t unfolding cache_wf_def same_os_def by auto
  then have kp: "cache_kept Z s t" using t by (simp add: cache_kept_def)
  show h: "cache_has Z t k a \<longleftrightarrow> cache_has Z s k a" for k a by (simp add: cache_has_def t)
  show "represents Z t M" by (rule represents_kept [OF r kp]) (simp add: h)
qed

lemma represents_shm_wf: "represents Z (s\<lparr>header := h\<rparr>) M \<Longrightarrow> shm_wf Z s"
  by (auto simp: represents_def cache_wf_def shm_wf_def sma_wf_def segments_apart_def SMA_ADDR_def in_regions_def sma_regions_def)

text \<open>The copy a store makes, without the memory of its request.\<close>

lemma view_shm_wf:
  assumes "shm_wf Z s" "\<forall>a \<in> dom req. \<not> immutable_cache_sma_contains_pointer (sma s) a" "heap_hashed Z req" "dom req \<subseteq> {..<2 ^ 64}"
  shows "shm_wf Z (s\<lparr>mem := mem s ++ req\<rparr>)"
proof -
  have "sma_regions (s\<lparr>mem := mem s ++ req\<rparr>) = sma_regions s" by (rule sma_regions_keep) simp_all
  moreover have "sma_wf (s\<lparr>mem := mem s ++ req\<rparr>)"
    using assms(1) sma_wf_keep [of s "s\<lparr>mem := mem s ++ req\<rparr>"] by (simp add: shm_wf_def same_os_def)
  ultimately show ?thesis
    using assms unfolding shm_wf_def in_regions_def by (fastforce simp: heap_hashed_def shm_closed_def map_add_Some_iff)
qed

lemma region_free_of_cells:
  assumes s: "shm_wf Z s" "\<forall>a \<in> dom (mem s). immutable_cache_sma_contains_pointer (sma s) a"
    and u: "sma_wf u" "sma_regions u = insert (p, sz) (sma_regions s)" "p \<notin> fst ` sma_regions s"
  shows "dom (mem s) \<inter> {p..<p + sz} = {}" "(q, n) \<in> sma_regions s \<Longrightarrow> {q..<q + n} \<inter> {p..<p + sz} = {}"
proof -
  show ds: "{q..<q + n} \<inter> {p..<p + sz} = {}" if "(q, n) \<in> sma_regions s" for q n
  proof -
    have "(q, n) \<noteq> (p, sz)" using that u(3) by force
    then have "separate (q, n) (p, sz)" using sma_regions_separate [OF u(1), of "(q, n)" "(p, sz)"] that u(2) by blast
    then show ?thesis by (auto simp: separate_def)
  qed
  show "dom (mem s) \<inter> {p..<p + sz} = {}"
  proof (rule equals0I)
    fix x assume x: "x \<in> dom (mem s) \<inter> {p..<p + sz}"
    then obtain q n where "(q, n) \<in> sma_regions s" "q \<le> x" "x < q + n" using s unfolding shm_wf_def in_regions_def by blast
    with ds x show False by fastforce
  qed
qed

lemma copied_entry_ok:
  fixes s :: cproc
  defines "v \<equiv> \<lambda>req. s\<lparr>mem := mem s ++ req\<rparr>"
  assumes r: "represents Z (s\<lparr>header := h\<rparr>) M" and c: "cache s = Some c" and d: "\<forall>a \<in> dom (mem s). immutable_cache_sma_contains_pointer (sma s) a"
    and req: "\<forall>a \<in> dom req. \<not> immutable_cache_sma_contains_pointer (sma s) a" "heap_hashed Z req" "dom req \<subseteq> {..<2 ^ 64}"
    and k: "mem (v req) key = Some (CStr ks)" and w: "to_store fuel Z ser now key val (v req) x n"
    and p: "immutable_cache_persist fuel Z ser (immutable_cache_cache_init_entry key val now) (v req) = Inr (new, u)"
  defines "t \<equiv> u\<lparr>mem := mem s\<rparr>"
  shows "represents Z (t\<lparr>header := h\<rparr>) M" "same_os s t" "cache t = cache s" "header t = header s" "slots t = slots s"
    "sma_num (sma t) = sma_num (sma s)" "segs (sma t) = segs (sma s)" "sma_regions s \<subseteq> sma_regions t"
    "new \<noteq> 0 \<Longrightarrow> private_ok Z t \<lparr>wkey = ks, wnew = new, wcells = new_cells (v req) u\<rparr> \<and> new \<notin> fst ` sma_regions s"
proof -
  let ?o = "immutable_cache_cache_init_entry key val now" and ?v = "v req"
  have sw: "shm_wf Z s" by (rule represents_shm_wf [OF r])
  have vw: "shm_wf Z ?v" unfolding v_def by (rule view_shm_wf [OF sw req])
  have post: "persist_post Z ?v ?o (zstr_val ks) n (holds (sma ?v) x) new u" using to_store_persist [OF vw k w] p by auto
  then have pk: "persist_kept Z ?v u" by (simp add: persist_post_def)
  have vs: "sma ?v = sma s" "sma_regions ?v = sma_regions s" "mem ?v = mem s ++ req" "same_os ?v s" "cache ?v = cache s" "header ?v = header s" "slots ?v = slots s"
    by (simp_all add: v_def sma_regions_def SMA_ADDR_def same_os_def)
  show f: "cache t = cache s" "header t = header s" "slots t = slots s"
    using mproc_more_cproc [of u ?v] pk vs by (simp_all add: persist_kept_def t_def)
  show so: "same_os s t" using pk by (simp add: persist_kept_def same_os_def t_def v_def)
  show nm: "sma_num (sma t) = sma_num (sma s)" "segs (sma t) = segs (sma s)" using pk vs by (simp_all add: persist_kept_def t_def)
  have sz: "sma_size (sma t) = sma_size (sma s)" using pk vs by (simp add: persist_kept_def t_def)
  have rt: "sma_regions t = sma_regions u" by (rule sma_regions_keep) (simp_all add: t_def)
  have uw: "shm_wf Z u" using pk by (simp add: persist_kept_def)
  have tw: "sma_wf (t\<lparr>header := h\<rparr>)" "sma_wf u"
    using uw sma_wf_keep [of u "t\<lparr>header := h\<rparr>"] by (simp_all add: shm_wf_def t_def same_os_def)
  show rs: "sma_regions s \<subseteq> sma_regions t"
    using post vs(2) unfolding rt persist_post_def persisted_def by (auto split: if_splits)
  have rh: "sma_regions (s\<lparr>header := h\<rparr>) = sma_regions s" "sma_regions (t\<lparr>header := h\<rparr>) = sma_regions t" by (rule sma_regions_keep; simp)+
  show "represents Z (t\<lparr>header := h\<rparr>) M"
    by (rule realloc_represents(1) [OF r, of c "t\<lparr>header := h\<rparr>"]) (use c f so nm sz tw rs rh in \<open>auto simp: same_os_def t_def\<close>)
  show "private_ok Z t \<lparr>wkey = ks, wnew = new, wcells = new_cells ?v u\<rparr> \<and> new \<notin> fst ` sma_regions s" if "new \<noteq> 0"
  proof -
    have ps: "persisted ?v ?o (zstr_val ks) n (holds (sma s) x) new u" using post that vs(1) by (simp add: persist_post_def)
    then obtain m ka z where e: "n \<le> m" "new \<notin> fst ` sma_regions s" "sma_regions u = insert (new, m) (sma_regions s)" "0 < n"
      "mem u new = Some (CEntry (?o\<lparr>ekey := ka, eval := z, emem_size := int n\<rparr>))" "str_at (mem u) ka (zstr_val ks)" "holds (sma s) x (mem u) z"
      "mem ?v \<subseteq>\<^sub>m mem u" "dom (mem u) \<subseteq> dom (mem ?v) \<union> {new..<new + n}" "dom (mem ?v) \<inter> {new..<new + n} = {}"
      unfolding persisted_def vs(2) by blast
    let ?w = "new_cells ?v u"
    note fr = region_free_of_cells [OF sw d tw(2) e(3,2)]
    have cpu: "immutable_cache_sma_contains_pointer (sma u) = immutable_cache_sma_contains_pointer (sma s)"
      using nm by (intro contains_pointer_cong) (simp_all add: t_def)
    have reg: "(new, m) \<in> sma_regions u" using e(3) by simp
    have dw: "dom ?w \<subseteq> {new..<new + n}" using e(9) by (auto simp: new_cells_def)
    have wu: "?w a = Some cl \<Longrightarrow> mem u a = Some cl" for a cl by (simp add: new_cells_def restrict_map_def split: if_splits)
    have cl: "shm_closed Z (sma u) (mem u)" using uw by (simp add: shm_wf_def)
    have ag: "shm_agree (sma u) (mem u) (mem s ++ ?w)"
      unfolding shm_agree_def cpu
    proof (intro allI impI)
      fix a assume a: "immutable_cache_sma_contains_pointer (sma s) a"
      then have "req a = None" using req(1) by blast
      then have "mem ?v a = mem s a" using vs(3) by (simp add: map_add_def)
      moreover have "mem u a = mem ?v a" if "a \<in> dom (mem ?v)" using e(8) that by (simp add: map_le_def)
      ultimately show "(mem s ++ ?w) a = mem u a"
        by (cases "a \<in> dom (mem ?v)") (auto simp: new_cells_def map_add_def restrict_map_def dom_def split: option.splits)
    qed
    have cn: "immutable_cache_sma_contains_pointer (sma u) new" by (rule region_start_contained [OF tw(2) reg])
    have "immutable_cache_sma_contains_pointer (sma u) ka" using shm_closedD [OF cl e(5) cn] by simp
    then have "key_at Z (mem u) new (zstr_val ks)" using e(5,6) shm_closedD [OF cl] by (fastforce simp: key_at_def str_at_def)
    then have key: "key_at Z (mem s ++ ?w) new (zstr_val ks)" using key_at_agree [OF cl ag cn] by simp
    have hs: "holds (sma u) = holds (sma s)" by (rule holds_cong [OF cpu])
    have hold: "holds (sma s) x (mem s ++ ?w) z" using holds_agree [OF cl ag, of x z] e(7) hs by simp
    have nw: "?w new = Some (CEntry (?o\<lparr>ekey := ka, eval := z, emem_size := int n\<rparr>))"
      using e(4,5,10) by (auto simp: new_cells_def restrict_map_def)
    have ksh: "str_hashed Z ks" using vw k by (auto simp: shm_wf_def heap_hashed_def)
    have hh: "heap_hashed Z ?w" using uw wu by (auto simp: shm_wf_def heap_hashed_def)
    have cs: "cell_shm Z (sma s) cl'" if "?w a = Some cl'" for a cl'
    proof -
      have "a \<in> {new..<new + n}" using dw that by auto
      then have "immutable_cache_sma_contains_pointer (sma u) a" by (intro region_contained [OF tw(2) reg]) (use e(1) in auto)
      from shm_closedD [OF cl wu [OF that] this] show ?thesis using cell_shm_cong [OF cpu] by simp
    qed
    have tr: "cshmaddr c \<notin> {new..<new + m}"
    proof -
      obtain c' where "cache s = Some c'" "table_reserved (s\<lparr>header := h\<rparr>) c'" using represents_wf [OF r] by (auto simp: cache_wf_def)
      then have "table_reserved (s\<lparr>header := h\<rparr>) c" using c by simp
      then obtain q l where q: "(q, l) \<in> sma_regions s" "q \<le> cshmaddr c" "cshmaddr c + sizeof_cache_header + 8 * nslots c \<le> q + l"
        unfolding table_reserved_def rh by blast
      then have "cshmaddr c \<in> {q..<q + l}" by (simp add: sizeof_cache_header_def)
      with fr(2) [OF q(1)] show ?thesis by blast
    qed
    have cpt: "immutable_cache_sma_contains_pointer (sma t) = immutable_cache_sma_contains_pointer (sma s)" by (rule contains_pointer_cong [OF nm])
    have "\<exists>e v. ?w new = Some (CEntry e) \<and> enext e = 0 \<and> key_at Z (mem s ++ ?w) new (zstr_val ks) \<and> holds (sma t) v (mem s ++ ?w) (eval e)"
      using nw key hold holds_cong [OF cpt] by (auto simp: immutable_cache_cache_init_entry_def)
    moreover have "\<exists>m. (new, m) \<in> sma_regions t \<and> dom ?w \<subseteq> {new..<new + m} \<and> dom (mem s) \<inter> {new..<new + m} = {} \<and> (\<forall>c. cache t = Some c \<longrightarrow> cshmaddr c \<notin> {new..<new + m})"
      using reg rt dw e(1) fr(1) tr f(1) c by (intro exI [of _ m]) auto
    moreover have "\<forall>a cl. ?w a = Some cl \<longrightarrow> cell_shm Z (sma t) cl" using cs cell_shm_cong [OF cpt] by simp
    ultimately show ?thesis using ksh that hh e(2) by (simp add: private_ok_def t_def)
  qed
qed

lemma free_ok:
  fixes s :: cproc
  assumes r: "represents Z (s\<lparr>header := h\<rparr>) M" and c: "cache s = Some c" and p: "private_ok Z s w"
  obtains t where "immutable_cache_sma_free s (wnew w) = Inr t" "represents Z (t\<lparr>header := h\<rparr>) M" "same_os s t" "mem t = mem s"
    "cache t = cache s" "header t = header s" "slots t = slots s" "sma_num (sma t) = sma_num (sma s)" "segs (sma t) = segs (sma s)"
    "\<And>q n. (q, n) \<in> sma_regions s \<Longrightarrow> q \<noteq> wnew w \<Longrightarrow> (q, n) \<in> sma_regions t"
proof -
  obtain sz where w: "(wnew w, sz) \<in> sma_regions s" "dom (wcells w) \<subseteq> {wnew w..<wnew w + sz}" "dom (mem s) \<inter> {wnew w..<wnew w + sz} = {}"
    "cshmaddr c \<notin> {wnew w..<wnew w + sz}" "wcells w (wnew w) \<noteq> None"
    using p c unfolding private_ok_def by blast
  have sw: "sma_wf s" using represents_shm_wf [OF r] by (simp add: shm_wf_def)
  obtain t where t: "immutable_cache_sma_free s (wnew w) = Inr t" "kept s t"
    "sma_regions t \<in> {sma_regions s, sma_regions s - {(wnew w, sz)}}"
    using sma_free_ok [OF sw w(1)] by (auto split: if_splits)
  have f: "mem t = mem s" "cache t = cache s" "header t = header s" "slots t = slots s"
    using proc_more_cproc [of t s] t(2) by (simp_all add: kept_def)
  have k: "same_os s t" "sma_num (sma t) = sma_num (sma s)" "segs (sma t) = segs (sma s)" "sma_size (sma t) = sma_size (sma s)" "sma_wf t"
    using t(2) by (simp_all add: kept_def)
  have tw: "sma_wf (t\<lparr>header := h\<rparr>)" using sma_wf_keep [OF k(5), of "t\<lparr>header := h\<rparr>"] by (simp add: same_os_def)
  have rh: "sma_regions (s\<lparr>header := h\<rparr>) = sma_regions s" "sma_regions (t\<lparr>header := h\<rparr>) = sma_regions t" by (rule sma_regions_keep; simp)+
  have nd: "wnew w \<notin> dom (mem s)" using w(2,3,5) by fastforce
  have "represents Z (t\<lparr>header := h\<rparr>) M"
  proof (rule realloc_represents(1) [OF r, of c "t\<lparr>header := h\<rparr>"])
    fix q n assume q: "(q, n) \<in> sma_regions (s\<lparr>header := h\<rparr>)"
      "q \<in> dom (mem (s\<lparr>header := h\<rparr>)) \<or> dom (mem (s\<lparr>header := h\<rparr>)) \<inter> {q..<q + n} \<noteq> {} \<or> cshmaddr c \<in> {q..<q + n}"
    then have "(q, n) \<noteq> (wnew w, sz)" using nd w(3,4) by auto
    with q(1) t(3) show "(q, n) \<in> sma_regions (t\<lparr>header := h\<rparr>)" unfolding rh by blast
  qed (use c f k tw in \<open>simp_all add: same_os_def\<close>)
  moreover have "(q, n) \<in> sma_regions t" if "(q, n) \<in> sma_regions s" "q \<noteq> wnew w" for q n using t(3) that by auto
  ultimately show thesis using that t(1) f k by blast
qed

subsection \<open>Statistics\<close>

lemma stats_ok:
  fixes s :: cproc
  assumes r: "represents Z (s\<lparr>header := h\<rparr>) M" and H: "linked (mem s) {} H" "\<forall>p as. chain (mem s) p as \<longrightarrow> chain H p as"
    and h: "nentries h' = nentries h" "ninserts h' = ninserts h" "hmem_size h' = hmem_size h"
  shows "represents Z (s\<lparr>mem := H, header := h'\<rparr>) M" "cache_has Z (s\<lparr>mem := H, header := h'\<rparr>) k a \<longleftrightarrow> cache_has Z s k a"
proof -
  let ?t = "s\<lparr>mem := H, header := h'\<rparr>"
  have "cache_kept Z (s\<lparr>header := h\<rparr>) ?t \<and> (\<forall>k a. cache_has Z ?t k a \<longleftrightarrow> cache_has Z (s\<lparr>header := h\<rparr>) k a)"
    by (rule cache_kept_stats [OF represents_wf [OF r]]) (use H h in \<open>simp_all add: same_os_def\<close>)
  moreover have "cache_has Z (s\<lparr>header := h\<rparr>) k a \<longleftrightarrow> cache_has Z s k a" for k a by (simp add: cache_has_def)
  ultimately show "represents Z ?t M" "cache_has Z ?t k a \<longleftrightarrow> cache_has Z s k a"
    using represents_kept [OF r, of ?t] by blast+
qed

lemma entry_stats:
  assumes "H r = Some (CEntry e)" "same_entry e e'" "enext e' = enext e"
  shows "linked H {} (H(r \<mapsto> CEntry e'))" "chain H p as \<Longrightarrow> chain (H(r \<mapsto> CEntry e')) p as" "dom (H(r \<mapsto> CEntry e')) = dom H"
  using assms linked_upd [of H r e e' "{}"] chain_stats [of H p as r e e'] by auto

end
