(* ===== verification/Concurrent_Inv.thy ===== *)
theory Concurrent_Inv
  imports Concurrent_Heap
begin

text \<open>
  The invariant of concurrent use: who holds which lock, what each process knows at its program
  counter, and the map the table stands for once the insertion under way has updated the counters of the header.
\<close>

subsection \<open>What a program counter says\<close>

text \<open>The key whose fine-grained lock is held for reading, or for writing; whether the lock of the segments is held.\<close>

fun reading :: "pc \<Rightarrow> zend_string option" where
  "reading (R_head ks t) = Some ks" | "reading (R_walk ks t p) = Some ks" | "reading (R_count ks t r) = Some ks"
| "reading (R_store ks t r v) = Some ks" | "reading (R_hit ks t r) = Some ks" | "reading (R_atime ks t r) = Some ks"
| "reading (R_unlock ks r) = Some ks" | "reading q = None"

fun writing :: "pc \<Rightarrow> zend_string option" where
  "writing (W_head w) = Some (wkey w)" | "writing (W_walk w prev p) = Some (wkey w)" | "writing (W_next w prev) = Some (wkey w)"
| "writing (W_publish w prev) = Some (wkey w)" | "writing (W_mem w) = Some (wkey w)" | "writing (W_nentries w) = Some (wkey w)"
| "writing (W_ninserts w) = Some (wkey w)" | "writing (W_fine_unlock w ret) = Some (wkey w)" | "writing q = None"

fun in_sma :: "pc \<Rightarrow> bool" where
  "in_sma (W_fine w) = True" | "in_sma (W_sma_unlock w ret) = True" | "in_sma q = (writing q \<noteq> None)"

text \<open>The entry that is not published.\<close>

fun owning :: "pc \<Rightarrow> writer option" where
  "owning (W_sma w) = Some w" | "owning (W_fine w) = Some w" | "owning (W_head w) = Some w" | "owning (W_walk w prev p) = Some w"
| "owning (W_next w prev) = Some w" | "owning (W_publish w prev) = Some w" | "owning (W_fine_unlock w ret) = (if ret then None else Some w)"
| "owning (W_sma_unlock w ret) = (if ret then None else Some w)" | "owning (W_free w) = Some w" | "owning q = None"

text \<open>The counters of the header with the increments that are still to come.\<close>

fun settle :: "heap \<Rightarrow> pc \<Rightarrow> immutable_cache_cache_header_t \<Rightarrow> immutable_cache_cache_header_t" where
  "settle H (W_mem w) h = counted (entry_mem H (wnew w)) h"
| "settle H (W_nentries w) h = counted 0 h"
| "settle H (W_ninserts w) h = h\<lparr>ninserts := ninserts h + 1\<rparr>"
| "settle H q h = h"

definition settled :: "conc \<Rightarrow> pc \<Rightarrow> cproc" where
  "settled S q = (shared S)\<lparr>header := settle (mem (shared S)) q (header (shared S))\<rparr>"

subsection \<open>What a process knows\<close>

definition other_key :: "zend_abi \<Rightarrow> heap \<Rightarrow> string \<Rightarrow> addr \<Rightarrow> bool" where
  "other_key Z H k a \<longleftrightarrow> (\<exists>j. j \<noteq> k \<and> key_at Z H a j)"

text \<open>A walk that has come to \<open>p\<close> has passed other keys only.\<close>

definition walked :: "zend_abi \<Rightarrow> cproc \<Rightarrow> nat \<Rightarrow> string \<Rightarrow> addr list \<Rightarrow> addr \<Rightarrow> bool" where
  "walked Z s i k as p \<longleftrightarrow> (if p = 0 then (\<nexists>a. cache_has Z s k a) \<and> chain (mem s) (slots s ! i) as
     else (\<forall>a \<in> set as. other_key Z (mem s) k a) \<and> (\<exists>bs. chain (mem s) (slots s ! i) (as @ p # bs)))"

definition seen :: "zend_abi \<Rightarrow> cproc \<Rightarrow> nat \<Rightarrow> string \<Rightarrow> addr \<Rightarrow> bool" where
  "seen Z s i k p \<longleftrightarrow> (if p = 0 then \<nexists>a. cache_has Z s k a else \<exists>as. walked Z s i k as p)"

definition found :: "zend_abi \<Rightarrow> cproc \<Rightarrow> string \<Rightarrow> addr \<Rightarrow> bool" where
  "found Z s k r \<longleftrightarrow> (if r = 0 then \<nexists>a. cache_has Z s k a else cache_has Z s k r)"

fun pc_ok :: "zend_abi \<Rightarrow> immutable_cache_cache_t \<Rightarrow> cproc \<Rightarrow> pc \<Rightarrow> bool" where
  "pc_ok Z c s (R_lock ks t) \<longleftrightarrow> str_hashed Z ks"
| "pc_ok Z c s (R_head ks t) \<longleftrightarrow> str_hashed Z ks"
| "pc_ok Z c s (R_walk ks t p) \<longleftrightarrow> str_hashed Z ks \<and> seen Z s (slot_of Z c ks) (zstr_val ks) p"
| "pc_ok Z c s (R_count ks t r) \<longleftrightarrow> str_hashed Z ks \<and> found Z s (zstr_val ks) r"
| "pc_ok Z c s (R_store ks t r v) \<longleftrightarrow> str_hashed Z ks \<and> found Z s (zstr_val ks) r"
| "pc_ok Z c s (R_hit ks t r) \<longleftrightarrow> str_hashed Z ks \<and> r \<noteq> 0 \<and> found Z s (zstr_val ks) r"
| "pc_ok Z c s (R_atime ks t r) \<longleftrightarrow> str_hashed Z ks \<and> r \<noteq> 0 \<and> found Z s (zstr_val ks) r"
| "pc_ok Z c s (R_unlock ks r) \<longleftrightarrow> str_hashed Z ks \<and> found Z s (zstr_val ks) r"
| "pc_ok Z c s (R_done ks r) \<longleftrightarrow> (\<forall>a. r = Some a \<longrightarrow> a \<noteq> 0 \<longrightarrow> cache_has Z s (zstr_val ks) a)"
| "pc_ok Z c s (W_walk w prev p) \<longleftrightarrow> private_ok Z s w \<and>
     (\<exists>as. prev = last (0 # as) \<and> walked Z s (slot_of Z c (wkey w)) (zstr_val (wkey w)) as p)"
| "pc_ok Z c s (W_next w prev) \<longleftrightarrow> private_ok Z s w \<and>
     (\<exists>as. prev = last (0 # as) \<and> walked Z s (slot_of Z c (wkey w)) (zstr_val (wkey w)) as 0)"
| "pc_ok Z c s (W_publish w prev) \<longleftrightarrow> private_ok Z s w \<and>
     (\<exists>as. prev = last (0 # as) \<and> walked Z s (slot_of Z c (wkey w)) (zstr_val (wkey w)) as 0)"
| "pc_ok Z c s (W_mem w) \<longleftrightarrow> cache_has Z s (zstr_val (wkey w)) (wnew w)"
| "pc_ok Z c s (W_nentries w) \<longleftrightarrow> cache_has Z s (zstr_val (wkey w)) (wnew w)"
| "pc_ok Z c s (W_ninserts w) \<longleftrightarrow> cache_has Z s (zstr_val (wkey w)) (wnew w)"
| "pc_ok Z c s (W_fine_unlock w ret) \<longleftrightarrow> (if ret then cache_has Z s (zstr_val (wkey w)) (wnew w)
     else private_ok Z s w \<and> (\<exists>a. cache_has Z s (zstr_val (wkey w)) a))"
| "pc_ok Z c s (W_sma_unlock w ret) \<longleftrightarrow> (if ret then cache_has Z s (zstr_val (wkey w)) (wnew w) else private_ok Z s w)"
| "pc_ok Z c s q \<longleftrightarrow> (\<forall>w. owning q = Some w \<longrightarrow> private_ok Z s w)"

lemma other_key_keep: "preserves H H' \<Longrightarrow> other_key Z H k a \<Longrightarrow> other_key Z H' k a"
  unfolding other_key_def using preserves_key_at by blast

text \<open>The steps of the other processes leave it true: the table grows, but not by a key that is locked for reading,
  and not at all while the lock of the segments is held.\<close>

lemma pc_ok_env:
  assumes ok: "pc_ok Z c s q" and m: "preserves (mem s) (mem t)"
    and ch: "\<And>i as. i < length (slots s) \<Longrightarrow> chain (mem s) (slots s ! i) as \<Longrightarrow> \<exists>bs. chain (mem t) (slots t ! i) (as @ bs)"
    and has: "\<And>k a. cache_has Z s k a \<Longrightarrow> cache_has Z t k a"
    and rd: "\<And>ks a. reading q = Some ks \<Longrightarrow> cache_has Z t (zstr_val ks) a \<Longrightarrow> cache_has Z s (zstr_val ks) a"
    and wr: "\<And>i as. in_sma q \<Longrightarrow> chain (mem s) (slots s ! i) as \<Longrightarrow> chain (mem t) (slots t ! i) as"
      "\<And>k a. in_sma q \<Longrightarrow> cache_has Z t k a \<Longrightarrow> cache_has Z s k a"
    and own: "\<And>w. owning q = Some w \<Longrightarrow> private_ok Z s w \<Longrightarrow> private_ok Z t w"
    and sl: "\<And>ks. slot_of Z c ks < length (slots s)"
  shows "pc_ok Z c t q"
proof -
  have wk: "walked Z t i k as p" if "walked Z s i k as p" "in_sma q" for i k as p
    using that has wr other_key_keep [OF m] unfolding walked_def by (auto split: if_splits) blast+
  have fd: "found Z t (zstr_val ks) r" if "reading q = Some ks" "found Z s (zstr_val ks) r" for ks r
    using that(2) rd [OF that(1)] has unfolding found_def by (auto split: if_splits)
  show ?thesis
  proof (cases q)
    case (R_walk ks tm p)
    then have s: "seen Z s (slot_of Z c ks) (zstr_val ks) p" "str_hashed Z ks" using ok by simp_all
    have "seen Z t (slot_of Z c ks) (zstr_val ks) p"
    proof (cases "p = 0")
      case True
      then show ?thesis using s(1) rd [of ks] R_walk by (auto simp: seen_def)
    next
      case False
      then obtain as bs where w: "\<forall>a \<in> set as. other_key Z (mem s) (zstr_val ks) a" "chain (mem s) (slots s ! slot_of Z c ks) (as @ p # bs)"
        using s(1) by (auto simp: seen_def walked_def)
      obtain cs where "chain (mem t) (slots t ! slot_of Z c ks) ((as @ p # bs) @ cs)" using ch [OF sl w(2)] by blast
      then have "chain (mem t) (slots t ! slot_of Z c ks) (as @ p # (bs @ cs))" by simp
      with w(1) other_key_keep [OF m] False show ?thesis unfolding seen_def walked_def by (simp del: append_assoc) (intro exI [of _ as], blast)
    qed
    with R_walk s(2) show ?thesis by simp
  next
    case (W_fine_unlock w ret)
    then show ?thesis using ok has own by (cases ret) auto
  qed (use ok fd has own wk in \<open>auto split: if_splits\<close>)
qed

subsection \<open>Holders of the locks\<close>

definition reads :: "zend_abi \<Rightarrow> conc \<Rightarrow> immutable_cache_lock_t \<Rightarrow> pc \<Rightarrow> bool" where
  "reads Z S l q \<longleftrightarrow> (\<exists>ks. reading q = Some ks \<and> l = fine_lock Z S ks)"

definition writes :: "zend_abi \<Rightarrow> conc \<Rightarrow> immutable_cache_lock_t \<Rightarrow> pc \<Rightarrow> bool" where
  "writes Z S l q \<longleftrightarrow> (\<exists>ks. writing q = Some ks \<and> l = fine_lock Z S ks) \<or> in_sma q \<and> l = sma_lock S"

definition lock_inv :: "backend \<Rightarrow> zend_abi \<Rightarrow> conc \<Rightarrow> bool" where
  "lock_inv b Z S \<longleftrightarrow> (\<forall>l. lock_holds b (locks S l) {i. reads Z S l (pcs S i)} {i. writes Z S l (pcs S i)})"

lemma fine_not_sma: "fine_lock Z S ks \<noteq> sma_lock S"
  by (simp add: fine_lock_def sma_lock_def immutable_cache_sma_lookup_fine_grained_lock_def)

lemma lock_of_cong:
  assumes "sma_num (sma (shared T)) = sma_num (sma (shared S))"
  shows "fine_lock Z T = fine_lock Z S" "sma_lock T = sma_lock S" "reads Z T = reads Z S" "writes Z T = writes Z S"
proof -
  show f: "fine_lock Z T = fine_lock Z S" "sma_lock T = sma_lock S"
    by (simp_all add: fun_eq_iff fine_lock_def sma_lock_def immutable_cache_sma_lookup_fine_grained_lock_def assms)
  show "reads Z T = reads Z S" "writes Z T = writes Z S" by (simp_all add: fun_eq_iff reads_def writes_def f)
qed

lemma lock_inv_at: "lock_inv b Z S \<Longrightarrow> lock_holds b (locks S l) {i. reads Z S l (pcs S i)} {i. writes Z S l (pcs S i)}"
  by (simp add: lock_inv_def)

lemma writes_alone:
  assumes "lock_inv b Z S" "writes Z S l (pcs S i)" "reads Z S l (pcs S j) \<or> writes Z S l (pcs S j)"
  shows "j = i"
  using lck.writer_excludes [OF lock_inv_at [OF assms(1), of l], of i j] assms(2,3) by simp

lemma in_sma_writes: "in_sma q \<Longrightarrow> writes Z S (sma_lock S) q"
  by (simp add: writes_def)

lemma sma_alone: "lock_inv b Z S \<Longrightarrow> in_sma (pcs S i) \<Longrightarrow> in_sma (pcs S j) \<Longrightarrow> j = i"
  using writes_alone in_sma_writes by blast

text \<open>Nobody reads a key that is being inserted.\<close>

lemma reader_other_key:
  assumes "lock_inv b Z S" "writing (pcs S i) = Some ks" "reading (pcs S j) = Some ks'" "str_hashed Z ks" "str_hashed Z ks'"
  shows "zstr_val ks' \<noteq> zstr_val ks"
proof
  assume "zstr_val ks' = zstr_val ks"
  then have "fine_lock Z S ks' = fine_lock Z S ks" using assms(4,5) by (simp add: fine_lock_def ZSTR_HASH_eq)
  then have "j = i" using assms(2,3) by (intro writes_alone [OF assms(1), of "fine_lock Z S ks"]) (auto simp: reads_def writes_def)
  with assms(2,3) show False by (cases "pcs S i") auto
qed

text \<open>A step that takes and releases no lock.\<close>

lemma lock_inv_keep:
  assumes "lock_inv b Z S" "locks T = locks S" "sma_num (sma (shared T)) = sma_num (sma (shared S))" "pcs T = (pcs S)(i := q)"
    "reading q = reading (pcs S i)" "writing q = writing (pcs S i)" "in_sma q = in_sma (pcs S i)"
  shows "lock_inv b Z T"
proof -
  have "reads Z S l (pcs T j) = reads Z S l (pcs S j)" "writes Z S l (pcs T j) = writes Z S l (pcs S j)" for l j
    using assms(4-7) by (simp_all add: reads_def writes_def)
  then show ?thesis using assms(1) by (simp add: lock_inv_def assms(2) lock_of_cong [OF assms(3)])
qed

text \<open>A step that changes one lock: by taking it, or by giving it back.\<close>

lemma lock_inv_upd:
  assumes inv: "lock_inv b Z S" and T: "locks T = (locks S)(l := x)" "sma_num (sma (shared T)) = sma_num (sma (shared S))" "pcs T = (pcs S)(i := q)"
    and oth: "\<And>m. m \<noteq> l \<Longrightarrow> reads Z S m q = reads Z S m (pcs S i) \<and> writes Z S m q = writes Z S m (pcs S i)"
    and x: "lock_holds b x {j. reads Z S l (if j = i then q else pcs S j)} {j. writes Z S l (if j = i then q else pcs S j)}"
  shows "lock_inv b Z T"
  unfolding lock_inv_def lock_of_cong [OF T(2)]
proof
  fix m show "lock_holds b (locks T m) {i. reads Z S m (pcs T i)} {i. writes Z S m (pcs T i)}"
  proof (cases "m = l")
    case True
    then show ?thesis using x T(1,3) by (simp add: fun_upd_def)
  next
    case False
    then have "reads Z S m (pcs T j) = reads Z S m (pcs S j)" "writes Z S m (pcs T j) = writes Z S m (pcs S j)" for j
      using oth [OF False] T(3) by simp_all
    then show ?thesis using False lock_inv_at [OF inv, of m] T(1) by simp
  qed
qed

lemma lock_inv_rlock:
  assumes inv: "lock_inv b Z S" and T: "locks T = (locks S)(l := x)" "sma_num (sma (shared T)) = sma_num (sma (shared S))" "pcs T = (pcs S)(i := q)"
    and a: "dependable b sys" "backend_rlock b sys i (locks S l) = Some (True, x)"
    and p: "\<And>m. \<not> reads Z S m (pcs S i)" "\<And>m. \<not> writes Z S m (pcs S i)" and q: "\<And>m. reads Z S m q \<longleftrightarrow> m = l" "\<And>m. \<not> writes Z S m q"
  shows "lock_inv b Z T"
proof (rule lock_inv_upd [OF inv T])
  have "lock_holds b x (insert i {i. reads Z S l (pcs S i)}) {}" "{i. writes Z S l (pcs S i)} = {}"
    using lck.rlock_law [OF lock_inv_at [OF inv, of l] _ a] p by simp_all
  moreover have "{j. reads Z S l (if j = i then q else pcs S j)} = insert i {i. reads Z S l (pcs S i)}" using q(1) by auto
  moreover have "{j. writes Z S l (if j = i then q else pcs S j)} = {}" using q(2) calculation(2) by auto
  ultimately show "lock_holds b x {j. reads Z S l (if j = i then q else pcs S j)} {j. writes Z S l (if j = i then q else pcs S j)}" by simp
qed (use p q in simp)

lemma lock_inv_wlock:
  assumes inv: "lock_inv b Z S" and T: "locks T = (locks S)(l := x)" "sma_num (sma (shared T)) = sma_num (sma (shared S))" "pcs T = (pcs S)(i := q)"
    and a: "dependable b sys" "backend_wlock b sys i (locks S l) = Some (True, x)"
    and p: "\<And>m. \<not> reads Z S m (pcs S i)" "\<not> writes Z S l (pcs S i)"
    and q: "\<And>m. \<not> reads Z S m q" "\<And>m. writes Z S m q \<longleftrightarrow> m = l \<or> writes Z S m (pcs S i)"
  shows "lock_inv b Z T" "\<And>j. \<not> writes Z S l (pcs S j)"
proof -
  have h: "lock_holds b x {} {i}" "{i. reads Z S l (pcs S i)} = {}" "{i. writes Z S l (pcs S i)} = {}"
    using lck.wlock_law [OF lock_inv_at [OF inv, of l] _ a] p by simp_all
  then show "\<And>j. \<not> writes Z S l (pcs S j)" by blast
  show "lock_inv b Z T"
  proof (rule lock_inv_upd [OF inv T])
    have "{j. reads Z S l (if j = i then q else pcs S j)} = {}" "{j. writes Z S l (if j = i then q else pcs S j)} = {i}"
      using h(2,3) q by auto
    with h(1) show "lock_holds b x {j. reads Z S l (if j = i then q else pcs S j)} {j. writes Z S l (if j = i then q else pcs S j)}" by simp
  qed (use p q in simp)
qed

lemma lock_inv_runlock:
  assumes inv: "lock_inv b Z S" and T: "locks T = (locks S)(l := x)" "sma_num (sma (shared T)) = sma_num (sma (shared S))" "pcs T = (pcs S)(i := q)"
    and a: "dependable b sys" "backend_runlock b sys i (locks S l) = Some x"
    and p: "\<And>m. reads Z S m (pcs S i) \<longleftrightarrow> m = l" "\<And>m. \<not> writes Z S m (pcs S i)" and q: "\<And>m. \<not> reads Z S m q" "\<And>m. \<not> writes Z S m q"
  shows "lock_inv b Z T"
proof (rule lock_inv_upd [OF inv T])
  have "lock_holds b x ({i. reads Z S l (pcs S i)} - {i}) {i. writes Z S l (pcs S i)}"
    by (rule lck.runlock_held [OF lock_inv_at [OF inv, of l] _ a]) (simp add: p)
  moreover have "{j. reads Z S l (if j = i then q else pcs S j)} = {i. reads Z S l (pcs S i)} - {i}"
    "{j. writes Z S l (if j = i then q else pcs S j)} = {i. writes Z S l (pcs S i)}" using p(2) q by auto
  ultimately show "lock_holds b x {j. reads Z S l (if j = i then q else pcs S j)} {j. writes Z S l (if j = i then q else pcs S j)}" by simp
qed (use p q in simp)

lemma lock_inv_wunlock:
  assumes inv: "lock_inv b Z S" and T: "locks T = (locks S)(l := x)" "sma_num (sma (shared T)) = sma_num (sma (shared S))" "pcs T = (pcs S)(i := q)"
    and a: "dependable b sys" "backend_wunlock b sys i (locks S l) = Some x"
    and p: "\<And>m. \<not> reads Z S m (pcs S i)" "writes Z S l (pcs S i)"
    and q: "\<And>m. \<not> reads Z S m q" "\<And>m. writes Z S m q \<longleftrightarrow> m \<noteq> l \<and> writes Z S m (pcs S i)"
  shows "lock_inv b Z T"
proof (rule lock_inv_upd [OF inv T])
  have "lock_holds b x {i. reads Z S l (pcs S i)} ({i. writes Z S l (pcs S i)} - {i})"
    by (rule lck.wunlock_held [OF lock_inv_at [OF inv, of l] _ a]) (simp add: p)
  moreover have "{j. reads Z S l (if j = i then q else pcs S j)} = {i. reads Z S l (pcs S i)}"
    "{j. writes Z S l (if j = i then q else pcs S j)} = {i. writes Z S l (pcs S i)} - {i}" using p(1) q by auto
  ultimately show "lock_holds b x {j. reads Z S l (if j = i then q else pcs S j)} {j. writes Z S l (if j = i then q else pcs S j)}" by simp
qed (use p q in simp)

subsection \<open>The invariant\<close>

text \<open>\<open>q\<close> is the program counter of the process that holds the lock of the segments, \<open>Idle\<close> if there is none.\<close>

definition is_holder :: "conc \<Rightarrow> pc \<Rightarrow> bool" where
  "is_holder S q \<longleftrightarrow> (\<forall>i. in_sma (pcs S i) \<longrightarrow> pcs S i = q) \<and> ((\<forall>i. \<not> in_sma (pcs S i)) \<longrightarrow> q = Idle)"

definition own_apart :: "conc \<Rightarrow> bool" where
  "own_apart S \<longleftrightarrow> (\<forall>i j w v. i \<noteq> j \<longrightarrow> owning (pcs S i) = Some w \<longrightarrow> owning (pcs S j) = Some v \<longrightarrow> wnew w \<noteq> wnew v)"

definition conc_ok :: "backend \<Rightarrow> zend_abi \<Rightarrow> immutable_cache_cache_t \<Rightarrow> conc \<Rightarrow> (string \<rightharpoonup> stored) \<Rightarrow> pc \<Rightarrow> bool" where
  "conc_ok b Z c S M q \<longleftrightarrow> is_holder S q \<and> represents Z (settled S q) M \<and> cache (shared S) = Some c \<and>
     (\<forall>a \<in> dom (mem (shared S)). immutable_cache_sma_contains_pointer (sma (shared S)) a) \<and>
     lock_inv b Z S \<and> (\<forall>i. pc_ok Z c (shared S) (pcs S i)) \<and> own_apart S"

definition conc_inv :: "backend \<Rightarrow> zend_abi \<Rightarrow> immutable_cache_cache_t \<Rightarrow> conc \<Rightarrow> (string \<rightharpoonup> stored) \<Rightarrow> bool" where
  "conc_inv b Z c S M \<longleftrightarrow> (\<exists>q. conc_ok b Z c S M q)"

lemma conc_okD:
  assumes "conc_ok b Z c S M q"
  shows "is_holder S q" "represents Z (settled S q) M" "cache (shared S) = Some c"
    "\<forall>a \<in> dom (mem (shared S)). immutable_cache_sma_contains_pointer (sma (shared S)) a" "lock_inv b Z S" "pc_ok Z c (shared S) (pcs S i)" "own_apart S"
  using assms by (simp_all add: conc_ok_def)

lemma holder_move:
  assumes "is_holder S q" "lock_inv b Z S" "in_sma (pcs S i)" "pcs T = (pcs S)(i := p)"
  shows "q = pcs S i" "is_holder T (if in_sma p then p else Idle)"
proof -
  have o: "\<not> in_sma (pcs S j)" if "j \<noteq> i" for j using sma_alone [OF assms(2,3)] that by blast
  show "q = pcs S i" using assms(1,3) by (auto simp: is_holder_def)
  show "is_holder T (if in_sma p then p else Idle)" using o assms(4) by (auto simp: is_holder_def)
qed

lemma holder_keep:
  "is_holder S q \<Longrightarrow> \<not> in_sma (pcs S i) \<Longrightarrow> \<not> in_sma p \<Longrightarrow> pcs T = (pcs S)(i := p) \<Longrightarrow> is_holder T q"
  by (auto simp: is_holder_def split: if_splits)

lemma holder_enter:
  assumes "is_holder S q" "\<And>j. \<not> in_sma (pcs S j)" "in_sma p" "pcs T = (pcs S)(i := p)"
  shows "q = Idle" "is_holder T p"
  using assms by (auto simp: is_holder_def)

lemma settle_outside: "\<not> in_sma q \<Longrightarrow> settle H q h = h"
  by (cases q) auto

lemma settled_sel [simp]:
  "mem (settled S q) = mem (shared S)" "slots (settled S q) = slots (shared S)" "cache (settled S q) = cache (shared S)" "sma (settled S q) = sma (shared S)"
  by (simp_all add: settled_def)

lemma settled_has: "cache_has Z (settled S q) k a \<longleftrightarrow> cache_has Z (shared S) k a"
  by (simp add: cache_has_def)

text \<open>One process moves from its program counter to \<open>p\<close>.\<close>

lemma conc_okI:
  assumes ok: "conc_ok b Z c S M q" and T: "pcs T = (pcs S)(i := p)" "cache (shared T) = Some c"
      "\<forall>a \<in> dom (mem (shared T)). immutable_cache_sma_contains_pointer (sma (shared T)) a"
    and rep: "is_holder T q'" "represents Z (settled T q') M'" and lk: "lock_inv b Z T" and own: "pc_ok Z c (shared T) p"
    and env: "\<And>j. j \<noteq> i \<Longrightarrow> pc_ok Z c (shared T) (pcs S j)"
    and ap: "\<And>w. owning p = Some w \<Longrightarrow> (\<exists>w0. owning (pcs S i) = Some w0 \<and> wnew w0 = wnew w) \<or> (\<forall>j v. owning (pcs S j) = Some v \<longrightarrow> wnew v \<noteq> wnew w)"
  shows "conc_ok b Z c T M' q'"
proof -
  have "own_apart T"
    unfolding own_apart_def
  proof (intro allI impI)
    fix j l w v assume a: "j \<noteq> l" "owning (pcs T j) = Some w" "owning (pcs T l) = Some v"
    have o: "wnew w' \<noteq> wnew v'" if "j' \<noteq> l'" "owning (pcs S j') = Some w'" "owning (pcs S l') = Some v'" for j' l' w' v'
      using conc_okD(7) [OF ok] that unfolding own_apart_def by blast
    have one: "wnew w' \<noteq> wnew v'" if "m \<noteq> i" "owning p = Some w'" "owning (pcs S m) = Some v'" for m w' v'
      using ap [OF that(2)] o [of i m _ v'] that(1,3) by metis
    show "wnew w \<noteq> wnew v"
    proof (cases "j = i")
      case True
      with a T(1) have "owning p = Some w" "owning (pcs S l) = Some v" by auto
      with one [of l w v] a(1) True show ?thesis by auto
    next
      case False
      show ?thesis
      proof (cases "l = i")
        case True
        with a T(1) False have "owning p = Some v" "owning (pcs S j) = Some w" by auto
        with one [of j v w] False show ?thesis by auto
      next
        case l: False
        with False a T(1) o [of j l] show ?thesis by auto
      qed
    qed
  qed
  moreover have "pc_ok Z c (shared T) (pcs T j)" for j using own env [of j] T(1) by (cases "j = i") simp_all
  ultimately show ?thesis using T rep lk by (simp add: conc_ok_def)
qed

subsection \<open>The table under the walk\<close>

lemma conc_table:
  assumes "represents Z (settled S q) M" "cache (shared S) = Some c"
  obtains cs where "table_ok Z (settled S q) cs" "length (slots (shared S)) = nslots c" "0 < length (slots (shared S))"
    "\<And>ks. slot_of Z c ks < length (slots (shared S))"
proof -
  obtain c' cs where s: "cache (settled S q) = Some c'" "nslots c' = length (slots (settled S q))" "0 < nslots c'" "table_ok Z (settled S q) cs"
    using represents_wf [OF assms(1)] by (rule cache_wfE)
  moreover have "slot_of Z c ks < length (slots (shared S))" for ks
    using s assms(2) by (simp add: slot_of_def immutable_cache_cache_hash_slot_def Let_def)
  ultimately show thesis using that [of cs] assms(2) by simp
qed

lemma chain_suffix: "chain H p (as @ bs) \<Longrightarrow> \<exists>q. chain H q bs \<and> (as = [] \<longrightarrow> q = p)"
proof (induction as arbitrary: p)
  case (Cons a as)
  then show ?case by auto
qed auto

lemma compare_at_ok:
  assumes r: "represents Z (settled S q) M" and c: "cache (shared S) = Some c" and ks: "str_hashed Z ks"
    and ch: "chain (mem (shared S)) (slots (shared S) ! slot_of Z c ks) (as @ p # bs)"
  obtains e :: immutable_cache_cache_entry_t and j where "key_at Z (mem (shared S)) p j" "compare_at Z (mem (shared S)) ks p = Inr (j = zstr_val ks, enext e)" "chain (mem (shared S)) (enext e) bs"
proof -
  let ?H = "mem (shared S)"
  obtain cs where t: "table_ok Z (settled S q) cs" "length (slots (shared S)) = nslots c" "0 < length (slots (shared S))" by (rule conc_table [OF r c]) simp
  have "slot_ok Z ?H (nslots c) (slot_of Z c ks) (slots (shared S) ! slot_of Z c ks) (cs ! slot_of Z c ks)"
    using table_slot [OF t(1), of "zstr_val ks"] t(2,3) by (simp add: slot_of_eq [OF ks])
  then have so: "keyed Z ?H (as @ p # bs)" using chain_det [OF ch] slot_ok_keyed by (auto simp: slot_ok_def)
  then obtain j where j: "key_at Z ?H p j" by (auto simp: keyed_def)
  obtain q where "chain ?H q (p # bs)" using chain_suffix [OF ch] by blast
  then obtain e where e: "?H p = Some (CEntry e)" "chain ?H (enext e) bs" by auto
  have "immutable_cache_entry_key_equals ?H e ks (ZSTR_HASH Z ks) = Inr (j = zstr_val ks)"
    by (rule key_equals [OF j e(1) ZSTR_HASH_eq [OF ks]])
  then have "compare_at Z ?H ks p = Inr (j = zstr_val ks, enext e)" using e(1) by (simp add: compare_at_def read_entry_def)
  from that [OF j this e(2)] show thesis .
qed

lemma absent_chain:
  assumes r: "represents Z (settled S q) M" and c: "cache (shared S) = Some c" and ks: "str_hashed Z ks"
    and ch: "chain (mem (shared S)) (slots (shared S) ! slot_of Z c ks) as"
  shows "cache_has Z (shared S) (zstr_val ks) a \<longleftrightarrow> a \<in> set as \<and> key_at Z (mem (shared S)) a (zstr_val ks)"
proof -
  obtain cs where "length (slots (shared S)) = nslots c" by (rule conc_table [OF r c])
  then have "slot_of Z c ks = hash_slot Z (length (slots (shared S))) (zstr_val ks)" by (simp add: slot_of_eq [OF ks])
  with ch chain_det show ?thesis unfolding cache_has_def by metis
qed

lemma walked_head:
  assumes r: "represents Z (settled S q) M" and c: "cache (shared S) = Some c" and ks: "str_hashed Z ks"
  shows "walked Z (shared S) (slot_of Z c ks) (zstr_val ks) [] (slots (shared S) ! slot_of Z c ks)"
proof -
  obtain cs where t: "table_ok Z (settled S q) cs" "slot_of Z c ks < length (slots (shared S))" by (rule conc_table [OF r c]) blast
  then have ch: "chain (mem (shared S)) (slots (shared S) ! slot_of Z c ks) (cs ! slot_of Z c ks)"
    unfolding table_ok_def slot_ok_def by (metis settled_sel(1,2))
  show ?thesis
  proof (cases "cs ! slot_of Z c ks")
    case Nil
    then show ?thesis using ch absent_chain [OF r c ks, of "[]"] by (simp add: walked_def)
  next
    case (Cons p bs)
    with ch show ?thesis unfolding walked_def by auto
  qed
qed

lemma walked_next:
  assumes r: "represents Z (settled S q) M" and c: "cache (shared S) = Some c" and ks: "str_hashed Z ks"
    and w: "walked Z (shared S) (slot_of Z c ks) (zstr_val ks) as p" "p \<noteq> 0" and n: "compare_at Z (mem (shared S)) ks p = Inr (False, nxt)"
  shows "walked Z (shared S) (slot_of Z c ks) (zstr_val ks) (as @ [p]) nxt"
proof -
  let ?H = "mem (shared S)"
  obtain bs where a: "\<forall>a \<in> set as. other_key Z ?H (zstr_val ks) a" "chain ?H (slots (shared S) ! slot_of Z c ks) (as @ p # bs)"
    using w by (auto simp: walked_def)
  obtain e :: immutable_cache_cache_entry_t and j where e: "key_at Z ?H p j" "compare_at Z ?H ks p = Inr (j = zstr_val ks, enext e)" "chain ?H (enext e) bs"
    by (rule compare_at_ok [OF r c ks a(2)])
  have o: "\<forall>a \<in> set (as @ [p]). other_key Z ?H (zstr_val ks) a" using a(1) e(1,2) n by (auto simp: other_key_def)
  show ?thesis
  proof (cases "nxt = 0")
    case True
    then have "bs = []" using e(2,3) n by (cases bs) auto
    then have ch: "chain ?H (slots (shared S) ! slot_of Z c ks) (as @ [p])" using a(2) by simp
    have "\<nexists>a. cache_has Z (shared S) (zstr_val ks) a"
      using o key_at_det unfolding absent_chain [OF r c ks ch] other_key_def by blast
    with True ch show ?thesis by (simp add: walked_def)
  next
    case False
    then obtain bs' where "bs = nxt # bs'" using e(2,3) n by (cases bs) auto
    with a(2) o False show ?thesis unfolding walked_def by auto
  qed
qed

lemma walked_match:
  assumes r: "represents Z (settled S q) M" and c: "cache (shared S) = Some c" and ks: "str_hashed Z ks"
    and w: "walked Z (shared S) (slot_of Z c ks) (zstr_val ks) as p" "p \<noteq> 0" and n: "compare_at Z (mem (shared S)) ks p = Inr (True, nxt)"
  shows "cache_has Z (shared S) (zstr_val ks) p"
proof -
  obtain bs where a: "chain (mem (shared S)) (slots (shared S) ! slot_of Z c ks) (as @ p # bs)" using w by (auto simp: walked_def)
  obtain e :: immutable_cache_cache_entry_t and j where "key_at Z (mem (shared S)) p j" "compare_at Z (mem (shared S)) ks p = Inr (j = zstr_val ks, enext e)"
    by (rule compare_at_ok [OF r c ks a])
  then show ?thesis using n absent_chain [OF r c ks a] by simp
qed

end
