(* ===== verification/Concurrent_Steps.thy ===== *)
theory Concurrent_Steps
  imports Concurrent_Inv
begin

text \<open>
  Every step of every process keeps the invariant, and the map only grows: by the key of an
  entry at the step that publishes it.
\<close>

subsection \<open>Kinds of steps\<close>

lemma sma_regions_header [simp]: "sma_regions (s\<lparr>header := h\<rparr>) = sma_regions (s :: cproc)"
  by (rule sma_regions_keep) simp_all

lemma private_ok_header [simp]: "private_ok Z (s\<lparr>header := h\<rparr>) w = private_ok Z s w"
  by (simp add: private_ok_def)

lemma cache_has_header [simp]: "cache_has Z (s\<lparr>header := h\<rparr>) = cache_has Z (s :: cproc)"
  by (simp add: cache_has_def fun_eq_iff)

lemma pc_ok_header [simp]: "pc_ok Z c (s\<lparr>header := h\<rparr>) q = pc_ok Z c s q"
  by (cases q) (simp_all add: walked_def seen_def found_def)

definition same_role :: "pc \<Rightarrow> pc \<Rightarrow> bool" where
  "same_role p q \<longleftrightarrow> reading q = reading p \<and> writing q = writing p \<and> in_sma q = in_sma p \<and>
     (\<forall>w. owning q = Some w \<longrightarrow> (\<exists>w0. owning p = Some w0 \<and> wnew w0 = wnew w))"

text \<open>A step that changes nothing of the table but the header; \<open>q'\<close> is the holder afterwards.\<close>

lemma step_header:
  assumes ok: "conc_ok b Z c S M q" and T: "pcs T = (pcs S)(i := p)" "shared T = (shared S)\<lparr>header := h\<rparr>" "locks T = locks S"
    and p: "same_role (pcs S i) p" "pc_ok Z c (shared S) p"
    and h: "\<And>f. f \<in> {nentries, ninserts, hmem_size} \<Longrightarrow>
      f (settle (mem (shared S)) (if in_sma p then p else q) h) = f (settle (mem (shared S)) q (header (shared S)))"
  shows "\<exists>q'. conc_ok b Z c T M q'"
proof -
  note o = conc_okD [OF ok]
  let ?q = "if in_sma p then p else q"
  have hd: "is_holder T ?q"
    using holder_move(2) [OF o(1,5) _ T(1)] holder_keep [OF o(1) _ _ T(1)] p(1) by (auto simp: same_role_def)
  have "represents Z ((shared S)\<lparr>mem := mem (shared S), header := settle (mem (shared S)) ?q h\<rparr>) M"
    by (rule stats_ok(1) [OF o(2) [unfolded settled_def]]) (use h in simp_all)
  then have rep: "represents Z (settled T ?q) M" by (simp add: settled_def T(2))
  have "conc_ok b Z c T M ?q"
    by (rule conc_okI [OF ok T(1) _ _ hd rep lock_inv_keep [OF o(5) T(3) _ T(1)]]) (use o(3,4,6) p T(2) in \<open>auto simp: same_role_def\<close>)
  then show ?thesis by blast
qed

lemma step_local:
  assumes ok: "conc_ok b Z c S M q" and p: "same_role (pcs S i) p" "pc_ok Z c (shared S) p"
    and h: "in_sma p \<Longrightarrow> settle (mem (shared S)) p (header (shared S)) = settle (mem (shared S)) (pcs S i) (header (shared S))"
  shows "\<exists>q'. conc_ok b Z c (set_pc i p S) M q'"
proof -
  have "q = pcs S i" if "in_sma p" using conc_okD(1) [OF ok] p(1) that by (auto simp: is_holder_def same_role_def)
  then show ?thesis
    by (intro step_header [OF ok, of "set_pc i p S" i p "header (shared S)"]) (use p h in \<open>auto simp: set_pc_def\<close>)
qed

text \<open>A step that takes or releases a lock.\<close>

lemma step_locks:
  assumes ok: "conc_ok b Z c S M q" and T: "pcs T = (pcs S)(i := p)" "shared T = shared S" and lk: "lock_inv b Z T"
    and hd: "is_holder T q'" "settle (mem (shared S)) q' (header (shared S)) = settle (mem (shared S)) q (header (shared S))"
    and p: "pc_ok Z c (shared S) p" "\<And>w. owning p = Some w \<Longrightarrow> owning (pcs S i) = Some w"
  shows "\<exists>q'. conc_ok b Z c T M q'"
proof -
  note o = conc_okD [OF ok]
  have rep: "represents Z (settled T q') M" using o(2) hd(2) by (simp add: settled_def T(2))
  have "conc_ok b Z c T M q'"
    by (rule conc_okI [OF ok T(1) _ _ hd(1) rep lk]) (use o(3,4,6) p T(2) in auto)
  then show ?thesis by blast
qed

text \<open>A step that updates the statistics of an entry.\<close>

lemma step_entry:
  assumes ok: "conc_ok b Z c S M q" and T: "pcs T = (pcs S)(i := p)" "shared T = (shared S)\<lparr>mem := (mem (shared S))(r \<mapsto> CEntry e')\<rparr>" "locks T = locks S"
    and e: "mem (shared S) r = Some (CEntry e)" "same_entry e e'" "enext e' = enext e"
    and p: "same_role (pcs S i) p" "p = R_atime ks t r \<or> p = R_unlock ks r" and own: "pc_ok Z c (shared S) p"
  shows "\<exists>q'. conc_ok b Z c T M q'"
proof -
  note o = conc_okD [OF ok]
  let ?H = "(mem (shared S))(r \<mapsto> CEntry e')"
  note es = entry_stats [where H = "mem (shared S)" and r = r and e = e and e' = e', OF e]
  have pr: "preserves (mem (shared S)) ?H" using es(1) by (simp add: linked_def)
  have hd: "is_holder T q" using holder_keep [OF o(1) _ _ T(1)] p by (auto simp: same_role_def)
  have em: "entry_mem ?H a = entry_mem (mem (shared S)) a" for a using e(1,2) by (simp add: entry_mem_def same_entry_def)
  have st: "settle ?H q h = settle (mem (shared S)) q h" for h using em by (cases q) simp_all
  have r: "represents Z ((shared S)\<lparr>mem := ?H, header := settle (mem (shared S)) q (header (shared S))\<rparr>) M"
    "cache_has Z ((shared S)\<lparr>mem := ?H, header := settle (mem (shared S)) q (header (shared S))\<rparr>) k a \<longleftrightarrow> cache_has Z (shared S) k a" for k a
    by (rule stats_ok [OF o(2) [unfolded settled_def] es(1)]; use es(2) in simp)+
  have rep: "represents Z (settled T q) M" using r(1) by (simp add: settled_def T(2) st)
  have has: "cache_has Z (shared T) k a \<longleftrightarrow> cache_has Z (shared S) k a" for k a using r(2) by (simp add: cache_has_def T(2))
  have sl: "slot_of Z c ks < length (slots (shared S))" for ks by (rule conc_table [OF o(2,3)])
  have rg: "sma_regions (shared T) = sma_regions (shared S)" by (rule sma_regions_keep) (simp_all add: T(2))
  have env: "pc_ok Z c (shared T) x" if "pc_ok Z c (shared S) x" for x
  proof (rule pc_ok_env [OF that])
    show "private_ok Z (shared T) w" if "private_ok Z (shared S) w" for w
      by (rule private_ok_keep [OF that]) (use pr es(3) rg in \<open>simp_all add: T(2)\<close>)
    show "\<exists>bs. chain (mem (shared T)) (slots (shared T) ! l) (as @ bs)" if "chain (mem (shared S)) (slots (shared S) ! l) as" for l as
      using es(2) [OF that] by (intro exI [of _ "[]"]) (simp add: T(2))
    show "chain (mem (shared T)) (slots (shared T) ! l) as" if "chain (mem (shared S)) (slots (shared S) ! l) as" for l as
      using es(2) [OF that] by (simp add: T(2))
  qed (use pr has sl in \<open>simp_all add: T(2)\<close>)
  have "conc_ok b Z c T M q"
    by (rule conc_okI [OF ok T(1) _ _ hd rep lock_inv_keep [OF o(5) T(3) _ T(1)] env [OF own] env [OF o(6)]])
      (use o(3,4) p T(2) es(3) in \<open>auto simp: same_role_def\<close>)
  then show ?thesis by blast
qed

lemma set_sel [simp]:
  "shared (set_pc i p S) = shared S" "locks (set_pc i p S) = locks S" "pcs (set_pc i p S) = (pcs S)(i := p)"
  "shared (set_lock l x S) = shared S" "locks (set_lock l x S) = (locks S)(l := x)" "pcs (set_lock l x S) = pcs S"
  "shared (set_shared s S) = s" "locks (set_shared s S) = locks S" "pcs (set_shared s S) = pcs S"
  by (simp_all add: set_pc_def set_lock_def set_shared_def)

text \<open>A lock that is refused stays as it was.\<close>

lemma set_lock_same [simp]: "set_lock l (locks S l) S = S"
  by (simp add: set_lock_def)

lemmas lock_refused = lck.rlock_refused lck.wlock_refused

lemma settle_stats [simp]:
  "nentries (settle H q (put_stat r v h)) = nentries (settle H q h)"
  "ninserts (settle H q (put_stat r v h)) = ninserts (settle H q h)"
  "hmem_size (settle H q (put_stat r v h)) = hmem_size (settle H q h)"
  by (cases q; simp add: put_stat_def counted_def)+

lemma entry_keeps:
  assumes ok: "conc_ok b Z c S M q" and r: "read_entry (mem (shared S)) r = Inr e" "same_entry e e'" "enext e' = enext e" "r \<noteq> 0"
    and p: "same_role (pcs S i) p" "p = R_atime ks t r \<or> p = R_unlock ks r" and own: "str_hashed Z ks" "found Z (shared S) (zstr_val ks) r"
    and T: "T = set_pc i p (set_shared ((shared S)\<lparr>mem := (mem (shared S))(r \<mapsto> CEntry e')\<rparr>) S)"
  shows "\<exists>q'. conc_ok b Z c T M q'"
proof -
  have e: "mem (shared S) r = Some (CEntry e)" using r(1) by (auto simp: read_entry_def split: option.splits cell.splits)
  show ?thesis by (rule step_entry [OF ok, of T i p r e' e ks]) (use e r(2-4) p own T in auto)
qed

lemma walked_seen: "walked Z s i k as p \<Longrightarrow> seen Z s i k p"
  by (auto simp: seen_def walked_def split: if_splits)

subsection \<open>A lookup\<close>

lemma find_keeps:
  assumes ok: "conc_ok b Z c S M q" and step: "find_step b Z c i S T"
  shows "\<exists>q'. conc_ok b Z c T M q'"
proof -
  note o = conc_okD [OF ok] and pk = conc_okD(6) [OF ok, of i]
  show ?thesis
    using step
  proof cases
    case (r_lock ks t sys okf l)
    show ?thesis
    proof (cases okf)
      case True
      have "lock_inv b Z T"
        by (rule lock_inv_rlock [OF o(5), of T "fine_lock Z S ks" l i "R_head ks t" sys])
          (use r_lock True in \<open>auto simp: reads_def writes_def\<close>)
      moreover have "is_holder T q" by (rule holder_keep [OF o(1), of i "R_head ks t"]) (use r_lock True in auto)
      ultimately show ?thesis
        by (intro step_locks [OF ok, of T i "R_head ks t" q]) (use r_lock True pk in auto)
    next
      case False
      then have "T = set_pc i (R_done ks None) S" using r_lock lock_refused(1) by fastforce
      then show ?thesis using step_local [OF ok, of i "R_done ks None"] r_lock by (simp add: same_role_def)
    qed
  next
    case (r_head ks t)
    then have "seen Z (shared S) (slot_of Z c ks) (zstr_val ks) (slots (shared S) ! slot_of Z c ks)"
      using walked_seen [OF walked_head [OF o(2,3)]] pk by simp
    then show ?thesis unfolding r_head by (intro step_local [OF ok]) (use r_head pk in \<open>auto simp: same_role_def\<close>)
  next
    case (r_walk ks t p nxt)
    then obtain as where w: "str_hashed Z ks" "walked Z (shared S) (slot_of Z c ks) (zstr_val ks) as p" using pk by (auto simp: seen_def)
    then have "seen Z (shared S) (slot_of Z c ks) (zstr_val ks) nxt" using walked_seen [OF walked_next [OF o(2,3)]] r_walk by blast
    then show ?thesis unfolding r_walk(1) by (intro step_local [OF ok]) (use r_walk w in \<open>auto simp: same_role_def\<close>)
  next
    case (r_match ks t p nxt)
    then obtain as where w: "str_hashed Z ks" "walked Z (shared S) (slot_of Z c ks) (zstr_val ks) as p" using pk by (auto simp: seen_def)
    then have "cache_has Z (shared S) (zstr_val ks) p" using walked_match [OF o(2,3)] r_match by blast
    then show ?thesis unfolding r_match(1) by (intro step_local [OF ok]) (use r_match w in \<open>auto simp: same_role_def found_def\<close>)
  next
    case (r_end ks t)
    then show ?thesis unfolding r_end(1) by (intro step_local [OF ok]) (use r_end pk in \<open>auto simp: same_role_def found_def seen_def\<close>)
  next
    case (r_count ks t r)
    show ?thesis
      by (rule step_header [OF ok, of T i "after_count ks t r"])
        (use r_count pk in \<open>auto simp: same_role_def after_count_def\<close>)
  next
    case (r_load ks t r)
    then show ?thesis unfolding r_load(1) by (intro step_local [OF ok]) (use r_load pk in \<open>auto simp: same_role_def\<close>)
  next
    case (r_store ks t r v)
    show ?thesis
      by (rule step_header [OF ok, of T i "after_count ks t r"])
        (use r_store pk in \<open>auto simp: same_role_def after_count_def\<close>)
  next
    case (r_hit ks t r e)
    show ?thesis
      by (rule entry_keeps [OF ok, of r e "e\<lparr>enhits := enhits e + 1\<rparr>"]) (use r_hit pk in \<open>auto simp: same_role_def same_entry_def\<close>)
  next
    case (r_atime ks t r e)
    show ?thesis
      by (rule entry_keeps [OF ok, of r e "e\<lparr>eatime := t\<rparr>"]) (use r_atime pk in \<open>auto simp: same_role_def same_entry_def\<close>)
  next
    case (r_unlock ks r sys l)
    have "lock_inv b Z T"
      by (rule lock_inv_runlock [OF o(5), of T "fine_lock Z S ks" l i "R_done ks (Some r)" sys])
        (use r_unlock in \<open>auto simp: reads_def writes_def\<close>)
    moreover have "is_holder T q" by (rule holder_keep [OF o(1), of i "R_done ks (Some r)"]) (use r_unlock in auto)
    ultimately show ?thesis
      by (intro step_locks [OF ok, of T i "R_done ks (Some r)" q]) (use r_unlock pk in \<open>auto simp: found_def\<close>)
  next
    case (r_return ks r)
    then show ?thesis unfolding r_return(1) by (intro step_local [OF ok]) (use r_return in \<open>auto simp: same_role_def\<close>)
  qed
qed

subsection \<open>A store\<close>

lemma read_entryD: "read_entry H a = Inr e \<Longrightarrow> H a = Some (CEntry e)"
  by (auto simp: read_entry_def split: option.splits cell.splits)

lemma pc_ok_reading: "pc_ok Z c s q \<Longrightarrow> reading q = Some ks \<Longrightarrow> str_hashed Z ks"
  by (cases q) auto

lemma pc_ok_owning: "pc_ok Z c s q \<Longrightarrow> owning q = Some w \<Longrightarrow> private_ok Z s w"
  by (cases q) (auto split: if_splits)

lemma private_hashed: "private_ok Z s w \<Longrightarrow> str_hashed Z (wkey w)"
  by (simp add: private_ok_def)

lemma own_apartD: "own_apart S \<Longrightarrow> i \<noteq> j \<Longrightarrow> owning (pcs S i) = Some w \<Longrightarrow> owning (pcs S j) = Some v \<Longrightarrow> wnew v \<noteq> wnew w"
  unfolding own_apart_def by metis

text \<open>The allocator moves under the processes.\<close>

lemma pc_ok_realloc:
  fixes s t :: cproc
  assumes ok: "pc_ok Z c s x" and t: "mem t = mem s" "slots t = slots s" "cache t = cache s" "sma_num (sma t) = sma_num (sma s)" "segs (sma t) = segs (sma s)"
    and rg: "\<And>w sz. owning x = Some w \<Longrightarrow> (wnew w, sz) \<in> sma_regions s \<Longrightarrow> (wnew w, sz) \<in> sma_regions t"
    and sl: "\<And>ks. slot_of Z c ks < length (slots s)"
  shows "pc_ok Z c t x"
proof (rule pc_ok_env [OF ok])
  have h: "cache_has Z t k a \<longleftrightarrow> cache_has Z s k a" for k a by (simp add: cache_has_def t)
  then show "cache_has Z s k a \<Longrightarrow> cache_has Z t k a" "cache_has Z t k a \<Longrightarrow> cache_has Z s k a" for k a by simp_all
  show "\<exists>bs. chain (mem t) (slots t ! l) (as @ bs)" if "chain (mem s) (slots s ! l) as" for l as
    using that by (intro exI [of _ "[]"]) (simp add: t)
  show "private_ok Z t w" if "owning x = Some w" "private_ok Z s w" for w
    by (rule private_ok_keep [OF that(2)]) (use t rg [OF that(1)] contains_pointer_cong [OF t(4,5)] in \<open>simp_all add: preserves_refl\<close>)
qed (use t sl in \<open>simp_all add: preserves_refl cache_has_def\<close>)

lemma free_keeps:
  assumes ok: "conc_ok b Z c S M q" and p: "pcs S i = W_free w" and f: "immutable_cache_sma_free (shared S) (wnew w) = Inr s"
  shows "\<exists>q'. conc_ok b Z c (set_pc i (W_done False) (set_shared s S)) M q'"
proof -
  let ?T = "set_pc i (W_done False) (set_shared s S)"
  note o = conc_okD [OF ok]
  have pw: "private_ok Z (shared S) w" using o(6) [of i] p by simp
  obtain t where t: "immutable_cache_sma_free (shared S) (wnew w) = Inr t"
    "represents Z (t\<lparr>header := settle (mem (shared S)) q (header (shared S))\<rparr>) M" "mem t = mem (shared S)"
    "cache t = cache (shared S)" "header t = header (shared S)" "slots t = slots (shared S)" "sma_num (sma t) = sma_num (sma (shared S))"
    "segs (sma t) = segs (sma (shared S))" "\<And>q n. (q, n) \<in> sma_regions (shared S) \<Longrightarrow> q \<noteq> wnew w \<Longrightarrow> (q, n) \<in> sma_regions t"
    using free_ok [OF o(2) [unfolded settled_def] o(3) pw] by metis
  have s: "s = t" using t(1) f by simp
  have hd: "is_holder ?T q" by (rule holder_keep [OF o(1), of i "W_done False"]) (use p in simp_all)
  have rep: "represents Z (settled ?T q) M" using t(2,3,5) s by (simp add: settled_def)
  have lk: "lock_inv b Z ?T" by (rule lock_inv_keep [OF o(5), of ?T i "W_done False"]) (use t(7) s p in simp_all)
  have sl: "slot_of Z c ks < length (slots (shared S))" for ks by (rule conc_table [OF o(2,3)])
  have env: "pc_ok Z c t (pcs S j)" if "j \<noteq> i" for j
    by (rule pc_ok_realloc [OF o(6) [of j]]) (use t sl own_apartD [OF o(7) that(1) [symmetric]] p in auto)
  have cp: "immutable_cache_sma_contains_pointer (sma t) = immutable_cache_sma_contains_pointer (sma (shared S))"
    by (rule contains_pointer_cong [OF t(7,8)])
  have "conc_ok b Z c ?T M q"
    by (rule conc_okI [OF ok _ _ _ hd rep lk, of i "W_done False"]) (use o(3,4) t(3,4) s cp env in auto)
  then show ?thesis by blast
qed

lemma private_contained:
  assumes "sma_wf s" "private_ok Z s w" "a \<in> dom (wcells w)"
  shows "immutable_cache_sma_contains_pointer (sma s) a"
proof -
  obtain sz where "(wnew w, sz) \<in> sma_regions s" "a \<in> {wnew w..<wnew w + sz}" using assms(2,3) unfolding private_ok_def by blast
  then show ?thesis using region_contained [OF assms(1)] by auto
qed

lemma publish_keeps:
  assumes ok: "conc_ok b Z c S M q" and p: "pcs S i = W_publish w prev"
    and l: "link_entry (slot_of Z c (wkey w)) prev (wnew w) ((shared S)\<lparr>mem := mem (shared S) ++ wcells w\<rparr>) = Inr s"
  shows "\<exists>M' q'. M \<subseteq>\<^sub>m M' \<and> conc_ok b Z c (set_pc i (W_mem w) (set_shared s S)) M' q'"
proof -
  let ?T = "set_pc i (W_mem w) (set_shared s S)" and ?k = "zstr_val (wkey w)"
  note o = conc_okD [OF ok]
  have q: "q = W_publish w prev" and hd: "is_holder ?T (W_mem w)" using holder_move [OF o(1,5), of i ?T "W_mem w"] p by simp_all
  have rep0: "represents Z (shared S) M" using o(2) q by (simp add: settled_def)
  obtain as where pw: "private_ok Z (shared S) w" "prev = last (0 # as)" "\<nexists>a. cache_has Z (shared S) ?k a"
    "chain (mem (shared S)) (slots (shared S) ! slot_of Z c (wkey w)) as" using o(6) [of i] p by (auto simp: walked_def)
  obtain H L v where H: "link_entry (slot_of Z c (wkey w)) (last (0 # as)) (wnew w) ((shared S)\<lparr>mem := mem (shared S) ++ wcells w\<rparr>)
      = Inr ((shared S)\<lparr>mem := H, slots := L\<rparr>)"
    "represents Z ((shared S)\<lparr>mem := H, slots := L, header := counted (entry_mem H (wnew w)) (header (shared S))\<rparr>) (M(?k \<mapsto> v))"
    "M ?k = None" "preserves (mem (shared S)) H" "length L = length (slots (shared S))" "dom H = dom (mem (shared S)) \<union> dom (wcells w)"
    "\<And>j bs. j < length (slots (shared S)) \<Longrightarrow> chain (mem (shared S)) (slots (shared S) ! j) bs \<Longrightarrow> \<exists>bs'. chain H (L ! j) (bs @ bs') \<and> set bs' \<subseteq> {wnew w}"
    "\<And>j a. cache_has Z ((shared S)\<lparr>mem := H, slots := L, header := counted (entry_mem H (wnew w)) (header (shared S))\<rparr>) j a \<longleftrightarrow>
      cache_has Z (shared S) j a \<or> (j = ?k \<and> a = wnew w)"
    "\<exists>e. H (wnew w) = Some (CEntry e)"
    by (rule publish_ok [OF rep0 pw(1) o(3) pw(3,4)]) (rule that; assumption)
  have s: "s = (shared S)\<lparr>mem := H, slots := L\<rparr>" using H(1) l pw(2) by simp
  have ms: "mem s = H" "slots s = L" "sma s = sma (shared S)" "cache s = Some c" "header s = header (shared S)" using s o(3) by simp_all
  have rg: "sma_regions s = sma_regions (shared S)" by (rule sma_regions_keep) (simp_all add: s)
  have has: "cache_has Z s j a \<longleftrightarrow> cache_has Z (shared S) j a \<or> (j = ?k \<and> a = wnew w)" for j a using H(8) by (simp add: s)
  have sl: "slot_of Z c ks < length (slots (shared S))" for ks by (rule conc_table [OF o(2,3)])
  have sw: "sma_wf (shared S)" using represents_wf [OF rep0] by (simp add: cache_wf_def shm_wf_def)
  have rep: "represents Z (settled ?T (W_mem w)) (M(?k \<mapsto> v))" using H(2) by (simp add: settled_def s)
  have lk: "lock_inv b Z ?T" by (rule lock_inv_keep [OF o(5), of ?T i "W_mem w"]) (use ms p in simp_all)
  have env: "pc_ok Z c s (pcs S j)" if j: "j \<noteq> i" for j
  proof (rule pc_ok_env [OF o(6) [of j]])
    have ns: "\<not> in_sma (pcs S j)" using sma_alone [OF o(5), of i j] j p by auto
    then show "in_sma (pcs S j) \<Longrightarrow> chain (mem s) (slots s ! l) as" "in_sma (pcs S j) \<Longrightarrow> cache_has Z (shared S) k a" for l as k a by simp_all
    show "cache_has Z (shared S) (zstr_val ks) a" if "reading (pcs S j) = Some ks" "cache_has Z s (zstr_val ks) a" for ks a
      using reader_other_key [OF o(5), of i "wkey w" j ks] p that private_hashed [OF pw(1)] pc_ok_reading [OF o(6) [of j]] has by auto
    show "\<exists>bs. chain (mem s) (slots s ! l) (as @ bs)" if "l < length (slots (shared S))" "chain (mem (shared S)) (slots (shared S) ! l) as" for l as
      using H(7) [OF that] ms by auto
    show "private_ok Z s v" if v: "owning (pcs S j) = Some v" "private_ok Z (shared S) v" for v
    proof (rule private_ok_keep [OF v(2)])
      obtain sz where w: "(wnew w, sz) \<in> sma_regions (shared S)" "dom (wcells w) \<subseteq> {wnew w..<wnew w + sz}" using pw(1) unfolding private_ok_def by blast
      fix n assume n: "(wnew v, n) \<in> sma_regions (shared S)" "dom (mem (shared S)) \<inter> {wnew v..<wnew v + n} = {}"
      have "wnew v \<noteq> wnew w" using own_apartD [OF o(7) j [symmetric], of w v] p v(1) by simp
      then have "separate (wnew v, n) (wnew w, sz)" using sma_regions_separate [OF sw n(1) w(1)] by simp
      then have "{wnew v..<wnew v + n} \<inter> {wnew w..<wnew w + sz} = {}" by (auto simp: separate_def)
      then show "(wnew v, n) \<in> sma_regions s \<and> dom (mem s) \<inter> {wnew v..<wnew v + n} = {}" using n w(2) rg H(6) ms(1) by auto
    qed (use H(4) ms o(3) in simp_all)
  qed (use H(4) has sl ms in auto)
  have dom: "\<forall>a \<in> dom (mem s). immutable_cache_sma_contains_pointer (sma s) a"
    using o(4) private_contained [OF sw pw(1)] unfolding ms(1,3) H(6) by blast
  have "conc_ok b Z c ?T (M(?k \<mapsto> v)) (W_mem w)"
    by (rule conc_okI [OF ok _ _ _ hd rep lk, of i "W_mem w"]) (use ms(4) dom has env in auto)
  moreover have "M \<subseteq>\<^sub>m M(?k \<mapsto> v)" using H(3) by (auto simp: map_le_def)
  ultimately show ?thesis by blast
qed

text \<open>The steps that take or release a lock for writing.\<close>

lemma take_sma_keeps:
  assumes ok: "conc_ok b Z c S M q" and p: "pcs S i = W_sma w" and a: "dependable b sys" "backend_wlock b sys i (locks S (sma_lock S)) = Some (True, l)"
  shows "\<exists>q'. conc_ok b Z c (set_pc i (W_fine w) (set_lock (sma_lock S) l S)) M q'"
proof -
  let ?T = "set_pc i (W_fine w) (set_lock (sma_lock S) l S)"
  note o = conc_okD [OF ok]
  have lk: "lock_inv b Z ?T" "\<not> writes Z S (sma_lock S) (pcs S j)" for j
    by (rule lock_inv_wlock [OF o(5), of ?T "sma_lock S" l i "W_fine w", OF _ _ _ a]; use p in \<open>auto simp: reads_def writes_def\<close>)+
  then have "\<not> in_sma (pcs S j)" for j using in_sma_writes by blast
  then have "q = Idle" "is_holder ?T (W_fine w)" using holder_enter [OF o(1), of "W_fine w" ?T i] by simp_all
  then show ?thesis by (intro step_locks [OF ok, of ?T i "W_fine w" "W_fine w"]) (use lk(1) p o(6) [of i] in simp_all)
qed

lemma take_fine_keeps:
  assumes ok: "conc_ok b Z c S M q" and p: "pcs S i = W_fine w"
    and a: "dependable b sys" "backend_wlock b sys i (locks S (fine_lock Z S (wkey w))) = Some (True, l)"
  shows "\<exists>q'. conc_ok b Z c (set_pc i (W_head w) (set_lock (fine_lock Z S (wkey w)) l S)) M q'"
proof -
  let ?T = "set_pc i (W_head w) (set_lock (fine_lock Z S (wkey w)) l S)"
  note o = conc_okD [OF ok]
  have lk: "lock_inv b Z ?T"
    by (rule lock_inv_wlock(1) [OF o(5), of ?T "fine_lock Z S (wkey w)" l i "W_head w", OF _ _ _ a])
      (use p fine_not_sma in \<open>auto simp: reads_def writes_def\<close>)
  have "q = pcs S i" "is_holder ?T (W_head w)" using holder_move [OF o(1,5), of i ?T "W_head w"] p by simp_all
  then show ?thesis by (intro step_locks [OF ok, of ?T i "W_head w" "W_head w"]) (use lk p o(6) [of i] in simp_all)
qed

lemma give_fine_keeps:
  assumes ok: "conc_ok b Z c S M q" and p: "pcs S i = W_fine_unlock w ret"
    and a: "dependable b sys" "backend_wunlock b sys i (locks S (fine_lock Z S (wkey w))) = Some l"
  shows "\<exists>q'. conc_ok b Z c (set_pc i (W_sma_unlock w ret) (set_lock (fine_lock Z S (wkey w)) l S)) M q'"
proof -
  let ?T = "set_pc i (W_sma_unlock w ret) (set_lock (fine_lock Z S (wkey w)) l S)"
  note o = conc_okD [OF ok]
  have lk: "lock_inv b Z ?T"
    by (rule lock_inv_wunlock [OF o(5), of ?T "fine_lock Z S (wkey w)" l i "W_sma_unlock w ret", OF _ _ _ a])
      (use p fine_not_sma [of Z S] fine_not_sma [THEN not_sym, of S Z] in \<open>auto simp: reads_def writes_def\<close>)
  have "q = pcs S i" "is_holder ?T (W_sma_unlock w ret)" using holder_move [OF o(1,5), of i ?T "W_sma_unlock w ret"] p by simp_all
  then show ?thesis
    by (intro step_locks [OF ok, of ?T i "W_sma_unlock w ret" "W_sma_unlock w ret"]) (use lk p o(6) [of i] in simp_all)
qed

lemma give_sma_keeps:
  assumes ok: "conc_ok b Z c S M q" and p: "pcs S i = W_sma_unlock w ret" and n: "n = (if ret then W_done True else W_free w)"
    and a: "dependable b sys" "backend_wunlock b sys i (locks S (sma_lock S)) = Some l"
  shows "\<exists>q'. conc_ok b Z c (set_pc i n (set_lock (sma_lock S) l S)) M q'"
proof -
  let ?T = "set_pc i n (set_lock (sma_lock S) l S)"
  note o = conc_okD [OF ok]
  have lk: "lock_inv b Z ?T"
    by (rule lock_inv_wunlock [OF o(5), of ?T "sma_lock S" l i n, OF _ _ _ a]) (use p n in \<open>auto simp: reads_def writes_def\<close>)
  have "q = pcs S i" "is_holder ?T Idle" using holder_move [OF o(1,5), of i ?T n] p n by (auto split: if_splits)
  then show ?thesis by (intro step_locks [OF ok, of ?T i n Idle]) (use lk p n o(6) [of i] in \<open>auto split: if_splits\<close>)
qed

text \<open>The link of the new entry is \<open>NULL\<close> already.\<close>

lemma next_same:
  assumes "private_ok Z s w" "read_entry (wcells w) (wnew w) = Inr e"
  shows "w\<lparr>wcells := (wcells w)(wnew w \<mapsto> CEntry (e\<lparr>enext := 0\<rparr>))\<rparr> = w"
proof -
  have "wcells w (wnew w) = Some (CEntry e)" "enext e = 0" using assms read_entryD [OF assms(2)] by (auto simp: private_ok_def)
  then show ?thesis by (simp add: fun_upd_idem)
qed

lemma store_keeps:
  assumes ok: "conc_ok b Z c S M q" and step: "store_step b Z c i S T"
  shows "\<exists>M' q'. M \<subseteq>\<^sub>m M' \<and> conc_ok b Z c T M' q'"
proof -
  note o = conc_okD [OF ok] and pk = conc_okD(6) [OF ok, of i]
  have qi: "q = pcs S i" if "in_sma (pcs S i)" using o(1) that by (auto simp: is_holder_def)
  have local: "\<exists>M' q'. M \<subseteq>\<^sub>m M' \<and> conc_ok b Z c T M' q'" if "\<exists>q'. conc_ok b Z c T M q'" for T using that by (blast intro: map_le_refl)
  show ?thesis
    using step
  proof cases
    case (w_sma w sys okf l)
    show ?thesis
    proof (cases okf)
      case True
      then show ?thesis using local take_sma_keeps [OF ok, of i w sys l] w_sma by simp
    next
      case False
      then have "T = set_pc i (W_free w) S" using w_sma lock_refused(2) by fastforce
      then show ?thesis using local step_local [OF ok, of i "W_free w"] w_sma pk by (simp add: same_role_def)
    qed
  next
    case (w_fine w sys okf l)
    show ?thesis
    proof (cases okf)
      case True
      then show ?thesis using local take_fine_keeps [OF ok, of i w sys l] w_fine by simp
    next
      case False
      then have "T = set_pc i (W_sma_unlock w False) S" using w_fine lock_refused(2) by fastforce
      then show ?thesis using local step_local [OF ok, of i "W_sma_unlock w False"] w_fine pk by (simp add: same_role_def)
    qed
  next
    case (w_head w)
    have "private_ok Z (shared S) w" using pk w_head by simp
    then have "pc_ok Z c (shared S) (W_walk w 0 (slots (shared S) ! slot_of Z c (wkey w)))"
      using walked_head [OF o(2,3) private_hashed] by (auto intro: exI [of _ "[]"])
    then show ?thesis unfolding w_head(1) by (intro local step_local [OF ok]) (use w_head in \<open>auto simp: same_role_def w_head(1)\<close>)
  next
    case (w_walk w prev p nxt)
    then obtain as where w: "private_ok Z (shared S) w" "walked Z (shared S) (slot_of Z c (wkey w)) (zstr_val (wkey w)) as p" using pk by auto
    have "walked Z (shared S) (slot_of Z c (wkey w)) (zstr_val (wkey w)) (as @ [p]) nxt"
      by (rule walked_next [OF o(2,3) private_hashed [OF w(1)] w(2)]) (use w_walk in simp_all)
    then have "pc_ok Z c (shared S) (W_walk w p nxt)" using w(1) by (auto intro!: exI [of _ "as @ [p]"])
    then show ?thesis unfolding w_walk(1) by (intro local step_local [OF ok]) (use w_walk in \<open>auto simp: same_role_def\<close>)
  next
    case (w_duplicate w prev p nxt)
    then obtain as where w: "private_ok Z (shared S) w" "walked Z (shared S) (slot_of Z c (wkey w)) (zstr_val (wkey w)) as p" using pk by auto
    have "cache_has Z (shared S) (zstr_val (wkey w)) p"
      by (rule walked_match [OF o(2,3) private_hashed [OF w(1)] w(2)]) (use w_duplicate in simp_all)
    then show ?thesis unfolding w_duplicate(1) by (intro local step_local [OF ok]) (use w_duplicate w(1) in \<open>auto simp: same_role_def\<close>)
  next
    case (w_end w prev)
    then show ?thesis unfolding w_end(1) by (intro local step_local [OF ok]) (use w_end pk in \<open>auto simp: same_role_def\<close>)
  next
    case (w_next w prev e)
    then have "T = set_pc i (W_publish w prev) S" using next_same pk by fastforce
    then show ?thesis using local step_local [OF ok, of i "W_publish w prev"] w_next pk by (simp add: same_role_def)
  next
    case (w_publish w prev s)
    then show ?thesis unfolding w_publish(1) by (intro publish_keeps [OF ok])
  next
    case (w_mem w e)
    have "entry_mem (mem (shared S)) (wnew w) = emem_size e" using read_entryD [OF w_mem(3)] by (simp add: entry_mem_def)
    then have "\<exists>q'. conc_ok b Z c T M q'"
      by (intro step_header [OF ok, of T i "W_nentries w"]) (use w_mem qi pk in \<open>auto simp: same_role_def counted_def\<close>)
    then show ?thesis by (rule local)
  next
    case (w_nentries w)
    have "\<exists>q'. conc_ok b Z c T M q'"
      by (rule step_header [OF ok, of T i "W_ninserts w"]) (use w_nentries qi pk in \<open>auto simp: same_role_def counted_def\<close>)
    then show ?thesis by (rule local)
  next
    case (w_ninserts w)
    have "\<exists>q'. conc_ok b Z c T M q'"
      by (rule step_header [OF ok, of T i "W_fine_unlock w True"]) (use w_ninserts qi pk in \<open>auto simp: same_role_def\<close>)
    then show ?thesis by (rule local)
  next
    case (w_fine_unlock w ret sys l)
    then show ?thesis unfolding w_fine_unlock(1) by (intro local give_fine_keeps [OF ok])
  next
    case (w_sma_unlock w ret sys l)
    then show ?thesis unfolding w_sma_unlock(1) by (intro local give_sma_keeps [OF ok _ refl])
  next
    case (w_free w sys s)
    then show ?thesis unfolding w_free(1) by (intro local free_keeps [OF ok])
  next
    case (w_return ret)
    then show ?thesis unfolding w_return(1) by (intro local step_local [OF ok]) (use w_return in \<open>auto simp: same_role_def\<close>)
  qed
qed

subsection \<open>A call\<close>

lemma call_keeps:
  assumes ok: "conc_ok b Z c S M q" and step: "call_step b Z c i S T"
  shows "\<exists>q'. conc_ok b Z c T M q'"
  using step
proof cases
  case (call_find ks t)
  then show ?thesis unfolding call_find(1) by (intro step_local [OF ok]) (use call_find in \<open>auto simp: same_role_def\<close>)
next
  case (call_store req key ks fuel now val v n sys new s)
  note o = conc_okD [OF ok]
  let ?w = "\<lparr>wkey = ks, wnew = new, wcells = new_cells (process_view req S) s\<rparr>"
  let ?p = "if new = 0 then W_done False else W_sma ?w" and ?t = "s\<lparr>mem := mem (shared S)\<rparr>"
  have rq: "\<forall>a \<in> dom req. \<not> immutable_cache_sma_contains_pointer (sma (shared S)) a" "heap_hashed Z req" "dom req \<subseteq> {..<2 ^ 64}"
    using call_store(3) by (simp_all add: request_memory_def)
  note cp = copied_entry_ok [OF o(2) [unfolded settled_def] o(3,4) rq call_store(4-5,8) [unfolded process_view_def]]
  have hd: "is_holder T q" by (rule holder_keep [OF o(1), of i ?p]) (use call_store in auto)
  have rep: "represents Z (settled T q) M" using cp(1,4) call_store(1) by (simp add: settled_def)
  have lk: "lock_inv b Z T" by (rule lock_inv_keep [OF o(5), of T i ?p]) (use cp(6) call_store in auto)
  have sl: "slot_of Z c ks < length (slots (shared S))" for ks by (rule conc_table [OF o(2,3)])
  have env: "pc_ok Z c ?t (pcs S j)" for j
    by (rule pc_ok_realloc [OF o(6) [of j]]) (use cp(3,5,6,7,8) sl in auto)
  have ctn: "immutable_cache_sma_contains_pointer (sma ?t) = immutable_cache_sma_contains_pointer (sma (shared S))"
    by (rule contains_pointer_cong [OF cp(6,7)])
  have new: "private_ok Z ?t ?w" "new \<notin> fst ` sma_regions (shared S)" if "new \<noteq> 0"
    using cp(9) [OF that] by (simp_all add: process_view_def)
  have own: "wnew v \<noteq> new" if v: "owning (pcs S j) = Some v" and nz: "new \<noteq> 0" for j v
  proof
    assume "wnew v = new"
    then obtain sz where "(new, sz) \<in> sma_regions (shared S)" using pc_ok_owning [OF o(6) v] by (auto simp: private_ok_def)
    then show False using new(2) [OF nz] by (metis fst_conv imageI)
  qed
  have "conc_ok b Z c T M q"
  proof (rule conc_okI [OF ok _ _ _ hd rep lk, of i ?p])
    show "pc_ok Z c (shared T) ?p" using new call_store(1) by simp
    show "(\<exists>w0. owning (pcs S i) = Some w0 \<and> wnew w0 = wnew u) \<or> (\<forall>j v. owning (pcs S j) = Some v \<longrightarrow> wnew v \<noteq> wnew u)"
      if "owning ?p = Some u" for u using that own by (auto split: if_splits)
  qed (use call_store(1) cp(3) o(3,4) env ctn in simp_all)
  then show ?thesis by blast
qed

text \<open>Concurrent use only adds to the map.\<close>

lemma conc_step_grows:
  assumes "conc_inv b Z c S M" "conc_step b Z c S T"
  shows "\<exists>M'. conc_inv b Z c T M' \<and> M \<subseteq>\<^sub>m M'"
proof -
  obtain q i where "conc_ok b Z c S M q" "find_step b Z c i S T \<or> store_step b Z c i S T \<or> call_step b Z c i S T"
    using assms by (auto simp: conc_inv_def conc_step_def)
  then show ?thesis unfolding conc_inv_def using find_keeps store_keeps call_keeps map_le_refl by metis
qed

interpretation conc: growing_map "conc_inv b Z c" "conc_step b Z c" for b Z c
  by unfold_locales (rule conc_step_grows)

end
