(* ===== verification/Concurrent_Progress.thy ===== *)
theory Concurrent_Progress
  imports Concurrent_Steps
begin

text \<open>
  Calls make progress: the only steps that wait are the requests of locks, and the order in which locks are
  taken (the segments first, then the lock of the key) leaves no circle of waiting processes.
\<close>

definition can_move :: "backend \<Rightarrow> zend_abi \<Rightarrow> immutable_cache_cache_t \<Rightarrow> nat \<Rightarrow> conc \<Rightarrow> bool" where
  "can_move b Z c i S \<longleftrightarrow> (\<exists>T. find_step b Z c i S T \<or> store_step b Z c i S T)"

fun requests_lock :: "pc \<Rightarrow> bool" where
  "requests_lock (R_lock ks t) = True" | "requests_lock (W_sma w) = True" | "requests_lock (W_fine w) = True"
| "requests_lock (W_free w) = True" | "requests_lock q = False"

lemma moves: "find_step b Z c i S T \<Longrightarrow> can_move b Z c i S" "store_step b Z c i S T \<Longrightarrow> can_move b Z c i S"
  by (auto simp: can_move_def)

lemma calls_return: "dependable b (\<lambda>_. 0)"
  by (auto simp: dependable_def)

subsection \<open>Processes that hold what they need\<close>

lemma compare_at_returns:
  assumes ok: "conc_ok b Z c S M q" and ks: "str_hashed Z ks" and w: "walked Z (shared S) (slot_of Z c ks) (zstr_val ks) as p" "p \<noteq> 0"
  obtains m nxt where "compare_at Z (mem (shared S)) ks p = Inr (m, nxt)"
proof -
  obtain bs where "chain (mem (shared S)) (slots (shared S) ! slot_of Z c ks) (as @ p # bs)" using w by (auto simp: walked_def)
  from compare_at_ok [OF conc_okD(2,3) [OF ok] ks this] that show thesis by metis
qed

lemma reader_moves:
  assumes ok: "conc_ok b Z c S M q" and p: "reading (pcs S i) \<noteq> None"
  shows "can_move b Z c i S"
proof -
  note pk = conc_okD(6) [OF ok, of i]
  have en: "\<exists>e. read_entry (mem (shared S)) r = Inr e" if "found Z (shared S) k r" "r \<noteq> 0" for k r
    using that key_at_entry by (fastforce simp: found_def cache_has_def read_entry_def)
  show ?thesis
  proof (cases "pcs S i")
    case (R_walk ks t p)
    show ?thesis
    proof (cases "p = 0")
      case True
      then show ?thesis using moves(1) [OF r_end] R_walk by simp
    next
      case False
      then obtain as where "str_hashed Z ks" "walked Z (shared S) (slot_of Z c ks) (zstr_val ks) as p" using pk R_walk by (auto simp: seen_def)
      then obtain m nxt where "compare_at Z (mem (shared S)) ks p = Inr (m, nxt)" by (rule compare_at_returns [OF ok _ _ False])
      then show ?thesis using moves(1) [OF r_walk [OF R_walk False]] moves(1) [OF r_match [OF R_walk False]] by (cases m) simp_all
    qed
  next
    case (R_count ks t r)
    then show ?thesis using moves(1) [OF r_count] moves(1) [OF r_load] by (cases "b = LOCK_RECURSIVE") simp_all
  next
    case (R_hit ks t r)
    then show ?thesis using en [of "zstr_val ks" r] pk moves(1) [OF r_hit] by auto
  next
    case (R_atime ks t r)
    then show ?thesis using en [of "zstr_val ks" r] pk moves(1) [OF r_atime] by auto
  next
    case (R_unlock ks r)
    then have "i \<in> {i. reads Z S (fine_lock Z S ks) (pcs S i)}" by (auto simp: reads_def)
    then obtain l where "backend_runlock b (\<lambda>_. 0) i (locks S (fine_lock Z S ks)) = Some l"
      using lck.runlock_law [OF lock_inv_at [OF conc_okD(5) [OF ok]] _ calls_return] by blast
    from moves(1) [OF r_unlock [OF R_unlock calls_return this]] show ?thesis .
  qed (use p moves(1) [OF r_head] moves(1) [OF r_store] in auto)
qed

lemma writer_moves:
  assumes ok: "conc_ok b Z c S M q" and p: "in_sma (pcs S i)" "\<not> requests_lock (pcs S i)"
  shows "can_move b Z c i S"
proof -
  note o = conc_okD [OF ok] and pk = conc_okD(6) [OF ok, of i]
  have rel: "\<exists>x. backend_wunlock b (\<lambda>_. 0) i (locks S l) = Some x" if "writes Z S l (pcs S i)" for l
    using lck.wunlock_law [OF lock_inv_at [OF o(5)] _ calls_return] that by blast
  show ?thesis
  proof (cases "pcs S i")
    case (W_walk w prev p)
    show ?thesis
    proof (cases "p = 0")
      case True
      then show ?thesis using moves(2) [OF w_end] W_walk by simp
    next
      case False
      then obtain as where "str_hashed Z (wkey w)" "walked Z (shared S) (slot_of Z c (wkey w)) (zstr_val (wkey w)) as p"
        using pk W_walk private_hashed by auto
      then obtain m nxt where "compare_at Z (mem (shared S)) (wkey w) p = Inr (m, nxt)" by (rule compare_at_returns [OF ok _ _ False])
      then show ?thesis using moves(2) [OF w_walk [OF W_walk False]] moves(2) [OF w_duplicate [OF W_walk False]] by (cases m) simp_all
    qed
  next
    case (W_next w prev)
    then obtain e where "read_entry (wcells w) (wnew w) = Inr e" using pk by (auto simp: private_ok_def read_entry_def)
    from moves(2) [OF w_next [OF W_next this]] show ?thesis .
  next
    case (W_publish w prev)
    have q: "q = W_publish w prev" using o(1) p(1) W_publish unfolding is_holder_def by metis
    then have r: "represents Z (shared S) M" using o(2) by (simp add: settled_def)
    obtain as where as: "private_ok Z (shared S) w" "prev = last (0 # as)" "\<nexists>a. cache_has Z (shared S) (zstr_val (wkey w)) a"
      "chain (mem (shared S)) (slots (shared S) ! slot_of Z c (wkey w)) as" using pk W_publish by (auto simp: walked_def)
    have "\<exists>s. link_entry (slot_of Z c (wkey w)) prev (wnew w) ((shared S)\<lparr>mem := mem (shared S) ++ wcells w\<rparr>) = Inr s"
      unfolding as(2) by (rule publish_ok [OF r as(1) o(3) as(3,4)]) (rule exI)
    then show ?thesis using moves(2) [OF w_publish [OF W_publish]] by metis
  next
    case (W_mem w)
    then obtain e where "read_entry (mem (shared S)) (wnew w) = Inr e"
      using pk key_at_entry by (fastforce simp: cache_has_def read_entry_def)
    from moves(2) [OF w_mem [OF W_mem this]] show ?thesis .
  next
    case (W_fine_unlock w ret)
    then have "writes Z S (fine_lock Z S (wkey w)) (pcs S i)" by (auto simp: writes_def)
    with rel obtain l where "backend_wunlock b (\<lambda>_. 0) i (locks S (fine_lock Z S (wkey w))) = Some l" by blast
    from moves(2) [OF w_fine_unlock [OF W_fine_unlock calls_return this]] show ?thesis .
  next
    case (W_sma_unlock w ret)
    then have "writes Z S (sma_lock S) (pcs S i)" by (auto simp: writes_def)
    with rel obtain l where "backend_wunlock b (\<lambda>_. 0) i (locks S (sma_lock S)) = Some l" by blast
    from moves(2) [OF w_sma_unlock [OF W_sma_unlock calls_return this]] show ?thesis .
  qed (use p moves(2) [OF w_head] moves(2) [OF w_nentries] moves(2) [OF w_ninserts] in auto)
qed

lemma process_moves:
  assumes ok: "conc_ok b Z c S M q" and p: "pcs S i \<noteq> Idle" "\<not> requests_lock (pcs S i)"
  shows "can_move b Z c i S"
proof -
  consider "reading (pcs S i) \<noteq> None" | "in_sma (pcs S i)" | ks r where "pcs S i = R_done ks r" | ret where "pcs S i = W_done ret"
    using p by (cases "pcs S i") auto
  then show ?thesis using reader_moves [OF ok, of i] writer_moves [OF ok _ p(2)] moves(1) [OF r_return] moves(2) [OF w_return] by cases simp_all
qed

subsection \<open>Processes that wait\<close>

lemma lock_granted:
  assumes "lock_inv b Z S" "\<And>j. \<not> reads Z S l (pcs S j)" "\<And>j. \<not> writes Z S l (pcs S j)"
  obtains ok ok' x x' where "backend_rlock b (\<lambda>_. 0) i (locks S l) = Some (ok, x)" "backend_wlock b (\<lambda>_. 0) i (locks S l) = Some (ok', x')"
proof -
  have "lock_holds b (locks S l) {} {}" using lock_inv_at [OF assms(1), of l] assms(2,3) by simp
  then show thesis using that lck.rlock_free [OF _ calls_return] lck.wlock_free [OF _ calls_return] by fast
qed

lemma waiting_move:
  assumes ok: "conc_ok b Z c S M q" and w: "\<And>j. pcs S j \<noteq> Idle \<Longrightarrow> requests_lock (pcs S j)" and p: "pcs S i \<noteq> Idle"
  shows "\<exists>j. can_move b Z c j S"
proof -
  note o = conc_okD [OF ok]
  have nr: "reading (pcs S j) = None" "writing (pcs S j) = None" for j using w [of j] by (cases "pcs S j"; auto)+
  then have fine: "\<not> reads Z S l (pcs S j)" "\<not> writes Z S (fine_lock Z S ks) (pcs S j)" for l ks j
    using fine_not_sma by (auto simp: reads_def writes_def)
  show ?thesis
  proof (cases "\<exists>j. in_sma (pcs S j)")
    case True
    then obtain j where "in_sma (pcs S j)" by blast
    then obtain v where j: "pcs S j = W_fine v" using w [of j] by (cases "pcs S j") auto
    obtain x where "backend_wlock b (\<lambda>_. 0) j (locks S (fine_lock Z S (wkey v))) = Some x"
      using lock_granted [OF o(5), of "fine_lock Z S (wkey v)" j] fine by metis
    then show ?thesis using moves(2) [OF w_fine [OF j calls_return]] by (metis surj_pair)
  next
    case False
    then have sma: "\<not> writes Z S (sma_lock S) (pcs S j)" for j using nr by (auto simp: writes_def)
    obtain x where x: "backend_wlock b (\<lambda>_. 0) i (locks S (sma_lock S)) = Some x" using lock_granted [OF o(5), of "sma_lock S" i] fine(1) sma by metis
    have "\<not> in_sma (pcs S i)" using False by blast
    then consider ks t where "pcs S i = R_lock ks t" | v where "pcs S i = W_sma v" | v where "pcs S i = W_free v"
      using w [OF p] by (cases "pcs S i") auto
    then show ?thesis
    proof cases
      case (1 ks t)
      obtain y where "backend_rlock b (\<lambda>_. 0) i (locks S (fine_lock Z S ks)) = Some y" using lock_granted [OF o(5), of "fine_lock Z S ks" i] fine by metis
      then show ?thesis using moves(1) [OF r_lock [OF 1 calls_return]] by (metis surj_pair)
    next
      case (2 v)
      then show ?thesis using moves(2) [OF w_sma [OF 2 calls_return]] x by (metis surj_pair)
    next
      case (3 v)
      then have "private_ok Z (shared S) v" using o(6) [of i] by simp
      then obtain s where "immutable_cache_sma_free (shared S) (wnew v) = Inr s" by (rule free_ok [OF o(2) [unfolded settled_def] o(3)])
      then show ?thesis using moves(2) [OF w_free [OF 3 calls_return]] x by (metis option.distinct(1))
    qed
  qed
qed

lemma somebody_moves:
  assumes "conc_ok b Z c S M q" "pcs S i \<noteq> Idle"
  shows "\<exists>j. can_move b Z c j S"
  using process_moves [OF assms(1)] waiting_move [OF assms(1) _ assms(2)] by blast

end
