(* ===== verification/Concurrent_Solo.thy ===== *)
theory Concurrent_Solo
  imports Concurrent_Progress
begin

text \<open>
  The steps of one process between taking and releasing its locks: their number is bounded by the length of the chain
  it walks, so a holder that is given time releases its locks whatever the other processes wait for.
\<close>

definition own_step :: "backend \<Rightarrow> zend_abi \<Rightarrow> immutable_cache_cache_t \<Rightarrow> nat \<Rightarrow> conc \<Rightarrow> conc \<Rightarrow> bool" where
  "own_step b Z c i S T \<longleftrightarrow> find_step b Z c i S T \<or> store_step b Z c i S T"

text \<open>A process that holds a lock and asks for no other.\<close>

definition holds_lock :: "pc \<Rightarrow> bool" where
  "holds_lock q \<longleftrightarrow> (reading q \<noteq> None \<or> in_sma q) \<and> \<not> requests_lock q"

text \<open>The number of entries from a link on.\<close>

definition chain_length :: "heap \<Rightarrow> addr \<Rightarrow> nat" where
  "chain_length H p = length (THE as. chain H p as)"

lemma chain_length_eq: "chain H p as \<Longrightarrow> chain_length H p = length as"
  unfolding chain_length_def using chain_det by (metis the_equality)

fun steps_left :: "zend_abi \<Rightarrow> immutable_cache_cache_t \<Rightarrow> cproc \<Rightarrow> pc \<Rightarrow> nat" where
  "steps_left Z c s (R_head ks t) = 7 + chain_length (mem s) (slots s ! slot_of Z c ks)"
| "steps_left Z c s (R_walk ks t p) = 6 + chain_length (mem s) p"
| "steps_left Z c s (R_count ks t r) = 5" | "steps_left Z c s (R_store ks t r v) = 4" | "steps_left Z c s (R_hit ks t r) = 3"
| "steps_left Z c s (R_atime ks t r) = 2" | "steps_left Z c s (R_unlock ks r) = 1"
| "steps_left Z c s (W_head w) = 9 + chain_length (mem s) (slots s ! slot_of Z c (wkey w))"
| "steps_left Z c s (W_walk w prev p) = 8 + chain_length (mem s) p"
| "steps_left Z c s (W_next w prev) = 7" | "steps_left Z c s (W_publish w prev) = 6" | "steps_left Z c s (W_mem w) = 5"
| "steps_left Z c s (W_nentries w) = 4" | "steps_left Z c s (W_ninserts w) = 3" | "steps_left Z c s (W_fine_unlock w ret) = 2"
| "steps_left Z c s (W_sma_unlock w ret) = 1" | "steps_left Z c s q = 0"

lemma walk_shortens:
  assumes ok: "conc_ok b Z c S M q" and ks: "str_hashed Z ks" and w: "walked Z (shared S) (slot_of Z c ks) (zstr_val ks) as p" "p \<noteq> 0"
    and n: "compare_at Z (mem (shared S)) ks p = Inr (m, nxt)"
  shows "chain_length (mem (shared S)) p = Suc (chain_length (mem (shared S)) nxt)"
proof -
  obtain bs where bs: "chain (mem (shared S)) (slots (shared S) ! slot_of Z c ks) (as @ p # bs)" using w by (auto simp: walked_def)
  obtain e :: immutable_cache_cache_entry_t and j where "compare_at Z (mem (shared S)) ks p = Inr (j = zstr_val ks, enext e)" "chain (mem (shared S)) (enext e) bs"
    by (rule compare_at_ok [OF conc_okD(2,3) [OF ok] ks bs])
  then have c: "chain (mem (shared S)) nxt bs" using n by simp
  obtain x where "chain (mem (shared S)) x (p # bs)" using chain_suffix [OF bs] by blast
  then have "chain (mem (shared S)) p (p # bs)" by auto
  from chain_length_eq [OF this] chain_length_eq [OF c] show ?thesis by simp
qed

lemma own_step_shortens:
  assumes ok: "conc_ok b Z c S M q" and step: "own_step b Z c i S T" and h: "holds_lock (pcs S i)"
  shows "steps_left Z c (shared T) (pcs T i) < steps_left Z c (shared S) (pcs S i)"
proof -
  note pk = conc_okD(6) [OF ok, of i]
  show ?thesis
    using step [unfolded own_step_def]
  proof
    assume "find_step b Z c i S T"
    then show ?thesis
    proof cases
      case (r_walk ks t p nxt)
      then obtain as where "str_hashed Z ks" "walked Z (shared S) (slot_of Z c ks) (zstr_val ks) as p" using pk by (auto simp: seen_def)
      from walk_shortens [OF ok this, of False nxt] r_walk show ?thesis by simp
    qed (use h in \<open>auto simp: holds_lock_def after_count_def\<close>)
  next
    assume "store_step b Z c i S T"
    then show ?thesis
    proof cases
      case (w_walk w prev p nxt)
      then obtain as where "str_hashed Z (wkey w)" "walked Z (shared S) (slot_of Z c (wkey w)) (zstr_val (wkey w)) as p"
        using pk private_hashed by auto
      from walk_shortens [OF ok this, of False nxt] w_walk show ?thesis by simp
    qed (use h in \<open>auto simp: holds_lock_def\<close>)
  qed
qed

lemma own_step_keeps:
  assumes "conc_ok b Z c S M q" "own_step b Z c i S T"
  shows "\<exists>M' q'. M \<subseteq>\<^sub>m M' \<and> conc_ok b Z c T M' q'" "\<And>j. j \<noteq> i \<Longrightarrow> pcs T j = pcs S j"
proof -
  show "\<exists>M' q'. M \<subseteq>\<^sub>m M' \<and> conc_ok b Z c T M' q'"
    using assms find_keeps store_keeps map_le_refl unfolding own_step_def by metis
  show "pcs T j = pcs S j" if "j \<noteq> i" for j using assms(2) that by (auto simp: own_step_def elim!: find_step.cases store_step.cases)
qed

text \<open>While \<open>K\<close> holds the process has its locks and goes on, until \<open>F\<close> holds.\<close>

lemma runs_until:
  assumes "conc_ok b Z c S M q" "K S"
    and K: "\<And>S. K S \<Longrightarrow> holds_lock (pcs S i)" "\<And>S T. own_step b Z c i S T \<Longrightarrow> K S \<Longrightarrow> K T \<or> F T"
  shows "\<exists>T. (own_step b Z c i)\<^sup>*\<^sup>* S T \<and> F T \<and> (\<forall>j. j \<noteq> i \<longrightarrow> pcs T j = pcs S j)"
  using assms(1,2)
proof (induction "steps_left Z c (shared S) (pcs S i)" arbitrary: S M q rule: less_induct)
  case less
  have h: "holds_lock (pcs S i)" by (rule K(1) [OF less.prems(2)])
  then have "pcs S i \<noteq> Idle" "\<not> requests_lock (pcs S i)" by (auto simp: holds_lock_def)
  from process_moves [OF less.prems(1) this] obtain T where T: "own_step b Z c i S T" by (auto simp: can_move_def own_step_def)
  obtain M' q' where ok: "conc_ok b Z c T M' q'" using own_step_keeps(1) [OF less.prems(1) T] by blast
  note oth = own_step_keeps(2) [OF less.prems(1) T]
  show ?case
  proof (cases "F T")
    case True
    with T oth show ?thesis by blast
  next
    case False
    then have "K T" using K(2) [OF T less.prems(2)] by blast
    then obtain U where "(own_step b Z c i)\<^sup>*\<^sup>* T U" "F U" "\<forall>j. j \<noteq> i \<longrightarrow> pcs U j = pcs T j"
      using less.hyps [OF own_step_shortens [OF less.prems(1) T h] ok] by blast
    with T oth show ?thesis by (metis converse_rtranclp_into_rtranclp)
  qed
qed

text \<open>A holder releases its locks by steps of its own; no other process need move.\<close>

lemma holder_runs:
  assumes "conc_ok b Z c S M q" "holds_lock (pcs S i)"
  shows "\<exists>T. (own_step b Z c i)\<^sup>*\<^sup>* S T \<and> \<not> holds_lock (pcs T i)"
  using runs_until [where K = "\<lambda>S. holds_lock (pcs S i)" and F = "\<lambda>S. \<not> holds_lock (pcs S i)", OF assms] by blast

text \<open>And every run of its own is that short.\<close>

lemma run_bounded:
  assumes "conc_ok b Z c (f 0) M q" "\<And>k. k < n \<Longrightarrow> own_step b Z c i (f k) (f (Suc k)) \<and> holds_lock (pcs (f k) i)"
  shows "n + steps_left Z c (shared (f n)) (pcs (f n) i) \<le> steps_left Z c (shared (f 0)) (pcs (f 0) i) \<and> (\<exists>M q. conc_ok b Z c (f n) M q)"
  using assms(2)
proof (induction n)
  case 0
  then show ?case using assms(1) by auto
next
  case (Suc n)
  then obtain M q where IH: "n + steps_left Z c (shared (f n)) (pcs (f n) i) \<le> steps_left Z c (shared (f 0)) (pcs (f 0) i)" "conc_ok b Z c (f n) M q"
    by fastforce
  have s: "own_step b Z c i (f n) (f (Suc n))" "holds_lock (pcs (f n) i)" using Suc.prems [of n] by simp_all
  show ?case using own_step_shortens [OF IH(2) s] own_step_keeps(1) [OF IH(2) s(1)] IH(1) by auto
qed

end
