(* ===== verification/Concurrent_Sample.thy ===== *)
theory Concurrent_Sample
  imports Concurrent_Solo
begin

text \<open>
  The state in which concurrent use starts, how far a process gets on its own, and concrete runs for the witnesses.
\<close>

subsection \<open>The start\<close>

text \<open>A cache in shared memory, its locks created, and nobody using it.\<close>

definition conc_start :: "backend \<Rightarrow> zend_abi \<Rightarrow> immutable_cache_cache_t \<Rightarrow> conc \<Rightarrow> (string \<rightharpoonup> stored) \<Rightarrow> bool" where
  "conc_start b Z c S M \<longleftrightarrow> represents Z (shared S) M \<and> cache (shared S) = Some c \<and>
     (\<forall>a \<in> dom (mem (shared S)). immutable_cache_sma_contains_pointer (sma (shared S)) a) \<and>
     (\<forall>l. \<exists>x. locks S l = backend_created b x) \<and> (\<forall>i. pcs S i = Idle)"

lemma start_inv:
  assumes "conc_start b Z c S M"
  shows "conc_inv b Z c S M"
proof -
  have s: "represents Z (shared S) M" "cache (shared S) = Some c" "\<forall>a \<in> dom (mem (shared S)). immutable_cache_sma_contains_pointer (sma (shared S)) a"
    "\<forall>l. \<exists>x. locks S l = backend_created b x" "pcs S i = Idle" for i using assms by (simp_all add: conc_start_def)
  have "lock_holds b (locks S l) {} {}" for l using s(4) created_holds by metis
  then have "lock_inv b Z S" by (simp add: lock_inv_def reads_def writes_def s(5))
  moreover have "represents Z (settled S Idle) M" using s(1) by (simp add: settled_def)
  ultimately have "conc_ok b Z c S M Idle" using s by (simp add: conc_ok_def is_holder_def own_apart_def)
  then show ?thesis by (auto simp: conc_inv_def)
qed

subsection \<open>Runs of one process\<close>

lemma conc_run_ok: "conc_inv b Z c S M \<Longrightarrow> (conc_step b Z c)\<^sup>*\<^sup>* S T \<Longrightarrow> \<exists>N q. M \<subseteq>\<^sub>m N \<and> conc_ok b Z c T N q"
  using conc.run_grows unfolding conc_inv_def by metis

lemma own_runs: "(own_step b Z c i)\<^sup>*\<^sup>* S T \<Longrightarrow> (conc_step b Z c)\<^sup>*\<^sup>* S T"
  by (erule rtranclp_mono [THEN predicate2D, rotated]) (auto simp: own_step_def conc_step_def)

lemma reader_runs:
  assumes "conc_ok b Z c S M q" "pcs S i = R_head ks t"
  shows "\<exists>T r. (own_step b Z c i)\<^sup>*\<^sup>* S T \<and> pcs T i = R_unlock ks r \<and> (\<forall>j. j \<noteq> i \<longrightarrow> pcs T j = pcs S j)"
proof -
  let ?K = "\<lambda>S. reading (pcs S i) = Some ks"
  have "\<exists>T. (own_step b Z c i)\<^sup>*\<^sup>* S T \<and> (\<exists>r. pcs T i = R_unlock ks r) \<and> (\<forall>j. j \<noteq> i \<longrightarrow> pcs T j = pcs S j)"
  proof (rule runs_until [where K = "\<lambda>S. ?K S \<and> (\<nexists>r. pcs S i = R_unlock ks r)", OF assms(1)])
    fix S T assume "own_step b Z c i S T" "?K S \<and> (\<nexists>r. pcs S i = R_unlock ks r)"
    then show "(?K T \<and> (\<nexists>r. pcs T i = R_unlock ks r)) \<or> (\<exists>r. pcs T i = R_unlock ks r)"
      by (auto simp: own_step_def after_count_def elim!: find_step.cases store_step.cases)
  next
    fix S assume "?K S \<and> (\<nexists>r. pcs S i = R_unlock ks r)"
    then show "holds_lock (pcs S i)" by (cases "pcs S i") (auto simp: holds_lock_def)
  qed (simp add: assms(2))
  then show ?thesis by blast
qed

text \<open>Up to the statistics.\<close>

lemma reader_counts:
  assumes "conc_ok b Z c S M q" "pcs S i = R_head ks t" "\<not> protect_memory (shared S)" and M: "M (zstr_val ks) = None"
  shows "\<exists>T q'. (own_step b Z c i)\<^sup>*\<^sup>* S T \<and> conc_ok b Z c T M q' \<and> \<not> protect_memory (shared T) \<and> pcs T = (pcs S)(i := R_count ks t 0)"
proof -
  let ?ok = "\<lambda>S. (\<exists>q. conc_ok b Z c S M q) \<and> \<not> protect_memory (shared S)"
  let ?K = "\<lambda>S. (pcs S i = R_head ks t \<or> (\<exists>p. pcs S i = R_walk ks t p)) \<and> ?ok S"
  let ?F = "\<lambda>S. (\<exists>r. pcs S i = R_count ks t r) \<and> ?ok S"
  have "\<exists>T. (own_step b Z c i)\<^sup>*\<^sup>* S T \<and> ?F T \<and> (\<forall>j. j \<noteq> i \<longrightarrow> pcs T j = pcs S j)"
  proof (rule runs_until [where K = ?K, OF assms(1)])
    fix S T assume st: "own_step b Z c i S T" "?K S"
    then have f: "find_step b Z c i S T" by (auto simp: own_step_def elim: store_step.cases)
    with st(2) find_keeps have "\<exists>q. conc_ok b Z c T M q" by blast
    with f st(2) show "?K T \<or> ?F T" by (auto elim!: find_step.cases)
  next
    fix S assume "?K S"
    then show "holds_lock (pcs S i)" by (auto simp: holds_lock_def)
  qed (use assms in blast)
  then obtain T r q' where T: "(own_step b Z c i)\<^sup>*\<^sup>* S T" "pcs T i = R_count ks t r" "conc_ok b Z c T M q'" "\<not> protect_memory (shared T)"
    "\<forall>j. j \<noteq> i \<longrightarrow> pcs T j = pcs S j" by blast
  have "found Z (shared T) (zstr_val ks) r" using conc_okD(6) [OF T(3), of i] T(2) by simp
  then have "r = 0" using represents_None [OF conc_okD(2) [OF T(3)], of "zstr_val ks"] M by (auto simp: found_def settled_has split: if_splits)
  then have "pcs T = (pcs S)(i := R_count ks t 0)" using T(2,5) by (auto simp: fun_eq_iff)
  with T show ?thesis by blast
qed

lemma writer_runs:
  assumes "conc_ok b Z c S M q" "pcs S i = W_head w"
  shows "\<exists>T v ret. (own_step b Z c i)\<^sup>*\<^sup>* S T \<and> pcs T i = W_fine_unlock v ret \<and> wkey v = wkey w"
proof -
  let ?K = "\<lambda>S. writing (pcs S i) = Some (wkey w) \<and> (\<nexists>v ret. pcs S i = W_fine_unlock v ret)"
  let ?F = "\<lambda>S. \<exists>v ret. pcs S i = W_fine_unlock v ret \<and> wkey v = wkey w"
  have "\<exists>T. (own_step b Z c i)\<^sup>*\<^sup>* S T \<and> ?F T \<and> (\<forall>j. j \<noteq> i \<longrightarrow> pcs T j = pcs S j)"
  proof (rule runs_until [where K = ?K, OF assms(1)])
    fix S T assume "own_step b Z c i S T" "?K S"
    then show "?K T \<or> ?F T" by (auto simp: own_step_def elim!: find_step.cases store_step.cases)
  next
    fix S assume "?K S"
    then show "holds_lock (pcs S i)" by (cases "pcs S i") (auto simp: holds_lock_def)
  qed (simp add: assms(2))
  then show ?thesis by blast
qed

subsection \<open>Locks that are granted\<close>

lemma rlock_granted:
  assumes "lock_holds b l R {}" "R = {} \<and> b = LOCK_RECURSIVE \<or> b = NATIVE_RWLOCK"
  shows "\<exists>x. backend_rlock b (\<lambda>_. 0) i l = Some (True, x)"
  using assms(2)
proof
  assume b: "R = {} \<and> b = LOCK_RECURSIVE"
  with assms(1) have "lock_holds LOCK_RECURSIVE l {} {}" by simp
  then show ?thesis by (cases rule: mutex_holds) (use b in \<open>auto simp: recursive_rlock_impl_def pthread_call_def single_holder_def\<close>)
next
  assume b: "b = NATIVE_RWLOCK"
  then obtain rs w where "l = Rwlock rs w" "{} = set_option w" using assms(1) by (auto elim: rwlock_holds)
  with b show ?thesis by (cases w) (auto simp: native_rlock_impl_def pthread_call_def)
qed

lemma wlock_granted:
  assumes "lock_holds NATIVE_RWLOCK l {} {}"
  shows "\<exists>x. backend_wlock NATIVE_RWLOCK (\<lambda>_. 0) i l = Some (True, x)"
proof -
  obtain rs w where "l = Rwlock rs w" "{} = set rs" "{} = set_option w" by (rule rwlock_holds [OF assms]) auto
  then show ?thesis by (cases w) (auto simp: native_wlock_impl_def pthread_call_def)
qed

text \<open>A lookup gets its lock.\<close>

lemma lookup_enters:
  assumes ok: "conc_ok b Z c S M q" and i: "pcs S i = Idle" and ks: "str_hashed Z ks"
    and l: "{j. writes Z S (fine_lock Z S ks) (pcs S j)} = {}" "{j. reads Z S (fine_lock Z S ks) (pcs S j)} = {} \<and> b = LOCK_RECURSIVE \<or> b = NATIVE_RWLOCK"
  obtains T p where "(conc_step b Z c)\<^sup>*\<^sup>* S T" "conc_ok b Z c T M p" "pcs T = (pcs S)(i := R_head ks t)" "shared T = shared S"
proof -
  let ?A = "set_pc i (R_lock ks t) S"
  have cf: "call_step b Z c i S ?A" by (rule call_find [OF i ks])
  then have a: "conc_step b Z c S ?A" by (auto simp: conc_step_def)
  have "lock_holds b (locks S (fine_lock Z S ks)) {j. reads Z S (fine_lock Z S ks) (pcs S j)} {}"
    using lock_inv_at [OF conc_okD(5) [OF ok], of "fine_lock Z S ks"] l(1) by simp
  from rlock_granted [OF this l(2)] obtain x where x: "backend_rlock b (\<lambda>_. 0) i (locks S (fine_lock Z S ks)) = Some (True, x)" by blast
  have f: "fine_lock Z ?A ks = fine_lock Z S ks" by (simp add: fine_lock_def)
  let ?T = "set_pc i (R_head ks t) (set_lock (fine_lock Z S ks) x ?A)"
  have f: "find_step b Z c i ?A ?T"
    using find_step.r_lock [of ?A i ks t b "\<lambda>_. 0" Z True x c] calls_return x by (simp add: f)
  then have "conc_step b Z c ?A ?T" by (auto simp: conc_step_def)
  with a have r: "(conc_step b Z c)\<^sup>*\<^sup>* S ?T" by simp
  obtain p where "conc_ok b Z c ?T M p" using call_keeps [OF ok cf] find_keeps [OF _ f] by blast
  with r that [of ?T p] show thesis by simp
qed

subsection \<open>Concrete starts\<close>

text \<open>The part of a process that is shared, with memory protection on or off.\<close>

definition shared_part :: "bool \<Rightarrow> cproc \<Rightarrow> cproc" where
  "shared_part p s = s\<lparr>mem := mem s |` {a. immutable_cache_sma_contains_pointer (sma s) a}, protect_memory := p, writable := \<lambda>_. \<not> p\<rparr>"

lemma shared_part_represents:
  assumes "represents Z s M"
  shows "represents Z (shared_part p s) M"
proof (rule next_request_represents [OF assms])
  obtain c cs where "shm_wf Z s" "entry_level s = 0" using represents_wf [OF assms] by (rule cache_wfE)
  then show "next_request Z s (shared_part p s)"
    by (auto simp: next_request_def shared_part_def shm_agree_def shm_wf_def heap_hashed_def restrict_map_def sma_wf_def segments_apart_def SMA_ADDR_def dom_def subset_iff split: if_splits)
qed

definition at_start :: "backend \<Rightarrow> cproc \<Rightarrow> conc" where
  "at_start b s = \<lparr>shared = s, locks = \<lambda>_. backend_created b (Mutex None 0), pcs = \<lambda>_. Idle\<rparr>"

lemma at_start_ok:
  assumes "represents Z s M" "cache s = Some c"
  shows "conc_start b Z c (at_start b (shared_part p s)) M"
  using shared_part_represents [OF assms(1), of p] assms(2) by (auto simp: conc_start_def at_start_def shared_part_def restrict_map_def split: if_splits)

lemma idle_locks:
  assumes "\<forall>j. pcs S j = Idle \<or> (\<exists>ks r. pcs S j = R_unlock ks r)"
  shows "{j. writes Z S l (pcs S j)} = {}"
proof -
  have "\<not> writes Z S l (pcs S j)" for j using assms [rule_format, of j] by (auto simp: writes_def)
  then show ?thesis by simp
qed

lemma sample_key_hashed: "str_hashed sample_zend sample_key"
  by (simp add: str_hashed_def)

text \<open>One lookup by itself, up to the release of its lock.\<close>

lemma lookup_runs:
  assumes ok: "conc_ok NATIVE_RWLOCK Z c S M q" and i: "pcs S i = Idle" and ks: "str_hashed Z ks"
    and o: "\<forall>j. pcs S j = Idle \<or> (\<exists>ks r. pcs S j = R_unlock ks r)"
  obtains T r where "(conc_step NATIVE_RWLOCK Z c)\<^sup>*\<^sup>* S T" "pcs T = (pcs S)(i := R_unlock ks r)"
proof -
  obtain T p where T: "(conc_step NATIVE_RWLOCK Z c)\<^sup>*\<^sup>* S T" "conc_ok NATIVE_RWLOCK Z c T M p" "pcs T = (pcs S)(i := R_head ks 0)"
    by (rule lookup_enters [OF ok i ks idle_locks [OF o], of 0]) auto
  have "pcs T i = R_head ks 0" using T(3) by simp
  from reader_runs [OF T(2) this] obtain U r where U: "(own_step NATIVE_RWLOCK Z c i)\<^sup>*\<^sup>* T U" "pcs U i = R_unlock ks r" "\<forall>j. j \<noteq> i \<longrightarrow> pcs U j = pcs T j"
    by blast
  have "pcs U = (pcs S)(i := R_unlock ks r)" using U(2,3) T(3) by (auto simp: fun_eq_iff)
  with T(1) own_runs [OF U(1)] that show thesis by (meson rtranclp_trans)
qed

text \<open>Two processes look up the same key.\<close>

lemma sample_lookups:
  obtains c S0 S T r r' where "conc_start NATIVE_RWLOCK sample_zend c S0 [''key'' \<mapsto> Value sample_value]"
    "(conc_step NATIVE_RWLOCK sample_zend c)\<^sup>*\<^sup>* S0 S" "pcs S = (\<lambda>_. Idle)(0 := R_unlock sample_key r)"
    "(conc_step NATIVE_RWLOCK sample_zend c)\<^sup>*\<^sup>* S T" "pcs T 1 = R_unlock sample_key r'"
proof -
  obtain s :: cproc and c where s: "represents sample_zend s [''key'' \<mapsto> Value sample_value]" "cache s = Some c" by (rule sample_stored)
  let ?A = "at_start NATIVE_RWLOCK (shared_part True s)"
  have st: "conc_start NATIVE_RWLOCK sample_zend c ?A [''key'' \<mapsto> Value sample_value]" by (rule at_start_ok [OF s])
  have id: "pcs ?A = (\<lambda>_. Idle)" by (simp add: at_start_def)
  obtain q where "conc_ok NATIVE_RWLOCK sample_zend c ?A [''key'' \<mapsto> Value sample_value] q" using start_inv [OF st] by (auto simp: conc_inv_def)
  then obtain S r where S: "(conc_step NATIVE_RWLOCK sample_zend c)\<^sup>*\<^sup>* ?A S" "pcs S = (pcs ?A)(0 := R_unlock sample_key r)"
    by (rule lookup_runs [OF _ _ sample_key_hashed, where i = 0]) (use id in auto)
  obtain N q' where "conc_ok NATIVE_RWLOCK sample_zend c S N q'" using conc_run_ok [OF start_inv [OF st] S(1)] by blast
  then obtain T r' where "(conc_step NATIVE_RWLOCK sample_zend c)\<^sup>*\<^sup>* S T" "pcs T = (pcs S)(1 := R_unlock sample_key r')"
    by (rule lookup_runs [OF _ _ sample_key_hashed, where i = 1]) (use id S(2) in auto)
  with st S id that [of c ?A S r T r'] show thesis by simp
qed

lemma lookup_returns:
  assumes ok: "conc_ok b Z c S M q" and p: "pcs S i = R_unlock ks r"
  shows "\<exists>T. (conc_step b Z c)\<^sup>*\<^sup>* S T \<and> pcs T = (pcs S)(i := Idle)"
proof -
  have "i \<in> {i. reads Z S (fine_lock Z S ks) (pcs S i)}" using p by (auto simp: reads_def)
  then obtain l where l: "backend_runlock b (\<lambda>_. 0) i (locks S (fine_lock Z S ks)) = Some l"
    using lck.runlock_law [OF lock_inv_at [OF conc_okD(5) [OF ok]] _ calls_return] by blast
  let ?A = "set_pc i (R_done ks (Some r)) (set_lock (fine_lock Z S ks) l S)"
  have "conc_step b Z c S ?A" using r_unlock [OF p calls_return l] by (auto simp: conc_step_def)
  moreover have "conc_step b Z c ?A (set_pc i Idle ?A)" unfolding conc_step_def by (intro exI [of _ i] disjI1 r_return) simp
  ultimately show ?thesis by (intro exI [of _ "set_pc i Idle ?A"]) auto
qed

text \<open>One process stores the array of the examples in an empty cache.\<close>

lemma sample_store:
  obtains c S0 S w where "conc_start NATIVE_RWLOCK sample_zend c S0 Map.empty" "(conc_step NATIVE_RWLOCK sample_zend c)\<^sup>*\<^sup>* S0 S"
    "pcs S = (\<lambda>_. Idle)(0 := W_sma w)" "wkey w = sample_key"
proof -
  obtain s :: cproc and c where s: "represents sample_zend s Map.empty" "cache s = Some c" "serializer c = None" "mem s = sample_heap"
    "lock_rc s = []" "protect_memory s" "sma_num (sma s) = 1" "fits (hdrs s ! 0) 50000"
    "\<forall>a < 1048576. \<not> immutable_cache_sma_contains_pointer (sma s) a" by (rule sample_cache)
  let ?t = "shared_part True s" and ?A = "at_start NATIVE_RWLOCK (shared_part True s)"
  have st: "conc_start NATIVE_RWLOCK sample_zend c ?A Map.empty" by (rule at_start_ok [OF s(1,2)])
  have sd: "dom sample_heap \<subseteq> {..<1048576}" by (rule sample_heap_ok(2))
  have m: "mem ?t = Map.empty" using s(4,9) sd by (fastforce simp: shared_part_def restrict_map_def fun_eq_iff)
  have t: "shared ?A = ?t" "sma ?t = sma s" "hdrs ?t = hdrs s" "lock_rc ?t = []" using s(5) by (simp_all add: at_start_def shared_part_def)
  let ?v = "process_view sample_heap ?A"
  have v: "mem ?v = sample_heap" "sma ?v = sma s" "hdrs ?v = hdrs s" "lock_rc ?v = []" "warnings ?v = warnings s"
    using m t by (simp_all add: process_view_def shared_part_def)
  have nc: "\<not> immutable_cache_sma_contains_pointer (sma s) a" if "a \<in> dom sample_heap" for a using that sd s(9) by auto
  have rq: "request_memory sample_zend ?A sample_heap"
    using sample_heap_ok(1) sd nc t by (auto simp: request_memory_def)
  have k: "mem ?v 16 = Some (CStr sample_key)" using v(1) by (simp add: sample_heap_at)
  have w: "to_store (Suc (Suc (Suc (Suc 0)))) sample_zend (serializer c) 0 16 (IS_ARRAY 48) ?v (Value sample_value) 224"
    using sample_to_store [OF v(1)] s(3,9) v(2) by simp
  have "shm_wf sample_zend ?t" using shared_part_represents [OF s(1)] represents_wf by (auto simp: cache_wf_def)
  then have vw: "shm_wf sample_zend ?v"
    unfolding process_view_def t(1) by (rule view_shm_wf) (use rq t in \<open>auto simp: request_memory_def\<close>)
  from to_store_persist [OF vw k w] obtain new u where
    p: "immutable_cache_persist (Suc (Suc (Suc (Suc 0)))) sample_zend (serializer c) (immutable_cache_cache_init_entry 16 (IS_ARRAY 48) 0) ?v = Inr (new, u)"
      "persist_post sample_zend ?v (immutable_cache_cache_init_entry 16 (IS_ARRAY 48) 0) ''key'' 224 (holds (sma ?v) (Value sample_value)) new u"
    by auto
  have f: "fits (hdrs s ! 0) 224" by (rule fits_mono [OF s(8)]) simp_all
  have new: "new \<noteq> 0"
  proof
    assume "new = 0"
    then have "\<forall>i < sma_num (sma s). \<not> fits (hdrs s ! i) 224" using p(2) v by (simp add: persist_post_def)
    with f s(7) show False by (metis less_one)
  qed
  have "lock_holds NATIVE_RWLOCK (locks ?A (sma_lock ?A)) {} {}" by (simp add: at_start_def created_holds del: backend_created.simps)
  from wlock_granted [OF this] have g: "backend_wlock NATIVE_RWLOCK (\<lambda>_. 0) 0 (locks ?A (sma_lock ?A)) \<noteq> None" by fastforce
  have id: "pcs ?A = (\<lambda>_. Idle)" by (simp add: at_start_def)
  let ?w = "\<lparr>wkey = sample_key, wnew = new, wcells = new_cells ?v u\<rparr>"
  let ?S = "set_pc 0 (W_sma ?w) (set_shared (u\<lparr>mem := mem (shared ?A)\<rparr>) ?A)"
  have "call_step NATIVE_RWLOCK sample_zend c 0 ?A ?S"
    using call_store [OF _ rq k w calls_return g p(1)] id new by simp
  then have "(conc_step NATIVE_RWLOCK sample_zend c)\<^sup>*\<^sup>* ?A ?S" by (intro r_into_rtranclp) (auto simp: conc_step_def)
  with st id that [of c ?A ?S ?w] show thesis by simp
qed

text \<open>The store takes its locks and goes on to the release of the lock of the key.\<close>

lemma sample_storing:
  obtains c S0 S w ret where "conc_start NATIVE_RWLOCK sample_zend c S0 Map.empty" "(conc_step NATIVE_RWLOCK sample_zend c)\<^sup>*\<^sup>* S0 S"
    "pcs S 0 = W_fine_unlock w ret" "wkey w = sample_key"
proof -
  let ?step = "conc_step NATIVE_RWLOCK sample_zend"
  obtain c S0 S w where s: "conc_start NATIVE_RWLOCK sample_zend c S0 Map.empty" "(?step c)\<^sup>*\<^sup>* S0 S"
    "pcs S = (\<lambda>_. Idle)(0 := W_sma w)" "wkey w = sample_key" by (rule sample_store)
  obtain N q where ok: "conc_ok NATIVE_RWLOCK sample_zend c S N q" using conc_run_ok [OF start_inv [OF s(1)] s(2)] by blast
  have e: "reading (pcs S j) = None" "writing (pcs S j) = None" "\<not> in_sma (pcs S j)" for j using s(3) by simp_all
  have free: "lock_holds NATIVE_RWLOCK (locks S l) {} {}" for l
    using lock_inv_at [OF conc_okD(5) [OF ok], of l] e by (simp add: reads_def writes_def)
  obtain x y where x: "backend_wlock NATIVE_RWLOCK (\<lambda>_. 0) 0 (locks S (sma_lock S)) = Some (True, x)"
    "backend_wlock NATIVE_RWLOCK (\<lambda>_. 0) 0 (locks S (fine_lock sample_zend S (wkey w))) = Some (True, y)"
    using wlock_granted [OF free] by metis
  let ?A = "set_pc 0 (W_fine w) (set_lock (sma_lock S) x S)"
  have p: "pcs S 0 = W_sma w" using s(3) by simp
  have a: "?step c S ?A" using w_sma [OF p calls_return x(1)] by (auto simp: conc_step_def)
  have f: "fine_lock sample_zend ?A (wkey w) = fine_lock sample_zend S (wkey w)" by (simp add: fine_lock_def)
  let ?B = "set_pc 0 (W_head w) (set_lock (fine_lock sample_zend S (wkey w)) y ?A)"
  have "store_step NATIVE_RWLOCK sample_zend c 0 ?A ?B"
    using store_step.w_fine [of ?A 0 w NATIVE_RWLOCK "\<lambda>_. 0" sample_zend True y c] calls_return x(2) fine_not_sma [of sample_zend S "wkey w"] by (simp add: f)
  then have "?step c ?A ?B" by (auto simp: conc_step_def)
  with a s(2) have r: "(?step c)\<^sup>*\<^sup>* S0 ?B" by (meson rtranclp.rtrancl_into_rtrancl)
  obtain N' q' where "conc_ok NATIVE_RWLOCK sample_zend c ?B N' q'" using conc_run_ok [OF start_inv [OF s(1)] r] by blast
  from writer_runs [OF this, of 0 w] obtain T v ret where "(own_step NATIVE_RWLOCK sample_zend c 0)\<^sup>*\<^sup>* ?B T" "pcs T 0 = W_fine_unlock v ret" "wkey v = wkey w"
    by auto
  with r own_runs s(1,4) that [of c S0 T v ret] show thesis by (metis rtranclp_trans)
qed

text \<open>Two processes are about to count a miss, with the locks of two keys.\<close>

abbreviation plain_key :: "string \<Rightarrow> zend_string" where
  "plain_key k \<equiv> \<lparr>str_refcount = 1, str_immutable = False, zstr_h = 0, zstr_val = k\<rparr>"

lemma plain_fine_lock: "fine_lock sample_zend S (plain_key ''a'') \<noteq> fine_lock sample_zend S (plain_key ''bc'')"
  by (simp add: fine_lock_def immutable_cache_sma_lookup_fine_grained_lock_def ZSTR_HASH_def sample_zend_def IMMUTABLE_CACHE_CACHE_FINE_GRAINED_LOCK_COUNT_def)

lemma sample_counting:
  obtains c S0 S where "conc_start LOCK_RECURSIVE sample_zend c S0 Map.empty" "(conc_step LOCK_RECURSIVE sample_zend c)\<^sup>*\<^sup>* S0 S"
    "pcs S 0 = R_count (plain_key ''a'') 0 0" "pcs S 1 = R_count (plain_key ''bc'') 0 0"
proof -
  let ?b = LOCK_RECURSIVE and ?Z = sample_zend
  obtain s :: cproc and c where s: "represents ?Z s Map.empty" "cache s = Some c" by (rule sample_cache)
  let ?A = "at_start ?b (shared_part False s)"
  have st: "conc_start ?b ?Z c ?A Map.empty" by (rule at_start_ok [OF s])
  have id: "pcs ?A = (\<lambda>_. Idle)" "\<not> protect_memory (shared ?A)" by (simp_all add: at_start_def shared_part_def)
  have h: "str_hashed ?Z (plain_key k)" for k by (simp add: str_hashed_def)
  obtain q where ok: "conc_ok ?b ?Z c ?A Map.empty q" using start_inv [OF st] by (auto simp: conc_inv_def)
  obtain B p where B: "(conc_step ?b ?Z c)\<^sup>*\<^sup>* ?A B" "conc_ok ?b ?Z c B Map.empty p" "pcs B = (pcs ?A)(0 := R_head (plain_key ''a'') 0)" "shared B = shared ?A"
    by (rule lookup_enters [OF ok _ h, of 0 "''a''" 0]) (use id in \<open>auto simp: reads_def writes_def\<close>)
  obtain C r where C: "(own_step ?b ?Z c 0)\<^sup>*\<^sup>* B C" "conc_ok ?b ?Z c C Map.empty r" "\<not> protect_memory (shared C)" "pcs C = (pcs B)(0 := R_count (plain_key ''a'') 0 0)"
    using reader_counts [OF B(2), of 0 "plain_key ''a''" 0] B(3,4) id(2) by auto
  have l: "\<not> reads ?Z C (fine_lock ?Z C (plain_key ''bc'')) (pcs C j)" "\<not> writes ?Z C (fine_lock ?Z C (plain_key ''bc'')) (pcs C j)" for j
    using C(4) B(3) id(1) plain_fine_lock [of C] by (auto simp: reads_def writes_def)
  obtain D u where D: "(conc_step ?b ?Z c)\<^sup>*\<^sup>* C D" "conc_ok ?b ?Z c D Map.empty u" "pcs D = (pcs C)(1 := R_head (plain_key ''bc'') 0)" "shared D = shared C"
    by (rule lookup_enters [OF C(2) _ h, of 1 "''bc''" 0]) (use id C(4) B(3) l in auto)
  obtain E where E: "(own_step ?b ?Z c 1)\<^sup>*\<^sup>* D E" "pcs E = (pcs D)(1 := R_count (plain_key ''bc'') 0 0)"
    using reader_counts [OF D(2), of 1 "plain_key ''bc''" 0] D(3,4) C(3) by auto
  have "(conc_step ?b ?Z c)\<^sup>*\<^sup>* ?A E" using B(1) own_runs [OF C(1)] D(1) own_runs [OF E(1)] by (meson rtranclp_trans)
  with st that [of c ?A E] E(2) D(3) C(4) show thesis by simp
qed

end
