(* ===== verification/Concurrent_Props.thy ===== *)
theory Concurrent_Props
  imports Concurrent_Sample
begin

text \<open>
  What concurrent use promises: lookups are exact, values never change, nobody waits forever in a circle, and the table
  that is left when the last call has returned is one the sequential theorems speak about.
\<close>

subsection \<open>Answers\<close>

text \<open>The entry at \<open>r\<close> holds a value.\<close>

definition entry_holds :: "conc \<Rightarrow> addr \<Rightarrow> stored \<Rightarrow> bool" where
  "entry_holds S r v \<longleftrightarrow> (\<exists>e. read_entry (mem (shared S)) r = Inr e \<and> holds (sma (shared S)) v (mem (shared S)) (eval e))"

definition answers :: "conc \<Rightarrow> stored option \<Rightarrow> addr \<Rightarrow> bool" where
  "answers S x r \<longleftrightarrow> (case x of None \<Rightarrow> r = 0 | Some v \<Rightarrow> r \<noteq> 0 \<and> entry_holds S r v)"

text \<open>The map of the table: every key with the value of its entry, no other key.\<close>

definition table_map :: "zend_abi \<Rightarrow> conc \<Rightarrow> (string \<rightharpoonup> stored) \<Rightarrow> bool" where
  "table_map Z S M \<longleftrightarrow> (\<forall>k. case M k of None \<Rightarrow> \<nexists>a. cache_has Z (shared S) k a
     | Some v \<Rightarrow> \<exists>a. cache_has Z (shared S) k a \<and> entry_holds S a v)"

lemma inv_table_map:
  assumes "conc_inv b Z c S M"
  shows "table_map Z S M"
  unfolding table_map_def
proof
  obtain q where r: "represents Z (settled S q) M" using assms by (auto simp: conc_inv_def dest: conc_okD(2))
  fix k show "case M k of None \<Rightarrow> \<nexists>a. cache_has Z (shared S) k a | Some v \<Rightarrow> \<exists>a. cache_has Z (shared S) k a \<and> entry_holds S a v"
    using represents_at [OF r, of k] by (auto simp: settled_has entry_holds_def read_entry_def split: option.splits)
qed

lemma inv_answers:
  assumes inv: "conc_inv b Z c S M" and p: "pcs S i = R_unlock ks r"
  shows "answers S (M (zstr_val ks)) r"
proof -
  obtain q where ok: "conc_ok b Z c S M q" using inv by (auto simp: conc_inv_def)
  have f: "found Z (shared S) (zstr_val ks) r" using conc_okD(6) [OF ok, of i] p by simp
  note r = conc_okD(2) [OF ok]
  show ?thesis
  proof (cases "r = 0")
    case True
    then show ?thesis using f represents_None [OF r, of "zstr_val ks"] by (simp add: found_def settled_has answers_def)
  next
    case False
    then have "cache_has Z (settled S q) (zstr_val ks) r" using f by (simp add: found_def settled_has)
    from r this obtain w e where "M (zstr_val ks) = Some w" "mem (settled S q) r = Some (CEntry e)" "holds (sma (settled S q)) w (mem (settled S q)) (eval e)"
      by (rule represents_Some)
    with False show ?thesis by (simp add: answers_def entry_holds_def read_entry_def)
  qed
qed

subsection \<open>Properties\<close>

text \<open>C4: Lookups are exact under concurrency. Whatever any number of processes have done to the cache, with any of the lock
  implementations and in any interleaving, a lookup that is about to release its lock has the entry
  of its key, with the value the table holds for it, or \<^verbatim>\<open>NULL\<close> if at this moment the table has no such key.\<close>

theorem concurrent_lookup_exact:
  assumes "conc_start b Z c S0 M" "(conc_step b Z c)\<^sup>*\<^sup>* S0 S"
  shows "\<exists>N. M \<subseteq>\<^sub>m N \<and> table_map Z S N \<and> (\<forall>i ks r. pcs S i = R_unlock ks r \<longrightarrow> answers S (N (zstr_val ks)) r)"
proof -
  obtain N where "conc_inv b Z c S N" "M \<subseteq>\<^sub>m N" using conc.run_grows [OF assms(2) start_inv [OF assms(1)]] by blast
  then show ?thesis using inv_table_map inv_answers by blast
qed

theorem concurrent_lookup_exact_witness:
  "\<exists>c S0 S r. conc_start NATIVE_RWLOCK sample_zend c S0 [''key'' \<mapsto> Value sample_value] \<and> (conc_step NATIVE_RWLOCK sample_zend c)\<^sup>*\<^sup>* S0 S \<and>
    pcs S 0 = R_unlock sample_key r \<and> r \<noteq> 0 \<and> entry_holds S r (Value sample_value)"
proof -
  obtain c S0 S T r r' where s: "conc_start NATIVE_RWLOCK sample_zend c S0 [''key'' \<mapsto> Value sample_value]"
    "(conc_step NATIVE_RWLOCK sample_zend c)\<^sup>*\<^sup>* S0 S" "pcs S = (\<lambda>_. Idle)(0 := R_unlock sample_key r)" by (rule sample_lookups)
  from concurrent_lookup_exact [OF s(1,2)] obtain N where N: "[''key'' \<mapsto> Value sample_value] \<subseteq>\<^sub>m N"
    "\<forall>i ks r. pcs S i = R_unlock ks r \<longrightarrow> answers S (N (zstr_val ks)) r" by blast
  have n: "N ''key'' = Some (Value sample_value)" and p: "pcs S 0 = R_unlock sample_key r" using N(1) s(3) by (simp_all add: map_le_def)
  have "r \<noteq> 0 \<and> entry_holds S r (Value sample_value)" using N(2) [rule_format, OF p] n by (simp add: answers_def)
  with s(1,2) p show ?thesis by blast
qed

text \<open>C5: Immutability under concurrency. When a lookup has found a value for a key, every later lookup of the key by
  any process, with any steps of any processes in between, finds the same value.\<close>

theorem concurrent_immutable:
  assumes "conc_start b Z c S0 M" "(conc_step b Z c)\<^sup>*\<^sup>* S0 S" "(conc_step b Z c)\<^sup>*\<^sup>* S T"
    "pcs S i = R_unlock ks r" "r \<noteq> 0" "pcs T j = R_unlock ks' r'" "zstr_val ks' = zstr_val ks"
  shows "\<exists>v. entry_holds S r v \<and> r' \<noteq> 0 \<and> entry_holds T r' v"
proof -
  obtain N where N: "conc_inv b Z c S N" using conc.run_grows [OF assms(2) start_inv [OF assms(1)]] by blast
  have "answers S (N (zstr_val ks)) r" by (rule inv_answers [OF N assms(4)])
  then obtain v where v: "N (zstr_val ks) = Some v" "entry_holds S r v" using assms(5) by (auto simp: answers_def split: option.splits)
  obtain L where L: "conc_inv b Z c T L" "L (zstr_val ks) = Some v" using conc.stored_forever [OF assms(3) N v(1)] by blast
  have "answers T (L (zstr_val ks')) r'" by (rule inv_answers [OF L(1) assms(6)])
  with v(2) L(2) assms(7) show ?thesis by (auto simp: answers_def)
qed

theorem concurrent_immutable_witness:
  "\<exists>c S0 S T r r'. conc_start NATIVE_RWLOCK sample_zend c S0 [''key'' \<mapsto> Value sample_value] \<and> (conc_step NATIVE_RWLOCK sample_zend c)\<^sup>*\<^sup>* S T \<and>
    pcs S 0 = R_unlock sample_key r \<and> pcs T 1 = R_unlock sample_key r' \<and> (\<exists>v. entry_holds S r v \<and> r' \<noteq> 0 \<and> entry_holds T r' v)"
proof -
  obtain c S0 S T r r' where s: "conc_start NATIVE_RWLOCK sample_zend c S0 [''key'' \<mapsto> Value sample_value]"
    "(conc_step NATIVE_RWLOCK sample_zend c)\<^sup>*\<^sup>* S0 S" "pcs S = (\<lambda>_. Idle)(0 := R_unlock sample_key r)"
    "(conc_step NATIVE_RWLOCK sample_zend c)\<^sup>*\<^sup>* S T" "pcs T 1 = R_unlock sample_key r'" by (rule sample_lookups)
  have p: "pcs S 0 = R_unlock sample_key r" using s(3) by simp
  obtain N where N: "conc_inv NATIVE_RWLOCK sample_zend c S N" "[''key'' \<mapsto> Value sample_value] \<subseteq>\<^sub>m N"
    using conc.run_grows [OF s(2) start_inv [OF s(1)]] by blast
  have "N ''key'' = Some (Value sample_value)" using N(2) by (simp add: map_le_def)
  then have "r \<noteq> 0" using inv_answers [OF N(1) p] by (simp add: answers_def)
  from concurrent_immutable [OF s(1,2,4) p this s(5) refl] s(1,4,5) p show ?thesis by blast
qed



text \<open>C15: When no call is under way the table is again one that represents a map, with all of the invariant of
  sequential use: the map of the start with the keys that were added.\<close>

theorem concurrent_quiescent:
  assumes "conc_start b Z c S0 M" "(conc_step b Z c)\<^sup>*\<^sup>* S0 S" "\<forall>i. pcs S i = Idle"
  shows "\<exists>N. M \<subseteq>\<^sub>m N \<and> represents Z (shared S) N \<and> cache (shared S) = Some c"
proof -
  obtain N where N: "conc_inv b Z c S N" "M \<subseteq>\<^sub>m N" using conc.run_grows [OF assms(2) start_inv [OF assms(1)]] by blast
  then obtain q where ok: "conc_ok b Z c S N q" by (auto simp: conc_inv_def)
  have "q = Idle" using conc_okD(1) [OF ok] assms(3) by (simp add: is_holder_def)
  then have "represents Z (shared S) N" using conc_okD(2) [OF ok] by (simp add: settled_def)
  with N(2) conc_okD(3) [OF ok] show ?thesis by blast
qed

theorem concurrent_quiescent_witness:
  "\<exists>c S0 S r T N. conc_start NATIVE_RWLOCK sample_zend c S0 [''key'' \<mapsto> Value sample_value] \<and> (conc_step NATIVE_RWLOCK sample_zend c)\<^sup>*\<^sup>* S0 S \<and>
    pcs S 0 = R_unlock sample_key r \<and> (conc_step NATIVE_RWLOCK sample_zend c)\<^sup>*\<^sup>* S T \<and> represents sample_zend (shared T) N \<and> N ''key'' = Some (Value sample_value)"
proof -
  obtain c S0 S T r r' where s: "conc_start NATIVE_RWLOCK sample_zend c S0 [''key'' \<mapsto> Value sample_value]"
    "(conc_step NATIVE_RWLOCK sample_zend c)\<^sup>*\<^sup>* S0 S" "pcs S = (\<lambda>_. Idle)(0 := R_unlock sample_key r)" by (rule sample_lookups)
  have p: "pcs S 0 = R_unlock sample_key r" using s(3) by simp
  obtain N q where "conc_ok NATIVE_RWLOCK sample_zend c S N q" using conc_run_ok [OF start_inv [OF s(1)] s(2)] by blast
  from lookup_returns [OF this p] obtain T where T: "(conc_step NATIVE_RWLOCK sample_zend c)\<^sup>*\<^sup>* S T" "\<forall>i. pcs T i = Idle" using s(3) by auto
  have "(conc_step NATIVE_RWLOCK sample_zend c)\<^sup>*\<^sup>* S0 T" using s(2) T(1) by simp
  from concurrent_quiescent [OF s(1) this T(2)] obtain L where "[''key'' \<mapsto> Value sample_value] \<subseteq>\<^sub>m L" "represents sample_zend (shared T) L" by blast
  moreover from this have "L ''key'' = Some (Value sample_value)" by (simp add: map_le_def)
  ultimately show ?thesis using s(1,2) p T(1) by blast
qed

text \<open>C13: No deadlock and no failing access. As long as a call is under way in some process, some process can
  take a step of its call, and a process that is not asking for a lock can always take its next step.\<close>

theorem concurrent_progress:
  assumes "conc_start b Z c S0 M" "(conc_step b Z c)\<^sup>*\<^sup>* S0 S" "pcs S i \<noteq> Idle"
  shows "(\<exists>T. work_step b Z c S T) \<and> (requests_lock (pcs S i) \<or> can_move b Z c i S)"
proof -
  obtain N where "conc_inv b Z c S N" using conc.run_grows [OF assms(2) start_inv [OF assms(1)]] by blast
  then obtain q where ok: "conc_ok b Z c S N q" by (auto simp: conc_inv_def)
  then show ?thesis using somebody_moves [OF ok assms(3)] process_moves [OF ok assms(3)] by (auto simp: work_step_def can_move_def)
qed

theorem concurrent_progress_witness:
  "\<exists>c S0 S T r. conc_start NATIVE_RWLOCK sample_zend c S0 [''key'' \<mapsto> Value sample_value] \<and> (conc_step NATIVE_RWLOCK sample_zend c)\<^sup>*\<^sup>* S0 S \<and>
    pcs S 0 = R_unlock sample_key r \<and> work_step NATIVE_RWLOCK sample_zend c S T"
proof -
  obtain c S0 S T r r' where s: "conc_start NATIVE_RWLOCK sample_zend c S0 [''key'' \<mapsto> Value sample_value]"
    "(conc_step NATIVE_RWLOCK sample_zend c)\<^sup>*\<^sup>* S0 S" "pcs S = (\<lambda>_. Idle)(0 := R_unlock sample_key r)" by (rule sample_lookups)
  have p: "pcs S 0 = R_unlock sample_key r" using s(3) by simp
  then have "pcs S 0 \<noteq> Idle" by simp
  from concurrent_progress [OF s(1,2) this] s(1,2) p show ?thesis by blast
qed



text \<open>C40: With recursive mutexes the counters of hits and misses are incremented without atomics, because a read lock is then
  a write lock. But the lock is one of sixteen, chosen by the key, and the counters are shared: when two processes
  that hold the locks of different keys count at the same time, one of the two increments can be lost. With every other lock the increments
  are atomic and both are counted in whatever order.\<close>

theorem recursive_lock_loses_counts:
  assumes "pcs S i = R_count ks t r" "pcs S j = R_count ks' t' r'" "i \<noteq> j" "r = 0 \<longleftrightarrow> r' = 0"
  shows "(\<exists>T. (conc_step LOCK_RECURSIVE Z c)\<^sup>*\<^sup>* S T \<and> pcs T = (pcs S)(i := after_count ks t r, j := after_count ks' t' r') \<and>
      stat_of r (header (shared T)) = stat_of r (header (shared S)) + 1) \<and>
    (b \<noteq> LOCK_RECURSIVE \<and> find_step b Z c i S T1 \<and> find_step b Z c j T1 T2 \<longrightarrow>
      stat_of r (header (shared T2)) = stat_of r (header (shared S)) + 2)"
proof
  let ?h = "header (shared S)" and ?b = LOCK_RECURSIVE
  have sp: "stat_of r' = stat_of r" "put_stat r' = put_stat r" using assms(4) by (auto simp: stat_of_def put_stat_def fun_eq_iff)
  have pp: "put_stat r v (put_stat r u h) = put_stat r v h" "stat_of r (put_stat r v h) = v" for u v h by (simp_all add: put_stat_def stat_of_def)
  let ?A = "set_pc i (R_store ks t r (stat_of r ?h)) S"
  let ?B = "set_pc j (R_store ks' t' r' (stat_of r' ?h)) ?A"
  let ?C = "set_pc i (after_count ks t r) (set_shared ((shared S)\<lparr>header := put_stat r (stat_of r ?h + 1) ?h\<rparr>) ?B)"
  let ?D = "set_pc j (after_count ks' t' r') (set_shared ((shared ?C)\<lparr>header := put_stat r' (stat_of r' ?h + 1) (header (shared ?C))\<rparr>) ?C)"
  have "find_step ?b Z c i S ?A" by (rule r_load [OF assms(1) refl])
  moreover have "find_step ?b Z c j ?A ?B" using r_load [of ?A j ks' t' r' ?b Z c] assms(2,3) by simp
  moreover have "find_step ?b Z c i ?B ?C" using r_store [of ?B i ks t r "stat_of r ?h" ?b Z c] assms(3) by simp
  moreover have "find_step ?b Z c j ?C ?D" using r_store [of ?C j ks' t' r' "stat_of r' ?h" ?b Z c] assms(3) by simp
  ultimately have "(conc_step ?b Z c)\<^sup>*\<^sup>* S ?D"
    by (meson conc_step_def converse_rtranclp_into_rtranclp rtranclp.rtrancl_refl)
  moreover have "pcs ?D = (pcs S)(i := after_count ks t r, j := after_count ks' t' r')" using assms(3) by (auto simp: fun_eq_iff)
  moreover have "stat_of r (header (shared ?D)) = stat_of r ?h + 1" by (simp add: sp pp)
  ultimately show "\<exists>T. (conc_step ?b Z c)\<^sup>*\<^sup>* S T \<and> pcs T = (pcs S)(i := after_count ks t r, j := after_count ks' t' r') \<and>
      stat_of r (header (shared T)) = stat_of r ?h + 1" by blast
  show "b \<noteq> ?b \<and> find_step b Z c i S T1 \<and> find_step b Z c j T1 T2 \<longrightarrow> stat_of r (header (shared T2)) = stat_of r ?h + 2"
  proof (intro impI; elim conjE)
    assume b: "b \<noteq> ?b" and f: "find_step b Z c i S T1" "find_step b Z c j T1 T2"
    have 1: "header (shared T1) = put_stat r (stat_of r ?h + 1) ?h" "pcs T1 = (pcs S)(i := after_count ks t r)"
      using f(1) by (cases; use assms(1) b in simp)+
    have "header (shared T2) = put_stat r' (stat_of r' (header (shared T1)) + 1) (header (shared T1))"
      using f(2) by (cases; use 1(2) assms(2,3) b in simp)
    then show "stat_of r (header (shared T2)) = stat_of r ?h + 2" by (simp add: 1(1) sp pp)
  qed
qed

theorem recursive_lock_loses_counts_witness:
  "\<exists>c S0 S T. conc_start LOCK_RECURSIVE sample_zend c S0 Map.empty \<and> (conc_step LOCK_RECURSIVE sample_zend c)\<^sup>*\<^sup>* S0 S \<and>
    (conc_step LOCK_RECURSIVE sample_zend c)\<^sup>*\<^sup>* S T \<and> pcs S 0 = R_count (plain_key ''a'') 0 0 \<and> pcs S 1 = R_count (plain_key ''bc'') 0 0 \<and>
    pcs T 0 = R_unlock (plain_key ''a'') 0 \<and> pcs T 1 = R_unlock (plain_key ''bc'') 0 \<and> nmisses (header (shared T)) = nmisses (header (shared S)) + 1"
proof -
  obtain c S0 S where s: "conc_start LOCK_RECURSIVE sample_zend c S0 Map.empty" "(conc_step LOCK_RECURSIVE sample_zend c)\<^sup>*\<^sup>* S0 S"
    "pcs S 0 = R_count (plain_key ''a'') 0 0" "pcs S 1 = R_count (plain_key ''bc'') 0 0" by (rule sample_counting)
  from recursive_lock_loses_counts [OF s(3,4), of sample_zend c LOCK_RECURSIVE S S] obtain T where "(conc_step LOCK_RECURSIVE sample_zend c)\<^sup>*\<^sup>* S T"
    "pcs T = (pcs S)(0 := after_count (plain_key ''a'') 0 0, 1 := after_count (plain_key ''bc'') 0 0)"
    "stat_of 0 (header (shared T)) = stat_of 0 (header (shared S)) + 1" by auto
  moreover from this have "pcs T 0 = R_unlock (plain_key ''a'') 0" "pcs T 1 = R_unlock (plain_key ''bc'') 0"
    "nmisses (header (shared T)) = nmisses (header (shared S)) + 1" by (simp_all add: after_count_def stat_of_def)
  ultimately show ?thesis using s by blast
qed

end
