(* ===== verification/Shm.thy ===== *)
theory Shm
  imports Sma_Props
begin

unbundle bit_operations_syntax

text \<open>
  System V shared memory, \<^verbatim>\<open>immutable_cache_shm.c\<close>, and the start-up and the end of the allocator in a build without
  \<^verbatim>\<open>mmap\<close>. The kernel is a table of segments, each with its size, the number of processes that are attached
  and the mark for removal, and the addresses at which the calling process is attached. What it
  answers to \<^verbatim>\<open>shmget\<close> and \<^verbatim>\<open>shmat\<close> is a parameter.
\<close>

subsection \<open>The kernel\<close>

record shmid_ds =
  shm_segsz :: size_t
  shm_nattch :: nat
  shm_dest :: bool

record ipc =
  shmids :: "int \<rightharpoonup> shmid_ds"
  attached :: "size_t \<rightharpoonup> int"

text \<open>The answer to the \<open>i\<close>-th call: an identifier, negative on failure; an address, or failure.\<close>

record ipc_env =
  shmget_result :: "nat \<Rightarrow> int"
  shmat_result :: "nat \<Rightarrow> size_t option"

definition shmget :: "int \<Rightarrow> size_t \<Rightarrow> ipc \<Rightarrow> ipc" where
  "shmget j n k = k\<lparr>shmids := (shmids k)(j \<mapsto> \<lparr>shm_segsz = n, shm_nattch = 0, shm_dest = False\<rparr>)\<rparr>"

definition shmat :: "int \<Rightarrow> size_t \<Rightarrow> ipc \<Rightarrow> ipc" where
  "shmat j a k = k\<lparr>shmids := (shmids k)(j := map_option (\<lambda>d. d\<lparr>shm_nattch := shm_nattch d + 1\<rparr>) (shmids k j)),
     attached := (attached k)(a \<mapsto> j)\<rparr>"

text \<open>A segment that is marked for removal goes with the last process.\<close>

definition reap :: "shmid_ds \<Rightarrow> shmid_ds option" where
  "reap d = (if shm_dest d \<and> shm_nattch d = 0 then None else Some d)"

definition shmctl_rmid :: "int \<Rightarrow> ipc \<Rightarrow> ipc" where
  "shmctl_rmid j k = k\<lparr>shmids := (shmids k)(j := Option.bind (shmids k j) (\<lambda>d. reap (d\<lparr>shm_dest := True\<rparr>)))\<rparr>"

text \<open>\<open>False\<close>: nothing is attached at the address.\<close>

definition shmdt :: "size_t \<Rightarrow> ipc \<Rightarrow> bool \<times> ipc" where
  "shmdt a k =
     (case attached k a of
        None \<Rightarrow> (False, k)
      | Some j \<Rightarrow> (True, k\<lparr>shmids := (shmids k)(j := Option.bind (shmids k j) (\<lambda>d. reap (d\<lparr>shm_nattch := shm_nattch d - 1\<rparr>))),
                           attached := (attached k)(a := None)\<rparr>))"

text \<open>Children that are forked are attached to what their parent is attached to.\<close>

definition fork_children :: "nat \<Rightarrow> ipc \<Rightarrow> ipc" where
  "fork_children m k = k\<lparr>shmids := (\<lambda>j. if j \<in> ran (attached k)
     then map_option (\<lambda>d. d\<lparr>shm_nattch := shm_nattch d + m\<rparr>) (shmids k j) else shmids k j)\<rparr>"

subsection \<open>The key on Windows\<close>

text \<open>\<open>(php_rand() & 0x1fffffff) + 0x20000007\<close>; the result of \<^verbatim>\<open>php_rand\<close> is not negative.\<close>

definition shm_key :: "int \<Rightarrow> int" where
  "shm_key r = (r AND 0x1fffffff) + 0x20000007"

text \<open>The loop over keys in use; the counter goes up at the end of the body and in the head of the loop.
  \<open>n\<close> random numbers have been drawn.\<close>

function shm_key_loop :: "(int \<Rightarrow> bool) \<Rightarrow> (nat \<Rightarrow> int) \<Rightarrow> nat \<Rightarrow> nat \<Rightarrow> int \<Rightarrow> int" where
  "shm_key_loop used rnd attempts n key =
     (if attempts < 1000
      then if \<not> used key then key
           else shm_key_loop used rnd (attempts + 1 + 1) (n + 1) (shm_key (rnd n))
      else key)"
  by pat_completeness auto

termination
  by (relation "measure (\<lambda>(used, rnd, attempts, n, key). 1000 - attempts)") auto

declare shm_key_loop.simps [simp del]

definition windows_shm_key :: "(int \<Rightarrow> bool) \<Rightarrow> (nat \<Rightarrow> int) \<Rightarrow> int" where
  "windows_shm_key used rnd = shm_key_loop used rnd 0 1 (shm_key (rnd 0))"

subsection \<open>Segments\<close>

text \<open>The argument \<^verbatim>\<open>proj\<close> is not used. \<open>i\<close> counts the calls.\<close>

definition immutable_cache_shm_create :: "ipc_env \<Rightarrow> nat \<Rightarrow> size_t \<Rightarrow> ipc \<Rightarrow> crash + (int \<times> ipc)" where
  "immutable_cache_shm_create env i n k =
     (let shmid = shmget_result env i
      in if shmid < 0 then Inl (CoreError ''immutable_cache_shm_create: shmget failed'') else Inr (shmid, shmget shmid n k))"

definition immutable_cache_shm_destroy :: "int \<Rightarrow> ipc \<Rightarrow> ipc" where
  "immutable_cache_shm_destroy shmid k = shmctl_rmid shmid k"

definition immutable_cache_shm_attach :: "ipc_env \<Rightarrow> nat \<Rightarrow> int \<Rightarrow> size_t \<Rightarrow> ipc \<Rightarrow> crash + (immutable_cache_segment_t \<times> ipc)" where
  "immutable_cache_shm_attach env i shmid n k =
     (case shmat_result env i of
        None \<Rightarrow> Inl (CoreError ''immutable_cache_shm_attach: shmat failed:'')
      | Some a \<Rightarrow> Inr (\<lparr>seg_size = n, shmaddr = a\<rparr>, immutable_cache_shm_destroy shmid (shmat shmid a k)))"

definition immutable_cache_shm_detach :: "immutable_cache_segment_t \<Rightarrow> ipc \<times> 'a os_scheme \<Rightarrow> ipc \<times> 'a os_scheme" where
  "immutable_cache_shm_detach seg = (\<lambda>(k, s).
     let (ok, k) = shmdt (shmaddr seg) k
     in (k, if \<not> ok then immutable_cache_warning ''immutable_cache_shm_detach: shmdt failed:'' s else s))"

subsection \<open>The allocator without \<^verbatim>\<open>mmap\<close>\<close>

fun ipc_init_segs ::
  "ipc_env \<Rightarrow> (nat \<Rightarrow> nat \<Rightarrow> block_t) \<Rightarrow> nat \<Rightarrow> size_t \<Rightarrow> nat \<Rightarrow> nat \<Rightarrow> ipc \<Rightarrow>
   crash + (immutable_cache_segment_t list \<times> shm_segment list \<times> ipc)" where
  "ipc_init_segs env raw num sz i 0 k = Inr ([], [], k)"
| "ipc_init_segs env raw num sz i (Suc m) k =
     (let segment_size = (if i < num then sz else 65536)
      in ebind (immutable_cache_shm_create env i segment_size k) (\<lambda>(j, k).
         ebind (immutable_cache_shm_attach env i j segment_size k) (\<lambda>(seg, k).
         ebind (ipc_init_segs env raw num sz (Suc i) m k) (\<lambda>(ss, hs, k).
           Inr (seg\<lparr>seg_size := segment_size\<rparr> # ss, sma_init_segment segment_size (raw i) # hs, k)))))"

definition ipc_sma_init ::
  "ipc_env \<Rightarrow> (nat \<Rightarrow> nat \<Rightarrow> block_t) \<Rightarrow> int \<Rightarrow> size_t \<Rightarrow> ipc \<times> 'a proc_scheme \<Rightarrow> crash + (ipc \<times> 'a proc_scheme)" where
  "ipc_sma_init env raw n sz = (\<lambda>(k, s).
     if initialized (sma s) then Inr (k, s)
     else (let num = (if n > 0 then nat n else DEFAULT_NUMSEG);
               sz = (if sz > 0 then sz else DEFAULT_SEGSIZE)
           in ebind (ipc_init_segs env raw num sz 0 (num + 1) k) (\<lambda>(ss, hs, k).
                Inr (k, s\<lparr>sma := (sma s)\<lparr>initialized := True, sma_num := num, sma_size := sz, segs := ss\<rparr>,
                         hdrs := hs, writable := (\<lambda>_. True)\<rparr>))))"

definition ipc_sma_detach :: "ipc \<times> 'a proc_scheme \<Rightarrow> crash + (ipc \<times> 'a proc_scheme)" where
  "ipc_sma_detach = (\<lambda>(k, s).
     if \<not> initialized (sma s) then Inl AssertFailed
     else (let s = s\<lparr>sma := (sma s)\<lparr>initialized := False\<rparr>\<rparr>;
               (k, s) = fold (\<lambda>i. immutable_cache_shm_detach (segs (sma s) ! i)) [0..<sma_num (sma s) + 1] (k, s)
           in Inr (k, s\<lparr>sma := (sma s)\<lparr>segs := []\<rparr>, hdrs := []\<rparr>)))"

subsection \<open>Start-up\<close>

text \<open>What the documentation of \<^verbatim>\<open>shmget\<close> and \<^verbatim>\<open>shmat\<close> promises when they do not fail: new identifiers, and addresses where nothing is.\<close>

definition ipc_grants :: "ipc_env \<Rightarrow> nat \<Rightarrow> ipc \<Rightarrow> bool" where
  "ipc_grants env m k \<longleftrightarrow> inj_on (shmget_result env) {..<m} \<and> inj_on (shmat_result env) {..<m} \<and>
     (\<forall>i < m. 0 \<le> shmget_result env i \<and> shmids k (shmget_result env i) = None \<and>
        (\<exists>a. shmat_result env i = Some a \<and> attached k a = None))"

definition addr_of :: "ipc_env \<Rightarrow> nat \<Rightarrow> size_t" where
  "addr_of env i = the (shmat_result env i)"

text \<open>The kernel with one more segment, to which \<open>m\<close> processes are attached, and which is marked for removal.\<close>

definition granted :: "ipc_env \<Rightarrow> size_t \<Rightarrow> nat \<Rightarrow> nat \<Rightarrow> ipc \<Rightarrow> ipc" where
  "granted env n m i k = k\<lparr>shmids := (shmids k)(shmget_result env i \<mapsto> \<lparr>shm_segsz = n, shm_nattch = m, shm_dest = True\<rparr>),
     attached := (attached k)(addr_of env i \<mapsto> shmget_result env i)\<rparr>"

abbreviation seg_len :: "nat \<Rightarrow> size_t \<Rightarrow> nat \<Rightarrow> size_t" where
  "seg_len num sz i \<equiv> if i < num then sz else 65536"

lemma attach_granted:
  assumes "shmat_result env i = Some a"
  shows "immutable_cache_shm_attach env i (shmget_result env i) n (shmget (shmget_result env i) n k) =
    Inr (\<lparr>seg_size = n, shmaddr = addr_of env i\<rparr>, granted env n 1 i k)"
  using assms by (simp add: immutable_cache_shm_attach_def immutable_cache_shm_destroy_def shmget_def shmat_def shmctl_rmid_def reap_def granted_def addr_of_def)

lemma ipc_init_segs_ok:
  assumes "\<forall>l. i \<le> l \<and> l < i + m \<longrightarrow> 0 \<le> shmget_result env l \<and> shmat_result env l \<noteq> None"
  shows "ipc_init_segs env raw num sz i m k =
    Inr (map (\<lambda>l. \<lparr>seg_size = seg_len num sz l, shmaddr = addr_of env l\<rparr>) [i..<i + m],
         map (\<lambda>l. sma_init_segment (seg_len num sz l) (raw l)) [i..<i + m], fold (\<lambda>l. granted env (seg_len num sz l) 1 l) [i..<i + m] k)"
  using assms
proof (induction m arbitrary: i k)
  case (Suc m)
  obtain a where a: "0 \<le> shmget_result env i" "shmat_result env i = Some a" using Suc.prems [rule_format, of i] by auto
  have u: "[i..<i + Suc m] = i # [Suc i..<Suc i + m]" by (simp add: upt_conv_Cons)
  have "\<forall>l. Suc i \<le> l \<and> l < Suc i + m \<longrightarrow> 0 \<le> shmget_result env l \<and> shmat_result env l \<noteq> None" using Suc.prems by auto
  note IH = Suc.IH [OF this]
  have c: "immutable_cache_shm_create env i n k = Inr (shmget_result env i, shmget (shmget_result env i) n k)" for n k
    using a(1) by (simp add: immutable_cache_shm_create_def Let_def)
  show ?case unfolding u ipc_init_segs.simps IH Let_def by (simp only: c attach_granted [OF a(2)] ebind_simps prod.case IH list.map fold_simps) simp
qed simp

text \<open>The kernel after start-up.\<close>

lemma granted_others:
  "j \<notin> shmget_result env ` set is \<Longrightarrow> shmids (fold (\<lambda>l. granted env (sz l) m l) is k) j = shmids k j"
  "a \<notin> addr_of env ` set is \<Longrightarrow> attached (fold (\<lambda>l. granted env (sz l) m l) is k) a = attached k a"
  by (induction "is" arbitrary: k) (auto simp: granted_def)

lemma granted_each:
  assumes "distinct is" "inj_on (shmget_result env) (set is)" "inj_on (addr_of env) (set is)" "i \<in> set is"
  shows "shmids (fold (\<lambda>l. granted env (sz l) m l) is k) (shmget_result env i) = Some \<lparr>shm_segsz = sz i, shm_nattch = m, shm_dest = True\<rparr> \<and>
    attached (fold (\<lambda>l. granted env (sz l) m l) is k) (addr_of env i) = Some (shmget_result env i)"
  using assms
proof (induction "is" arbitrary: k)
  case (Cons l ls)
  show ?case
  proof (cases "i = l")
    case True
    then have "shmget_result env i \<notin> shmget_result env ` set ls" "addr_of env i \<notin> addr_of env ` set ls" using Cons.prems by auto
    then show ?thesis using True by (simp add: granted_others) (simp add: granted_def)
  next
    case False
    then show ?thesis using Cons by simp
  qed
qed simp

text \<open>The process detaches; \<open>m\<close> others are still there.\<close>

lemma detach_all:
  assumes "distinct is" "inj_on ids (set is)" "inj_on adr (set is)" "\<forall>i \<in> set is. shmaddr (sg ! i) = adr i"
    "\<forall>i \<in> set is. attached k (adr i) = Some (ids i) \<and> (\<exists>n. shmids k (ids i) = Some \<lparr>shm_segsz = n, shm_nattch = Suc m, shm_dest = True\<rparr>)"
  shows "fold (\<lambda>i. immutable_cache_shm_detach (sg ! i)) is (k, s) =
    (k\<lparr>shmids := \<lambda>j. if j \<in> ids ` set is then (if m = 0 then None else map_option (\<lambda>d. d\<lparr>shm_nattch := m\<rparr>) (shmids k j)) else shmids k j,
       attached := \<lambda>a. if a \<in> adr ` set is then None else attached k a\<rparr>, s)"
  using assms
proof (induction "is" arbitrary: k)
  case (Cons l ls)
  obtain n where n: "attached k (adr l) = Some (ids l)" "shmids k (ids l) = Some \<lparr>shm_segsz = n, shm_nattch = Suc m, shm_dest = True\<rparr>"
    using Cons.prems(5) by auto
  have nl: "ids l \<notin> ids ` set ls" "adr l \<notin> adr ` set ls" using Cons.prems(1-3) by auto
  let ?k = "k\<lparr>shmids := (shmids k)(ids l := if m = 0 then None else Some \<lparr>shm_segsz = n, shm_nattch = m, shm_dest = True\<rparr>),
    attached := (attached k)(adr l := None)\<rparr>"
  have d: "immutable_cache_shm_detach (sg ! l) (k, s) = (?k, s)"
    using n Cons.prems(4) by (simp add: immutable_cache_shm_detach_def shmdt_def reap_def)
  have h: "\<forall>i \<in> set ls. attached ?k (adr i) = Some (ids i) \<and> (\<exists>n. shmids ?k (ids i) = Some \<lparr>shm_segsz = n, shm_nattch = Suc m, shm_dest = True\<rparr>)"
  proof
    fix i assume i: "i \<in> set ls"
    then have "ids i \<noteq> ids l" "adr i \<noteq> adr l" using nl by (metis imageI)+
    with i Cons.prems(5) show "attached ?k (adr i) = Some (ids i) \<and> (\<exists>n. shmids ?k (ids i) = Some \<lparr>shm_segsz = n, shm_nattch = Suc m, shm_dest = True\<rparr>)" by simp
  qed
  show ?case
    unfolding fold_simps comp_apply d using Cons.IH [OF _ _ _ _ h] Cons.prems(1-4) n nl by (auto simp: fun_eq_iff)
qed simp

subsection \<open>Properties\<close>

lemma grantedD:
  assumes "ipc_grants env m k"
  shows "inj_on (shmget_result env) {..<m}" "inj_on (addr_of env) {..<m}" "i < m \<Longrightarrow> 0 \<le> shmget_result env i \<and> shmat_result env i = Some (addr_of env i)"
    "i < m \<Longrightarrow> shmids k (shmget_result env i) = None \<and> attached k (addr_of env i) = None"
proof -
  show "i < m \<Longrightarrow> 0 \<le> shmget_result env i \<and> shmat_result env i = Some (addr_of env i)"
    "i < m \<Longrightarrow> shmids k (shmget_result env i) = None \<and> attached k (addr_of env i) = None" for i
    using assms by (force simp: ipc_grants_def addr_of_def)+
  then show "inj_on (shmget_result env) {..<m}" "inj_on (addr_of env) {..<m}"
    using assms unfolding ipc_grants_def inj_on_def by (simp, metis lessThan_iff)
qed

lemma ipc_sma_init_eq:
  assumes "ipc_grants env (Suc num) k" "\<not> initialized (sma s)" "0 < n" "num = nat n" "0 < sz"
  shows "ipc_sma_init env raw n sz (k, s) = Inr (fold (\<lambda>l. granted env (seg_len num sz l) 1 l) [0..<Suc num] k,
    s\<lparr>sma := (sma s)\<lparr>initialized := True, sma_num := num, sma_size := sz,
        segs := map (\<lambda>l. \<lparr>seg_size = seg_len num sz l, shmaddr = addr_of env l\<rparr>) [0..<Suc num]\<rparr>,
      hdrs := map (\<lambda>l. sma_init_segment (seg_len num sz l) (raw l)) [0..<Suc num], writable := (\<lambda>_. True)\<rparr>)"
proof -
  have "\<forall>l. 0 \<le> l \<and> l < 0 + Suc num \<longrightarrow> 0 \<le> shmget_result env l \<and> shmat_result env l \<noteq> None" using grantedD(3) [OF assms(1)] by auto
  from ipc_init_segs_ok [OF this, of raw num sz k] show ?thesis
    using assms(2-5) by (simp add: ipc_sma_init_def Let_def del: upt_Suc)
qed

text \<open>C31: Start-up over System V shared memory, with any number of segments: when the kernel grants them at addresses that are aligned and do not
  overlap, the allocator is well formed once its memory is protected, it has no live region, and every segment
  has room for all but 1240 bytes in one piece.\<close>

theorem ipc_init_correct:
  assumes "ipc_grants env (Suc num) k" "\<not> initialized (sma s)" "sma_last (sma s) = 0" "0 < n" "num = nat n" "1232 \<le> sz" "sz < 2 ^ 63"
    and "\<forall>i < num. 0 < addr_of env i \<and> 8 dvd addr_of env i \<and> addr_of env i + sz < 2 ^ 64"
    and "\<forall>i < num. \<forall>j < num. i \<noteq> j \<longrightarrow> separate (addr_of env i, sz) (addr_of env j, sz)"
  shows "\<exists>k' s'. ipc_sma_init env raw n sz (k, s) = Inr (k', s') \<and> sma_wf (immutable_cache_sma_protect_memory True s') \<and>
    sma_regions s' = {} \<and> sma_num (sma s') = num \<and> (\<forall>i < num. fits (hdrs s' ! i) (sz - 1240))"
proof -
  have "0 < sz" using assms(6) by simp
  note eq = ipc_sma_init_eq [OF assms(1,2,4,5) this, of raw]
  define s' where "s' = s\<lparr>sma := (sma s)\<lparr>initialized := True, sma_num := num, sma_size := sz,
        segs := map (\<lambda>l. \<lparr>seg_size = seg_len num sz l, shmaddr = addr_of env l\<rparr>) [0..<Suc num]\<rparr>,
      hdrs := map (\<lambda>l. sma_init_segment (seg_len num sz l) (raw l)) [0..<Suc num], writable := (\<lambda>_. True)\<rparr>"
  note wf = sma_init_segment_wf [OF assms(6,7)]
  have nz: "0 < num" using assms(4,5) by simp
  have h: "hdrs s' ! i = sma_init_segment sz (raw i)" "segs (sma s') ! i = \<lparr>seg_size = sz, shmaddr = addr_of env i\<rparr>" if "i < num" for i
    using that by (simp_all add: s'_def del: upt_Suc)
  have l: "length (hdrs s') = Suc num" "length (segs (sma s')) = Suc num" "sma_num (sma s') = num" "sma_size (sma s') = sz"
    "initialized (sma s')" "sma_last (sma s') = 0" using assms(3) by (simp_all add: s'_def del: upt_Suc)
  let ?p = "immutable_cache_sma_protect_memory True s'"
  have p: "sma ?p = sma s'" "hdrs ?p = hdrs s'" "protect_memory ?p = protect_memory s'" by (simp_all add: immutable_cache_sma_protect_memory_def)
  have w: "writable ?p i = (\<not> protect_memory s')" if "i < num" for i
    using that by (simp add: immutable_cache_sma_protect_memory_def l) (simp add: s'_def)
  have "segsize (sma_init_segment sz m) = sz" for m by (simp add: sma_init_segment_def Let_def)
  then have "sma_wf ?p"
    using assms(8,9) seg_wf_ok [OF wf] h l nz w unfolding sma_wf_def segments_apart_def SMA_ADDR_def p by simp
  moreover have "sma_regions s' = {}" using h l seg_wf_regions [OF wf] by (simp add: sma_regions_def shifted_def)
  moreover have "\<forall>i < num. fits (hdrs s' ! i) (sz - 1240)" using h init_segment_fits [OF assms(6,7)] by simp
  ultimately show ?thesis using eq l(3) by (auto simp: s'_def simp del: upt_Suc)
qed

text \<open>C32: No segment outlives its processes. Each segment is marked for removal as soon as it is attached; when the process that
  created the segments detaches and \<open>m\<close> children are still attached, the segments stay for the children; when it is the last one the
  kernel is as it was before start-up. No detaching fails.\<close>

theorem ipc_no_leak:
  assumes "ipc_grants env (Suc num) k" "attached k = Map.empty" "\<not> initialized (sma s)" "0 < n" "num = nat n" "0 < sz"
    "ipc_sma_init env raw n sz (k, s) = Inr (k1, s1)"
  shows "\<exists>k2 s2. ipc_sma_detach (fork_children m k1, s1) = Inr (k2, s2) \<and> warnings s2 = warnings s \<and> attached k2 = Map.empty \<and>
    (\<forall>i \<le> num. shmids k2 (shmget_result env i) = (if m = 0 then None else Some \<lparr>shm_segsz = seg_len num sz i, shm_nattch = m, shm_dest = True\<rparr>)) \<and>
    (\<forall>j. j \<notin> shmget_result env ` {..num} \<longrightarrow> shmids k2 j = shmids k j)"
proof -
  let ?is = "[0..<Suc num]" and ?id = "shmget_result env"
  note g = grantedD [OF assms(1)]
  have S: "set ?is = {..<Suc num}" by auto
  note eq = ipc_sma_init_eq [OF assms(1,3-6), of raw]
  have k1: "k1 = fold (\<lambda>l. granted env (seg_len num sz l) 1 l) ?is k" using eq assms(7) by (simp del: upt_Suc)
  have s1: "sma_num (sma s1) = num" "initialized (sma s1)" "warnings s1 = warnings s"
    "\<forall>i \<in> set ?is. shmaddr (segs (sma s1) ! i) = addr_of env i" using eq assms(7) by (auto simp del: upt_Suc)
  have e: "shmids k1 (?id i) = Some \<lparr>shm_segsz = seg_len num sz i, shm_nattch = 1, shm_dest = True\<rparr>" "attached k1 (addr_of env i) = Some (?id i)" if "i \<in> set ?is" for i
    using granted_each [OF _ _ _ that, of env "seg_len num sz" 1 k] g(1,2) k1 unfolding S by simp_all
  have o: "j \<notin> ?id ` set ?is \<Longrightarrow> shmids k1 j = shmids k j" "a \<notin> addr_of env ` set ?is \<Longrightarrow> attached k1 a = None" for j a
    using granted_others(1) [of j env ?is "seg_len num sz" 1 k] granted_others(2) [of a env ?is "seg_len num sz" 1 k] k1 assms(2) by simp_all
  have ra: "ran (attached k1) = ?id ` set ?is"
  proof
    show "ran (attached k1) \<subseteq> ?id ` set ?is"
    proof
      fix j assume "j \<in> ran (attached k1)"
      then obtain a where a: "attached k1 a = Some j" by (auto simp: ran_def)
      then have "a \<in> addr_of env ` set ?is" using o(2) [of a] by (metis option.distinct(1))
      then show "j \<in> ?id ` set ?is" using a e(2) by auto
    qed
    show "?id ` set ?is \<subseteq> ran (attached k1)" using e(2) unfolding ran_def by blast
  qed
  let ?f = "fork_children m k1"
  have f: "shmids ?f (?id i) = Some \<lparr>shm_segsz = seg_len num sz i, shm_nattch = Suc m, shm_dest = True\<rparr>" if "i \<in> set ?is" for i
  proof -
    have "?id i \<in> ran (attached k1)" using that ra by blast
    then show ?thesis using e(1) [OF that] by (simp add: fork_children_def)
  qed
  have fo: "shmids ?f j = shmids k j" if "j \<notin> ?id ` set ?is" for j using o(1) [OF that] that ra by (simp add: fork_children_def)
  have fa: "attached ?f = attached k1" by (simp add: fork_children_def)
  note da = detach_all [of ?is ?id "addr_of env" "segs (sma s1)" ?f m "s1\<lparr>sma := (sma s1)\<lparr>initialized := False\<rparr>\<rparr>"]
  have "fold (\<lambda>i. immutable_cache_shm_detach (segs (sma s1) ! i)) ?is (?f, s1\<lparr>sma := (sma s1)\<lparr>initialized := False\<rparr>\<rparr>) =
    (?f\<lparr>shmids := \<lambda>j. if j \<in> ?id ` set ?is then (if m = 0 then None else map_option (\<lambda>d. d\<lparr>shm_nattch := m\<rparr>) (shmids ?f j)) else shmids ?f j,
       attached := \<lambda>a. if a \<in> addr_of env ` set ?is then None else attached ?f a\<rparr>, s1\<lparr>sma := (sma s1)\<lparr>initialized := False\<rparr>\<rparr>)"
    by (rule da) (use g(1,2) S s1(4) e(2) f fa in \<open>simp_all del: upt_Suc\<close>)
  then show ?thesis
    unfolding ipc_sma_detach_def using s1 f fo fa o(2) S by (auto simp: Let_def fun_eq_iff simp del: upt_Suc)
qed

text \<open>A kernel that has one segment of somebody else and grants three more.\<close>

definition sample_ipc :: ipc where
  "sample_ipc = \<lparr>shmids = [0 \<mapsto> \<lparr>shm_segsz = 4096, shm_nattch = 2, shm_dest = False\<rparr>], attached = Map.empty\<rparr>"

definition sample_ipc_env :: ipc_env where
  "sample_ipc_env = \<lparr>shmget_result = (\<lambda>i. 7 + int i), shmat_result = (\<lambda>i. Some (1048576 * (i + 1)))\<rparr>"

lemma sample_grants: "ipc_grants sample_ipc_env m sample_ipc"
  by (auto simp: ipc_grants_def sample_ipc_env_def sample_ipc_def inj_on_def)

theorem ipc_init_correct_witness:
  "\<exists>k' s'. ipc_sma_init sample_ipc_env sample_raw 2 65536 (sample_ipc, sample_start) = Inr (k', s') \<and>
    sma_wf (immutable_cache_sma_protect_memory True s') \<and> sma_num (sma s') = 2"
proof -
  have "\<exists>k' s'. ipc_sma_init sample_ipc_env sample_raw 2 65536 (sample_ipc, sample_start) = Inr (k', s') \<and>
      sma_wf (immutable_cache_sma_protect_memory True s') \<and> sma_regions s' = {} \<and> sma_num (sma s') = 2 \<and> (\<forall>i < 2. fits (hdrs s' ! i) (65536 - 1240))"
    by (rule ipc_init_correct [OF sample_grants])
      (auto simp: sample_start_def empty_sma_def sample_ipc_env_def addr_of_def separate_def less_2_cases_iff)
  then show ?thesis by blast
qed

theorem ipc_no_leak_witness:
  "\<exists>k1 s1 k2 s2. ipc_sma_init sample_ipc_env sample_raw 2 65536 (sample_ipc, sample_start) = Inr (k1, s1) \<and>
    ipc_sma_detach (fork_children 0 k1, s1) = Inr (k2, s2) \<and> shmids k2 7 = None \<and> shmids k2 8 = None \<and> shmids k2 9 = None \<and> shmids k2 0 \<noteq> None"
proof -
  have i: "\<not> initialized (sma sample_start)" "attached sample_ipc = Map.empty" by (simp_all add: sample_start_def empty_sma_def sample_ipc_def)
  obtain k1 s1 where 1: "ipc_sma_init sample_ipc_env sample_raw 2 65536 (sample_ipc, sample_start) = Inr (k1, s1)"
    using ipc_sma_init_eq [OF sample_grants i(1), of 2 2 65536 sample_raw] by auto
  obtain k2 s2 where 2: "ipc_sma_detach (fork_children 0 k1, s1) = Inr (k2, s2)" "\<forall>i \<le> 2. shmids k2 (shmget_result sample_ipc_env i) = None"
    "\<forall>j. j \<notin> shmget_result sample_ipc_env ` {..2} \<longrightarrow> shmids k2 j = shmids sample_ipc j"
    using ipc_no_leak [OF sample_grants i(2,1) _ _ _ 1, of 2 0] by auto
  have "0 \<notin> shmget_result sample_ipc_env ` {..2}" by (auto simp: sample_ipc_env_def)
  then have "shmids k2 0 \<noteq> None" using 2(3) by (simp add: sample_ipc_def)
  moreover have "shmids k2 7 = None" "shmids k2 8 = None" "shmids k2 9 = None"
    using 2(2) [rule_format, of 0] 2(2) [rule_format, of 1] 2(2) [rule_format, of 2] by (simp_all add: sample_ipc_env_def)
  ultimately show ?thesis using 1 2(1) by blast
qed

lemma shm_key_loop_eq:
  "k \<le> 500 \<Longrightarrow> shm_key_loop used rnd (2 * k) (Suc k) (shm_key (rnd k)) = shm_key (rnd (k + length (takeWhile (\<lambda>i. used (shm_key (rnd i))) [k..<500])))"
proof (induction "500 - k" arbitrary: k)
  case 0
  then show ?case by (simp add: shm_key_loop.simps)
next
  case (Suc d)
  have k: "k < 500" using Suc.hyps(2) by simp
  then have u: "[k..<500] = k # [Suc k..<500]" by (simp add: upt_conv_Cons)
  have "shm_key_loop used rnd (2 * Suc k) (Suc (Suc k)) (shm_key (rnd (Suc k))) =
      shm_key (rnd (Suc k + length (takeWhile (\<lambda>i. used (shm_key (rnd i))) [Suc k..<500])))"
    using Suc.hyps(1) [of "Suc k"] Suc.hyps(2) k by simp
  then show ?case using k unfolding u by (subst shm_key_loop.simps) simp
qed

text \<open>The key of a segment on Windows: the counter of the loop goes up twice in each round, so that the loop looks at the first 500 random keys and not at
  1000. It takes the first of these that is not in use; when all of them are, it takes the next without looking. Every key is a positive number of
  31 bits from \<open>0x20000007\<close> up.\<close>

theorem windows_shm_key_first_free:
  "windows_shm_key used rnd = shm_key (rnd (length (takeWhile (\<lambda>i. used (shm_key (rnd i))) [0..<500]))) \<and>
    0x20000007 \<le> windows_shm_key used rnd \<and> windows_shm_key used rnd < 2 ^ 31"
proof
  show w: "windows_shm_key used rnd = shm_key (rnd (length (takeWhile (\<lambda>i. used (shm_key (rnd i))) [0..<500])))"
    using shm_key_loop_eq [of 0 used rnd] by (simp add: windows_shm_key_def)
  show "0x20000007 \<le> windows_shm_key used rnd \<and> windows_shm_key used rnd < 2 ^ 31"
    unfolding w shm_key_def using AND_upper2 [of "0x1fffffff" "rnd (length (takeWhile (\<lambda>i. used (shm_key (rnd i))) [0..<500]))"] by simp
qed

end
