(* ===== verification/Registration.thy ===== *)
theory Registration
  imports Iterator Module
begin

unbundle bit_operations_syntax

text \<open>
  What the extension registers with the engine: the constants and the class of the iterator
  (\<^verbatim>\<open>immutable_cache_iterator_init\<close>), the constant through which other extensions find the registration of serializers
  (\<^verbatim>\<open>immutable_cache_serializer.h\<close>), and the rows of the information page. The engine is its table of
  constants and its table of classes; a constant that exists is not replaced.
\<close>

subsection \<open>The tables of the engine\<close>

text \<open>A class: final, without dynamic properties, its interfaces, whether objects can be cloned, and the offset of the engine's part
  of an object, by name of the C structure.\<close>

record zend_class_entry =
  ce_final :: bool
  ce_no_dynamic_properties :: bool
  ce_interfaces :: "string list"
  ce_clone :: bool
  ce_offset_of :: string

text \<open>A constant: an integer, or the address of \<^verbatim>\<open>_immutable_cache_register_serializer\<close> as an integer, \<open>Null\<close> for \<open>0\<close>.\<close>

datatype zconst = Long int | Null | Registrar

record tables =
  zend_constants :: "string \<rightharpoonup> zconst"
  class_table :: "string \<rightharpoonup> zend_class_entry"

definition REGISTER_CONSTANT :: "string \<Rightarrow> zconst \<Rightarrow> tables \<Rightarrow> tables" where
  "REGISTER_CONSTANT n v t = (if n \<in> dom (zend_constants t) then t else t\<lparr>zend_constants := (zend_constants t)(n \<mapsto> v)\<rparr>)"

definition IMMUTABLE_CACHE_LIST_DELETED :: int where "IMMUTABLE_CACHE_LIST_DELETED = 2"
definition IMMUTABLE_CACHE_ITER_TYPE :: int where "IMMUTABLE_CACHE_ITER_TYPE = push_bit 0 1"
definition IMMUTABLE_CACHE_ITER_KEY :: int where "IMMUTABLE_CACHE_ITER_KEY = push_bit 1 1"
definition IMMUTABLE_CACHE_ITER_VALUE :: int where "IMMUTABLE_CACHE_ITER_VALUE = push_bit 2 1"
definition IMMUTABLE_CACHE_ITER_NUM_HITS :: int where "IMMUTABLE_CACHE_ITER_NUM_HITS = push_bit 3 1"
definition IMMUTABLE_CACHE_ITER_CTIME :: int where "IMMUTABLE_CACHE_ITER_CTIME = push_bit 5 1"
definition IMMUTABLE_CACHE_ITER_ATIME :: int where "IMMUTABLE_CACHE_ITER_ATIME = push_bit 7 1"
definition IMMUTABLE_CACHE_ITER_REFCOUNT :: int where "IMMUTABLE_CACHE_ITER_REFCOUNT = push_bit 8 1"
definition IMMUTABLE_CACHE_ITER_MEM_SIZE :: int where "IMMUTABLE_CACHE_ITER_MEM_SIZE = push_bit 9 1"
definition IMMUTABLE_CACHE_ITER_NONE :: int where "IMMUTABLE_CACHE_ITER_NONE = 0"

subsection \<open>The iterator\<close>

text \<open>In the order of the calls.\<close>

definition iterator_constants :: "(string \<times> int) list" where
  "iterator_constants =
     [(''IMMUTABLE_CACHE_LIST_ACTIVE'', IMMUTABLE_CACHE_LIST_ACTIVE), (''IMMUTABLE_CACHE_LIST_DELETED'', IMMUTABLE_CACHE_LIST_DELETED),
      (''IMMUTABLE_CACHE_ITER_TYPE'', IMMUTABLE_CACHE_ITER_TYPE), (''IMMUTABLE_CACHE_ITER_KEY'', IMMUTABLE_CACHE_ITER_KEY),
      (''IMMUTABLE_CACHE_ITER_VALUE'', IMMUTABLE_CACHE_ITER_VALUE), (''IMMUTABLE_CACHE_ITER_NUM_HITS'', IMMUTABLE_CACHE_ITER_NUM_HITS),
      (''IMMUTABLE_CACHE_ITER_CTIME'', IMMUTABLE_CACHE_ITER_CTIME), (''IMMUTABLE_CACHE_ITER_ATIME'', IMMUTABLE_CACHE_ITER_ATIME),
      (''IMMUTABLE_CACHE_ITER_REFCOUNT'', IMMUTABLE_CACHE_ITER_REFCOUNT), (''IMMUTABLE_CACHE_ITER_MEM_SIZE'', IMMUTABLE_CACHE_ITER_MEM_SIZE),
      (''IMMUTABLE_CACHE_ITER_NONE'', IMMUTABLE_CACHE_ITER_NONE), (''IMMUTABLE_CACHE_ITER_ALL'', uint IMMUTABLE_CACHE_ITER_ALL)]"

definition immutable_cache_iterator_ce :: zend_class_entry where
  "immutable_cache_iterator_ce = \<lparr>ce_final = True, ce_no_dynamic_properties = True, ce_interfaces = [''Iterator''],
     ce_clone = False, ce_offset_of = ''immutable_cache_iterator_t.obj''\<rparr>"

definition immutable_cache_iterator_init :: "tables \<Rightarrow> bool \<times> tables" where
  "immutable_cache_iterator_init t =
     (let t = t\<lparr>class_table := (class_table t)(''ImmutableCacheIterator'' \<mapsto> immutable_cache_iterator_ce)\<rparr>
      in (True, fold (\<lambda>(n, v). REGISTER_CONSTANT n (Long v)) iterator_constants t))"

definition immutable_cache_iterator_shutdown :: "tables \<Rightarrow> bool \<times> tables" where
  "immutable_cache_iterator_shutdown t = (True, t)"

subsection \<open>The hook for serializers\<close>

definition IMMUTABLE_CACHE_SERIALIZER_CONSTANT :: string where
  "IMMUTABLE_CACHE_SERIALIZER_CONSTANT = CHR 0x00 # ''immutable_cache_register_serializer-'' @ ''0''"

text \<open>\<^verbatim>\<open>PHP_MINIT\<close> registers the address.\<close>

definition register_hook :: "tables \<Rightarrow> tables" where
  "register_hook t = REGISTER_CONSTANT IMMUTABLE_CACHE_SERIALIZER_CONSTANT Registrar t"

text \<open>The function that the shipped header defines in the other extension. A constant of that name that is some other number would be
  called as a function.\<close>

definition serializer_hook ::
  "tables \<Rightarrow> immutable_cache_serializer_t \<Rightarrow> serializers \<Rightarrow> 'a os_scheme \<Rightarrow> crash + (bool \<times> serializers \<times> 'a os_scheme)" where
  "serializer_hook t x reg s =
     (case zend_constants t IMMUTABLE_CACHE_SERIALIZER_CONSTANT of
        None \<Rightarrow> Inr (False, reg, s)
      | Some Null \<Rightarrow> Inr (False, reg, s)
      | Some Registrar \<Rightarrow> Inr (immutable_cache_register_serializer x reg s)
      | Some (Long n) \<Rightarrow> if n = 0 then Inr (False, reg, s) else Inl BadAccess)"

subsection \<open>The information page\<close>

text \<open>\<open>debug\<close> is \<^verbatim>\<open>IMMUTABLE_CACHE_DEBUG\<close>, \<open>built\<close> the date of the build; the build uses \<^verbatim>\<open>mmap\<close>. A null file mask is shown as the empty string.\<close>

definition PHP_MINFO :: "bool \<Rightarrow> string \<Rightarrow> 'a module_scheme \<Rightarrow> crash + (string \<times> string) list" where
  "PHP_MINFO debug built s =
     ebind (if enabled s then immutable_cache_get_supported_serializer_names (serializers s) else Inr ''Disabled'') (\<lambda>names.
       Inr [(''immutable_cache Support'', if enabled s then ''Enabled'' else ''Disabled''),
            (''Version'', ''6.1.0''),
            (''immutable_cache Debugging'', if debug then ''Enabled'' else ''Disabled''),
            (''MMAP Support'', ''Enabled''),
            (''MMAP File Mask'', case mmap_file_mask s of None \<Rightarrow> '''' | Some m \<Rightarrow> m),
            (''Serialization Support'', names),
            (''Build Date'', built)])"

subsection \<open>Flags and fields\<close>

lemma register_others: "n \<noteq> m \<Longrightarrow> zend_constants (REGISTER_CONSTANT m v t) n = zend_constants t n"
  by (simp add: REGISTER_CONSTANT_def)

lemma register_fresh: "zend_constants t n = None \<Longrightarrow> zend_constants (REGISTER_CONSTANT n v t) n = Some v"
  by (auto simp: REGISTER_CONSTANT_def dom_def)

lemma register_all:
  assumes "distinct (map fst cs)" "\<forall>n \<in> fst ` set cs. zend_constants t n = None" "(n, v) \<in> set cs"
  shows "zend_constants (fold (\<lambda>(n, v). REGISTER_CONSTANT n (Long v)) cs t) n = Some (Long v)"
proof -
  have oth: "n \<notin> fst ` set ds \<Longrightarrow> zend_constants (fold (\<lambda>(n, v). REGISTER_CONSTANT n (Long v)) ds u) n = zend_constants u n" for ds u
    by (induction ds arbitrary: u) (auto simp: register_others)
  show ?thesis
    using assms
  proof (induction cs arbitrary: t)
    case (Cons c cs)
    obtain m w where c: "c = (m, w)" by (cases c)
    show ?case
    proof (cases "c = (n, v)")
      case True
      then have "n \<notin> fst ` set cs" using Cons.prems(1) by auto
      then show ?thesis using True Cons.prems(2) by (simp add: oth register_fresh)
    next
      case False
      then have "(n, v) \<in> set cs" using Cons.prems(3) by auto
      moreover have "\<forall>n \<in> fst ` set cs. zend_constants (REGISTER_CONSTANT m (Long w) t) n = None"
      proof
        fix x assume x: "x \<in> fst ` set cs"
        then have "x \<noteq> m" using Cons.prems(1) c by auto
        then show "zend_constants (REGISTER_CONSTANT m (Long w) t) x = None" using Cons.prems(2) x by (auto simp: register_others)
      qed
      ultimately show ?thesis using Cons.IH Cons.prems(1) c by simp
    qed
  qed simp
qed

text \<open>The flags with the fields they select.\<close>

definition flag_fields :: "(string \<times> nat \<times> string) list" where
  "flag_fields = [(''IMMUTABLE_CACHE_ITER_TYPE'', 0, ''type''), (''IMMUTABLE_CACHE_ITER_KEY'', 1, ''key''), (''IMMUTABLE_CACHE_ITER_VALUE'', 2, ''value''),
     (''IMMUTABLE_CACHE_ITER_NUM_HITS'', 3, ''num_hits''), (''IMMUTABLE_CACHE_ITER_CTIME'', 5, ''creation_time''),
     (''IMMUTABLE_CACHE_ITER_ATIME'', 7, ''access_time''), (''IMMUTABLE_CACHE_ITER_MEM_SIZE'', 9, ''mem_size'')]"

text \<open>The value a script has for a constant, and for several of them combined.\<close>

definition const_value :: "tables \<Rightarrow> string \<Rightarrow> zend_ulong" where
  "const_value t n = (case zend_constants t n of Some (Long v) \<Rightarrow> of_int v | _ \<Rightarrow> 0)"

definition combined :: "tables \<Rightarrow> string list \<Rightarrow> zend_ulong" where
  "combined t ns = foldr (\<lambda>n w. const_value t n OR w) ns 0"

lemma bit_combined: "bit (combined t ns) i \<longleftrightarrow> (\<exists>n \<in> set ns. bit (const_value t n) i)"
  by (induction ns) (auto simp: combined_def bit_or_iff)

lemma flag_table:
  "list_all (\<lambda>(n, k, f). (n, push_bit k 1) \<in> set iterator_constants \<and> k < 64) flag_fields"
  "list_all (\<lambda>(n, k, f). list_all (\<lambda>(m, l, g). k = l \<longrightarrow> n = m) flag_fields) flag_fields"
  "distinct (map fst iterator_constants)"
  by code_simp+

lemma flag_value:
  assumes "\<forall>n \<in> fst ` set iterator_constants. zend_constants t n = None" "(n, k, f) \<in> set flag_fields"
  shows "bit (const_value (snd (immutable_cache_iterator_init t)) n) i \<longleftrightarrow> i = k"
proof -
  have nk: "(n, push_bit k 1) \<in> set iterator_constants" "k < 64" using flag_table(1) assms(2) by (auto simp: list_all_iff)
  then have "zend_constants (snd (immutable_cache_iterator_init t)) n = Some (Long (push_bit k 1))"
    using register_all [of iterator_constants "t\<lparr>class_table := (class_table t)(''ImmutableCacheIterator'' \<mapsto> immutable_cache_iterator_ce)\<rparr>" n "push_bit k 1"] assms(1) flag_table(3)
    by (simp add: immutable_cache_iterator_init_def)
  then have "const_value (snd (immutable_cache_iterator_init t)) n = push_bit k 1" by (simp only: const_value_def option.case zconst.case) (metis of_int_1 push_bit_of_int)
  with nk(2) show ?thesis by (auto simp: bit_simps)
qed

subsection \<open>Properties\<close>

text \<open>C33: The constants that scripts see select the fields of the items. After registration, an iterator whose format
  is any combination of the flags gives items with exactly the fields of these flags, in the order of the table.\<close>

theorem flags_select_fields:
  assumes "\<forall>n \<in> fst ` set iterator_constants. zend_constants t n = None" "set ns \<subseteq> fst ` set flag_fields"
    "immutable_cache_iterator_item_ctor Z c H (combined (snd (immutable_cache_iterator_init t)) ns) p = Inr item"
  shows "map fst (ivalue item) = map (\<lambda>(n, k, f). f) (filter (\<lambda>(n, k, f). n \<in> set ns) flag_fields)"
proof -
  let ?w = "combined (snd (immutable_cache_iterator_init t)) ns"
  have b: "bit ?w k \<longleftrightarrow> n \<in> set ns" if "(n, k, f) \<in> set flag_fields" for n k f
  proof
    assume "bit ?w k"
    then obtain m where m: "m \<in> set ns" "bit (const_value (snd (immutable_cache_iterator_init t)) m) k" by (auto simp: bit_combined)
    then obtain l g where l: "(m, l, g) \<in> set flag_fields" using assms(2) by force
    then have "k = l" using m(2) flag_value [OF assms(1) l] by simp
    then have "n = m" using flag_table(2) l that by (fastforce simp: list_all_iff)
    with m(1) show "n \<in> set ns" by simp
  qed (use flag_value [OF assms(1) that] in \<open>auto simp: bit_combined\<close>)
  have "map fst (ivalue item) = map (\<lambda>(n, k, f). f) (filter (\<lambda>(n, k, f). bit ?w k) flag_fields)"
    using assms(3) by (auto simp: immutable_cache_iterator_item_ctor_def flag_fields_def ebind_Inr_iff split: if_splits prod.splits)
  moreover have "filter (\<lambda>(n, k, f). bit ?w k) flag_fields = filter (\<lambda>(n, k, f). n \<in> set ns) flag_fields"
    using b by (intro filter_cong) auto
  ultimately show ?thesis by simp
qed

theorem flags_select_fields_witness:
  "\<exists>Z c e item. immutable_cache_iterator_item_ctor Z c [1 \<mapsto> CEntry e]
      (combined (snd (immutable_cache_iterator_init \<lparr>zend_constants = Map.empty, class_table = Map.empty\<rparr>)) [''IMMUTABLE_CACHE_ITER_MEM_SIZE'', ''IMMUTABLE_CACHE_ITER_TYPE'']) 1 = Inr item \<and>
    map fst (ivalue item) = [''type'', ''mem_size'']"
proof -
  let ?t = "\<lparr>zend_constants = Map.empty, class_table = Map.empty\<rparr>" and ?ns = "[''IMMUTABLE_CACHE_ITER_MEM_SIZE'', ''IMMUTABLE_CACHE_ITER_TYPE'']"
  have t: "\<forall>n \<in> fst ` set iterator_constants. zend_constants ?t n = None" by simp
  have ns: "set ?ns \<subseteq> fst ` set flag_fields" by code_simp
  have v: "(''IMMUTABLE_CACHE_ITER_MEM_SIZE'', 9, ''mem_size'') \<in> set flag_fields" "(''IMMUTABLE_CACHE_ITER_TYPE'', 0, ''type'') \<in> set flag_fields"
    by code_simp+
  have "\<not> bit (combined (snd (immutable_cache_iterator_init ?t)) ?ns) 2"
    using flag_value [OF t v(1), of 2] flag_value [OF t v(2), of 2] by (simp add: bit_combined)
  then obtain item where i: "immutable_cache_iterator_item_ctor sample_zend c [1 \<mapsto> CEntry e] (combined (snd (immutable_cache_iterator_init ?t)) ?ns) 1 = Inr item"
    by (auto simp: immutable_cache_iterator_item_ctor_def read_entry_def)
  have "map (\<lambda>(n, k, f). f) (filter (\<lambda>(n, k, f). n \<in> set ?ns) flag_fields) = [''type'', ''mem_size'']" by code_simp
  with flags_select_fields [OF t ns i] i show ?thesis by metis
qed

text \<open>Another extension that starts after this one registers its serializer as if it called the function itself; one that starts before is told \<open>0\<close>.\<close>

lemma hook_registers:
  assumes "zend_constants t IMMUTABLE_CACHE_SERIALIZER_CONSTANT = None"
  shows "serializer_hook (register_hook t) x reg s = Inr (immutable_cache_register_serializer x reg s)" "serializer_hook t x reg s = Inr (False, reg, s)"
  using assms by (simp_all add: serializer_hook_def register_hook_def register_fresh)

end
