(* ===== verification/Spec2Isabelle.thy ===== *)
theory Spec2Isabelle
  imports Iterator_Props Signals_Props Functions_Props Concurrent_Props Shm Registration
begin

text \<open>
  \<^bold>\<open>A verification library for the PHP extension immutable_cache.\<close>

  The extension keeps a hash table of PHP values in shared memory. All worker processes of a
  server read it; an entry, once stored, is never changed and never removed. A value is copied into
  shared memory in two passes (the first counts the bytes, the second copies into one region of
  that size), is marked immutable, and is afterwards returned to scripts without a copy. What cannot be
  copied, such as an object, is stored as the bytes of a serializer.

  \<^bold>\<open>Parts and theories, from the bottom to the top.\<close> Each theory carries the names of the C functions
  it models.

  \<^item> \<open>Prelude\<close>: \<open>size_t\<close> arithmetic modulo 2 to the power 64 (LP64), the ways a run may end badly (\<open>crash\<close>),
    the error monad \<open>ebind\<close>, and shared lemmas.
  \<^item> \<open>Sma_Block\<close>, \<open>Sma_Inv\<close>, \<open>Sma_Alloc\<close>, \<open>Sma_Free\<close>, \<open>Sma_Spec\<close>: one segment of
    \<^verbatim>\<open>immutable_cache_sma.c\<close> (\<^verbatim>\<open>find_block\<close>, \<^verbatim>\<open>sma_allocate\<close>, \<^verbatim>\<open>sma_deallocate\<close>, the formatting in
    \<^verbatim>\<open>immutable_cache_sma_init\<close>). \<open>seg_wf\<close> relates the headers to a list of blocks and a free
    list; allocation and release refine operations on these lists. The locale
    \<open>region_allocator\<close> is the contract of an allocator; \<open>seg\<close> interprets it on a segment.
  \<^item> \<open>Locks\<close>, \<open>Sma\<close>, \<open>Sma_Laws\<close>, \<open>Sma_Props\<close>: the lock entry points of \<^verbatim>\<open>immutable_cache_lock.c\<close>,
    the mappings of \<^verbatim>\<open>immutable_cache_mmap.c\<close> and the allocator over several segments. The state
    \<open>proc\<close> extends \<open>os\<close>: locks held, interruptions blocked, warnings, outcomes of the lock calls to come
    (\<open>lock_rc\<close>; when it is empty the calls succeed), write protection, the segments. \<open>shm\<close>
    interprets \<open>region_allocator\<close> on it.
  \<^item> \<open>Zend\<close>, \<open>Hash_Each\<close>: zvals, strings and arrays as cells of a heap indexed by addresses, the PHP
    value a zval stands for (\<open>rep\<close>), the loops over hash tables, and
    \<^verbatim>\<open>immutable_cache_flip_hash\<close> of \<^verbatim>\<open>immutable_cache.c\<close>.
  \<^item> \<open>Persist\<close>, \<open>Persist_Laws\<close>, \<open>Persist_Copy\<close>, \<open>Persist_Props\<close>, \<open>Persist_Thms\<close>:
    \<^verbatim>\<open>immutable_cache_persist.c\<close>. The laws couple the two passes object by object.
  \<^item> \<open>Cache\<close>, \<open>Cache_Chain\<close>, \<open>Cache_Laws\<close>, \<open>Cache_Store\<close>, \<open>Cache_Lookup\<close>, \<open>Cache_Create\<close>:
    \<^verbatim>\<open>immutable_cache_cache.c\<close> and the lock functions of \<^verbatim>\<open>immutable_cache_cache.h\<close>, with the invariant
    of the table.
  \<^item> \<open>Cache_Spec\<close>, \<open>Cache_Refine\<close>, \<open>Cache_Run\<close>, \<open>Cache_Props\<close>: the abstract cache is a partial map from
    key bytes to stored values. \<open>represents Z s M\<close> relates a state to the map; each operation refines an
    operation of the map. \<open>cache_step\<close> is one operation of any process, or a change of memory outside
    the segments; the locale \<open>growing_map\<close>, interpreted as \<open>cmap\<close>, gives that runs only add to the map.
  \<^item> \<open>Lock_Backends\<close>, \<open>Lock_Laws\<close>: the five implementations of a lock in \<^verbatim>\<open>immutable_cache_lock.c\<close>, with
    \<^verbatim>\<open>immutable_cache_windows_srwlock_kernel.c\<close> and \<^verbatim>\<open>immutable_cache_mutex.c\<close>, as operations on the state of a lock that
    processes share. The locale \<open>rw_lock\<close> is the contract of a read-write lock; \<open>lck\<close> interprets it on every
    implementation.
  \<^item> \<open>Concurrent\<close>: lookups and stores of any number of processes as the step relations \<open>find_step\<close>, \<open>store_step\<close> and \<open>call_step\<close>
    over the shared table and its locks; a step is one access to a shared word, one lock operation, or work on memory
    nobody else knows. \<open>Concurrent_Heap\<close>, \<open>Concurrent_Inv\<close>, \<open>Concurrent_Steps\<close>: the invariant \<open>conc_inv\<close> (holders of the
    locks, what each process knows at its program counter, the map of the table) and that every step keeps it;
    \<open>conc\<close> interprets \<open>growing_map\<close> on it. \<open>Concurrent_Progress\<close>, \<open>Concurrent_Solo\<close>: absence of deadlocks, and the bound on
    the steps of a holder. \<open>Concurrent_Sample\<close>, \<open>Concurrent_Props\<close>: concrete runs and the properties.
  \<^item> \<open>Shm\<close>: \<^verbatim>\<open>immutable_cache_shm.c\<close> over a kernel that counts attached processes, and start-up and end of the allocator
    in a build without \<^verbatim>\<open>mmap\<close>.
  \<^item> \<open>Stack\<close>: \<^verbatim>\<open>immutable_cache_stack.c\<close>, with the locale \<open>stack_interface\<close> and its interpretation \<open>ptrs\<close>.
  \<^item> \<open>Iterator\<close>, \<open>Iterator_Laws\<close>, \<open>Iterator_Walk\<close>, \<open>Iterator_Props\<close>: the class of
    \<^verbatim>\<open>immutable_cache_iterator.c\<close>. The locale \<open>cursor\<close> is the protocol of \<^verbatim>\<open>valid\<close>, \<^verbatim>\<open>current\<close> and
    \<^verbatim>\<open>next\<close>; its interpretation \<open>iter\<close> gives that a \<^verbatim>\<open>foreach\<close> loop ends and what it visits.
  \<^item> \<open>Signals\<close>, \<open>Signals_Props\<close>: \<^verbatim>\<open>immutable_cache_signal.c\<close>; system calls and calls of handlers are
    events of the state.
  \<^item> \<open>Serializers\<close>: the registry of \<^verbatim>\<open>immutable_cache.c\<close> and the wrappers of \<^verbatim>\<open>immutable_cache_cache.c\<close>.
  \<^item> \<open>Module\<close>: settings, \<^verbatim>\<open>MINIT\<close>, \<^verbatim>\<open>MSHUTDOWN\<close> and \<^verbatim>\<open>RINIT\<close> of \<^verbatim>\<open>php_immutable_cache.c\<close>, and preloading
    (\<^verbatim>\<open>immutable_cache_load_data\<close>). \<open>Functions\<close>, \<open>Functions_Laws\<close>, \<open>Functions_Props\<close>: the PHP functions.
    \<open>Registration\<close>: the constants and the class of the iterator, the hook of \<^verbatim>\<open>immutable_cache_serializer.h\<close>, the rows of \<^verbatim>\<open>MINFO\<close>.

  The states are records that extend each other: \<open>os\<close>, \<open>proc\<close>, \<open>mproc\<close> (with the heap), \<open>cproc\<close> (with the
  table), \<open>sigproc\<close> and \<open>module\<close>. An operation of a lower part is polymorphic in the extension, so that
  it leaves the state of the parts above it alone by its type. An operation returns \<open>Inl\<close> of a \<open>crash\<close>
  where the C code would fail an assertion, loop, or touch memory that is protected or not its own, and \<open>Inr\<close>
  of its result otherwise; that a theorem concludes \<open>Inr\<close> is part of its content.

  \<^bold>\<open>What is shown.\<close> On the cache: it refines a growing map (stores, fetches, existence tests), a stored
  value is returned unchanged after every later run, a store of a present key changes nothing and gives
  its memory back, a store of an absent key succeeds when there is room, reports are complete. On concurrent
  use: lookups are exact and values never change in every interleaving, a store reports success if and only if its
  entry is the one of the key, there is no deadlock and no failing access, a holder of a lock releases it on its
  own, and the table that is left represents a map that extends the one of the start. On locks: each
  implementation excludes writers; the file lock does so only when no call of \<^verbatim>\<open>fcntl\<close> fails. On copying:
  what is read back is what was stored, and the two passes agree byte for byte. On the allocator:
  live regions stay disjoint and inside their segment, the free bytes are exact, release after
  allocation restores the segment, best fit is what the search limit allows. On the iterator:
  termination, every selected entry once for every chunk size, the totals, the fields that flags select. On System V
  memory: start-up with any number of segments, and that no segment outlives its processes. On the module: it starts with an
  empty cache for every legal configuration of one anonymous segment; the functions on arrays report
  exactly the keys they failed to add or found. On the signals: chaining to the handlers found. The
  error behaviour is stated too: lock failures, masks of files, resources, unusable iterators,
  \<^verbatim>\<open>next\<close> beyond a chunk, a full registry of serializers, a second delivery of a signal, errors of the
  file lock, counts that are lost with recursive mutexes.

  \<^bold>\<open>Bounds and fuel.\<close> Copying recurses over the value; the recursion of the model is bounded by a
  number \<open>fuel\<close>. The hypothesis on it is that it is at least \<open>psize\<close>, the size of the value as a tree, which
  is finite for every value \<open>rep\<close> gives a meaning to. Running out of it is \<open>Diverges\<close>, which the
  conclusions exclude. The loops over chains are \<open>partial_function (option)\<close>; that they return
  follows from the invariant of the table. The iterator is stated for fewer than 2 to the power 31 entries and
  for chunk sizes below 2 to the power 61: there the doubling of its buffer and the size of the array
  stay inside \<open>size_t\<close>.

  \<^bold>\<open>Parameters.\<close> The PHP engine is not part of the repository. \<open>zend_abi\<close> holds the sizes of its
  structures, its hash function and serializer; \<open>zend_ok\<close> states what is used of them. \<open>engine\<close> and
  \<open>host\<close> hold the parsing of settings, the directory and the files of the preloading, the system calls;
  \<open>mmap_env\<close> holds the results of the mappings. The clock is an argument. Witnesses instantiate all of them.

  \<^bold>\<open>Concurrency.\<close> The steps of all processes form one sequence: the memory is sequentially consistent, and an aligned
  word is read and written as a whole. A read of an entry (its key and its link) is one step, since these fields never
  change once another process can see the entry, the link of the last entry of a chain apart. The allocation and the copy of a value
  are one step: the allocator runs under the lock of the segments, and the copy goes to a region no other process
  knows, so that its cells are kept with the storing process until the entry is published. The system calls behind
  the locks are arguments of the steps; \<open>dependable\<close> is what the file lock needs of them. Reports and iterators are treated
  as atomic steps in \<open>Cache_Run\<close> only: they hold the lock of the segments for reading, which keeps insertions out.

  \<^bold>\<open>Not modelled.\<close> Weaker memory orders. The canaries of debug builds, the clock \<^verbatim>\<open>immutable_cache_time.c\<close> (the time is an
  argument), the list of interned strings, the formatting of messages and the generated argument tables are tables or output without state.
  Builds of 32 bits and thread-safe builds are not considered.
\<close>

end
